theory Spec2Isabelle
  imports Main "HOL-Library.Word" "HOL-Library.Multiset"
begin

section \<open>Data shared by the two programs\<close>

text \<open>
  Both programs (\<^verbatim>\<open>unknown-x86.cpp\<close> and \<^verbatim>\<open>cfg-parse.cpp\<close>) read the objects of the
  Dyninst parse: functions, basic blocks, edges and instructions. The programs run on
  x86-64 Linux only, so an \<^verbatim>\<open>Address\<close>/\<^verbatim>\<open>Offset\<close> (\<^verbatim>\<open>unsigned long\<close>) and a
  \<^verbatim>\<open>long\<close> are 64-bit words and an \<^verbatim>\<open>int\<close> is a 32-bit word; \<open>+\<close> and \<open>-\<close> wrap,
  \<open>sint\<close> reads a word as the signed value the C++ code compares.
\<close>

type_synonym Address = "64 word"
type_synonym long = "64 word"
type_synonym byte = "8 word"

text \<open>
  An instruction of the engine is known to the programs through \<^verbatim>\<open>size()\<close> and
  \<^verbatim>\<open>rawByte(n)\<close> only: it is modelled by its raw bytes. \<^verbatim>\<open>Block::getInsns\<close> fills a
  \<^verbatim>\<open>std::map<Offset, Instruction>\<close>; the model keeps the entries as a list in the
  iteration order of the map.
\<close>

type_synonym Insns = "(Address \<times> byte list) list"

record Block =
  start :: Address
  end_addr :: Address
  insns :: Insns

record Function =
  addr :: Address
  name :: string
  blocks :: "Block list"

text \<open>\<^verbatim>\<open>Block::size()\<close> of the engine: the distance from start to (exclusive) end.\<close>

definition block_size :: "Block \<Rightarrow> Address" where
  "block_size b = end_addr b - start b"

text \<open>The comparators of both programs (same text in both files).\<close>

definition FuncLessThan :: "Function \<Rightarrow> Function \<Rightarrow> bool" where
  "FuncLessThan f1 f2 = (addr f1 < addr f2)"

definition BlockLessThan :: "Block \<Rightarrow> Block \<Rightarrow> bool" where
  "BlockLessThan b1 b2 = (start b1 < start b2)"

text \<open>
  \<^verbatim>\<open>std::sort\<close> is library code. The programs are modelled with the sorting routine as
  a parameter \<open>srt\<close>; what the C++ standard promises of it is \<open>std_sort_ok\<close>: the result
  is a permutation of the input in which no later element is less than an earlier one.
  Nothing is promised about the relative order of equivalent elements.
\<close>

definition std_sort_ok :: "('a \<Rightarrow> 'a \<Rightarrow> bool) \<Rightarrow> ('a list \<Rightarrow> 'a list) \<Rightarrow> bool" where
  "std_sort_ok lt srt =
     (\<forall>xs. mset (srt xs) = mset xs \<and> sorted_wrt (\<lambda>a b. \<not> lt b a) (srt xs))"

text \<open>
  A routine that keeps the promise, used to instantiate the parameter: insertion sort,
  which keeps equivalent elements in their input order. The routine of the GNU C++
  library, which does not, is embedded further down.
\<close>

fun insert_by :: "('a \<Rightarrow> 'a \<Rightarrow> bool) \<Rightarrow> 'a \<Rightarrow> 'a list \<Rightarrow> 'a list" where
  "insert_by lt x [] = [x]"
| "insert_by lt x (y # ys) =
     (if lt y x then y # insert_by lt x ys else x # y # ys)"

fun isort_by :: "('a \<Rightarrow> 'a \<Rightarrow> bool) \<Rightarrow> 'a list \<Rightarrow> 'a list" where
  "isort_by lt [] = []"
| "isort_by lt (x # xs) = insert_by lt x (isort_by lt xs)"

section \<open>unknown-x86: state of the program\<close>

text \<open>The command-line options of \<^verbatim>\<open>unknown-x86\<close> (class \<^verbatim>\<open>Options\<close>).\<close>

record Options =
  filename :: "string option"
  jobs :: "32 word"
  quiet :: bool
  verbose :: bool
  fix_valid :: bool
  fix_troll :: bool

text \<open>The constructor \<^verbatim>\<open>Options()\<close>: the defaults.\<close>

definition default_opts :: Options where
  "default_opts = \<lparr> filename = None, jobs = 1, quiet = False, verbose = False,
     fix_valid = False, fix_troll = False \<rparr>"

text \<open>
  The diagnostic lines the program prints unless \<^verbatim>\<open>-q\<close> is given, one constructor per
  \<^verbatim>\<open>printf\<close>/\<^verbatim>\<open>cout\<close> statement, holding the values printed.
\<close>

datatype trace_line =
    GapLine Address Address Address long
  | OverlapLine Address Address Address
  | AlignLine Address long Address
  | TooLongLine Address long Address long
  | BadLengthLine Address "byte list" Address long
  | UnknownValidLine "byte list" "32 word" bool
  | UnknownTrollLine "byte list" nat "32 word" bool
  | UnknownErrorLine "byte list"

text \<open>
  The file-scope variables: \<^verbatim>\<open>initial_parse\<close>, the summary statistics,
  \<^verbatim>\<open>num_xed_errors\<close>, and the standard output written so far.
\<close>

record globals =
  initial_parse :: "32 word"
  num_blocks :: long
  num_instns :: long
  num_bytes :: long
  num_unknown :: long
  num_unknown_valid :: long
  num_unknown_troll :: long
  num_unknown_error :: long
  num_bad_length :: long
  num_block_align_errors :: long
  num_block_length_errors :: long
  num_gaps :: long
  num_gaps_16 :: long
  num_gaps_64 :: long
  num_gaps_256 :: long
  num_gaps_other :: long
  num_overlap :: long
  size_gaps :: long
  size_gaps_16 :: long
  size_gaps_64 :: long
  size_gaps_256 :: long
  size_gaps_other :: long
  num_xed_errors :: "32 word"
  out :: "trace_line list"

text \<open>The values the variables are initialised with.\<close>

definition init_globals :: globals where
  "init_globals = \<lparr> initial_parse = 1,
     num_blocks = 0, num_instns = 0, num_bytes = 0,
     num_unknown = 0, num_unknown_valid = 0, num_unknown_troll = 0, num_unknown_error = 0,
     num_bad_length = 0, num_block_align_errors = 0, num_block_length_errors = 0,
     num_gaps = 0, num_gaps_16 = 0, num_gaps_64 = 0, num_gaps_256 = 0, num_gaps_other = 0,
     num_overlap = 0,
     size_gaps = 0, size_gaps_16 = 0, size_gaps_64 = 0, size_gaps_256 = 0, size_gaps_other = 0,
     num_xed_errors = 0, out = [] \<rparr>"

text \<open>
  How a run of a function can end without a result: \<^verbatim>\<open>exit(n)\<close> (also through
  \<^verbatim>\<open>err\<close>, \<^verbatim>\<open>errx\<close> and \<^verbatim>\<open>usage\<close>), or an access outside a vector or buffer, which
  C++ leaves undefined.
\<close>

datatype failure = Exit int | OutOfBounds

definition print_line :: "Options \<Rightarrow> trace_line \<Rightarrow> globals \<Rightarrow> globals" where
  "print_line opts l st = (if \<not> quiet opts then st\<lparr>out := out st @ [l]\<rparr> else st)"

section \<open>unknown-x86: gaps between basic blocks (doGaps)\<close>

text \<open>
  The body of the loop of \<^verbatim>\<open>doGaps\<close> for one pair \<^verbatim>\<open>prev_block\<close>, \<^verbatim>\<open>block\<close>.
  \<^verbatim>\<open>long size = block->start() - prev_block->end()\<close> subtracts unsigned and reads the
  result as signed.
\<close>

definition gap_size :: "Block \<Rightarrow> Block \<Rightarrow> long" where
  "gap_size prev_block block = start block - end_addr prev_block"

definition gap_pair :: "Options \<Rightarrow> Block \<Rightarrow> Block \<Rightarrow> globals \<Rightarrow> globals" where
  "gap_pair opts prev_block block st =
     (let sz = gap_size prev_block block in
      if 0 < sint sz then
        (let st1 = print_line opts
                     (GapLine (start prev_block) (end_addr prev_block) (start block) sz) st;
             st2 = st1\<lparr>num_gaps := num_gaps st1 + 1, size_gaps := size_gaps st1 + sz\<rparr>
         in if sint sz < 16 then
              st2\<lparr>num_gaps_16 := num_gaps_16 st2 + 1, size_gaps_16 := size_gaps_16 st2 + sz\<rparr>
            else if sint sz < 64 then
              st2\<lparr>num_gaps_64 := num_gaps_64 st2 + 1, size_gaps_64 := size_gaps_64 st2 + sz\<rparr>
            else if sint sz < 256 then
              st2\<lparr>num_gaps_256 := num_gaps_256 st2 + 1, size_gaps_256 := size_gaps_256 st2 + sz\<rparr>
            else
              st2\<lparr>num_gaps_other := num_gaps_other st2 + 1,
                  size_gaps_other := size_gaps_other st2 + sz\<rparr>)
      else if sint sz < 0 then
        (let st1 = print_line opts
                     (OverlapLine (end_addr prev_block) (start block) (end_addr block)) st
         in st1\<lparr>num_overlap := num_overlap st1 + 1\<rparr>)
      else st)"

text \<open>The loop \<^verbatim>\<open>for (n = 1; n < blockVec.size(); n++)\<close>, over the blocks after the first.\<close>

fun gaps_loop :: "Options \<Rightarrow> Block \<Rightarrow> Block list \<Rightarrow> globals \<Rightarrow> globals" where
  "gaps_loop opts prev_block [] st = st"
| "gaps_loop opts prev_block (block # rest) st =
     gaps_loop opts block rest (gap_pair opts prev_block block st)"

text \<open>
  \<^verbatim>\<open>doGaps\<close>: collect the blocks of all functions, sort them, read \<^verbatim>\<open>blockVec[0]\<close> and
  compare adjacent blocks. The read of \<^verbatim>\<open>blockVec[0]\<close> is not guarded: on an empty
  vector it is outside the vector.
\<close>

definition all_blocks :: "Function list \<Rightarrow> Block list" where
  "all_blocks funcVec = concat (map blocks funcVec)"

definition doGaps ::
  "(Block list \<Rightarrow> Block list) \<Rightarrow> Options \<Rightarrow> Function list \<Rightarrow> globals \<Rightarrow> failure + globals" where
  "doGaps srt opts funcVec st =
     (case srt (all_blocks funcVec) of
        [] \<Rightarrow> Inl OutOfBounds
      | prev_block # rest \<Rightarrow> Inr (gaps_loop opts prev_block rest st))"

text \<open>The invariant relating the gap totals to the four bands.\<close>

definition gaps_inv :: "globals \<Rightarrow> bool" where
  "gaps_inv st =
     (num_gaps st = num_gaps_16 st + num_gaps_64 st + num_gaps_256 st + num_gaps_other st \<and>
      size_gaps st = size_gaps_16 st + size_gaps_64 st + size_gaps_256 st + size_gaps_other st)"

text \<open>The adjacent pairs (previous, next) of a sequence, in order.\<close>

definition adjacent :: "'a list \<Rightarrow> ('a \<times> 'a) list" where
  "adjacent xs = zip xs (tl xs)"

section \<open>cfg-parse: command-line options (getOptions)\<close>

text \<open>The options of \<^verbatim>\<open>cfg-parse\<close> (its own class \<^verbatim>\<open>Options\<close>) and their defaults.\<close>

record Options_cfg =
  cfg_filename :: "string option"
  jobs_symtab :: "32 word"
  jobs_parse :: "32 word"
  jobs_struct :: "32 word"
  show_blocks :: bool
  show_stmts :: bool
  show_inline :: bool
  show_linemap :: bool
  show_time :: bool

definition default_opts_cfg :: Options_cfg where
  "default_opts_cfg = \<lparr> cfg_filename = None, jobs_symtab = 4, jobs_parse = 4, jobs_struct = 1,
     show_blocks = True, show_stmts = True, show_inline = True, show_linemap = True,
     show_time = False \<rparr>"

text \<open>
  \<^verbatim>\<open>getNumJobs\<close>. The C library's \<^verbatim>\<open>atoi\<close> is a parameter. \<^verbatim>\<open>usage\<close> and \<^verbatim>\<open>errx\<close> both
  end the process with status 1. \<^verbatim>\<open>MAX_THREADS\<close> is 550.
\<close>

definition getNumJobs :: "(string \<Rightarrow> 32 word) \<Rightarrow> nat \<Rightarrow> string list \<Rightarrow> failure + 32 word" where
  "getNumJobs atoi index argv =
     (if index \<ge> length argv then Inl (Exit 1)
      else if sint (atoi (argv ! index)) \<le> 0 \<or> sint (atoi (argv ! index)) > 550
        then Inl (Exit 1)
      else Inr (atoi (argv ! index)))"

text \<open>
  The \<^verbatim>\<open>while (n < argc)\<close> loop of \<^verbatim>\<open>getOptions\<close>; \<open>argv\<close> is the whole argument vector
  (\<open>argv ! 0\<close> the program name) and \<open>argc\<close> its length. In the source \<open>n\<close> is incremented
  right after the argument is read, so \<open>n + 1\<close> below is the source's \<open>n\<close> inside the
  branches. The result is the index at which the loop stopped and the options.
\<close>

function getOptions_loop ::
  "(string \<Rightarrow> 32 word) \<Rightarrow> string list \<Rightarrow> nat \<Rightarrow> Options_cfg \<Rightarrow> failure + (nat \<times> Options_cfg)" where
  "getOptions_loop atoi argv n opts =
     (if n < length argv then
        (if argv ! n = ''-h'' \<or> argv ! n = ''-help'' \<or> argv ! n = ''--help'' then Inl (Exit 1)
         else if argv ! n = ''-j'' \<or> argv ! n = ''--jobs'' then
           (case getNumJobs atoi (n + 1) argv of
              Inl e \<Rightarrow> Inl e
            | Inr num \<Rightarrow>
                getOptions_loop atoi argv (n + 2) (opts\<lparr>jobs_symtab := num, jobs_parse := num\<rparr>))
         else if argv ! n = ''--jobs-symtab'' then
           (case getNumJobs atoi (n + 1) argv of
              Inl e \<Rightarrow> Inl e
            | Inr num \<Rightarrow> getOptions_loop atoi argv (n + 2) (opts\<lparr>jobs_symtab := num\<rparr>))
         else if argv ! n = ''--jobs-parse'' then
           (case getNumJobs atoi (n + 1) argv of
              Inl e \<Rightarrow> Inl e
            | Inr num \<Rightarrow> getOptions_loop atoi argv (n + 2) (opts\<lparr>jobs_parse := num\<rparr>))
         else if argv ! n = ''--jobs-struct'' then getOptions_loop atoi argv (n + 2) opts
         else if argv ! n = ''-A'' then
           getOptions_loop atoi argv (n + 1)
             (opts\<lparr>show_blocks := False, show_stmts := False, show_inline := False,
                   show_linemap := False\<rparr>)
         else if argv ! n = ''+A'' then
           getOptions_loop atoi argv (n + 1)
             (opts\<lparr>show_blocks := True, show_stmts := True, show_inline := True,
                   show_linemap := True\<rparr>)
         else if argv ! n = ''-B'' then
           getOptions_loop atoi argv (n + 1) (opts\<lparr>show_blocks := False\<rparr>)
         else if argv ! n = ''+B'' then
           getOptions_loop atoi argv (n + 1) (opts\<lparr>show_blocks := True\<rparr>)
         else if argv ! n = ''-S'' then
           getOptions_loop atoi argv (n + 1)
             (opts\<lparr>show_stmts := False, show_inline := False, show_linemap := False\<rparr>)
         else if argv ! n = ''+S'' then
           getOptions_loop atoi argv (n + 1)
             (opts\<lparr>show_stmts := True, show_inline := True, show_linemap := True\<rparr>)
         else if argv ! n = ''-I'' then
           getOptions_loop atoi argv (n + 1) (opts\<lparr>show_inline := False\<rparr>)
         else if argv ! n = ''+I'' then
           getOptions_loop atoi argv (n + 1) (opts\<lparr>show_inline := True, show_stmts := True\<rparr>)
         else if argv ! n = ''-L'' then
           getOptions_loop atoi argv (n + 1) (opts\<lparr>show_linemap := False\<rparr>)
         else if argv ! n = ''+L'' then
           getOptions_loop atoi argv (n + 1) (opts\<lparr>show_linemap := True, show_stmts := True\<rparr>)
         else if argv ! n = ''--time'' then
           getOptions_loop atoi argv (n + 1) (opts\<lparr>show_time := True\<rparr>)
         else if take 1 (argv ! n) = ''-'' \<or> take 1 (argv ! n) = ''+'' then Inl (Exit 1)
         else Inr (n, opts))
      else Inr (n, opts))"
  by pat_completeness auto
termination
  by (relation "measure (\<lambda>(atoi, argv, n, opts). length argv - n)") auto

declare getOptions_loop.simps [simp del]

text \<open>
  \<^verbatim>\<open>getOptions\<close>: the loop from index 1, then the required file name, which must be
  readable (\<^verbatim>\<open>access(filename, R_OK)\<close>, a parameter).
\<close>

definition getOptions_cfg ::
  "(string \<Rightarrow> 32 word) \<Rightarrow> (string \<Rightarrow> bool) \<Rightarrow> string list \<Rightarrow> Options_cfg \<Rightarrow> failure + Options_cfg" where
  "getOptions_cfg atoi readable argv opts =
     (case getOptions_loop atoi argv 1 opts of
        Inl e \<Rightarrow> Inl e
      | Inr (n, opts') \<Rightarrow>
          if n < length argv then
            (if readable (argv ! n) then Inr (opts'\<lparr>cfg_filename := Some (argv ! n)\<rparr>)
             else Inl (Exit 1))
          else Inl (Exit 1))"

section \<open>cfg-parse: the canonical dump\<close>

text \<open>
  An edge is known through its target block, its type and the interprocedural flag.
  \<^verbatim>\<open>EdgeLessThan\<close> orders edges by the start address of the target.
\<close>

datatype EdgeTypeEnum =
  CALL | COND_TAKEN | COND_NOT_TAKEN | INDIRECT | DIRECT | FALLTHROUGH | CATCH | CALL_FT | RET
  | NOEDGE

record Edge =
  trg :: Block
  etype :: EdgeTypeEnum
  interproc :: bool

definition EdgeLessThan :: "Edge \<Rightarrow> Edge \<Rightarrow> bool" where
  "EdgeLessThan e1 e2 = (start (trg e1) < start (trg e2))"

fun edgeType :: "EdgeTypeEnum \<Rightarrow> string" where
  "edgeType CALL = ''call''"
| "edgeType COND_TAKEN = ''cond-take''"
| "edgeType COND_NOT_TAKEN = ''cond-not''"
| "edgeType INDIRECT = ''indirect''"
| "edgeType DIRECT = ''direct''"
| "edgeType FALLTHROUGH = ''fallthr''"
| "edgeType CATCH = ''catch''"
| "edgeType CALL_FT = ''call-ft''"
| "edgeType RET = ''return''"
| "edgeType NOEDGE = ''unknown''"

text \<open>
  The engine's record of a (possibly inlined) function: its name, its call site (file and
  line; meaningful when the function is inlined) and its inlined parent, which is absent
  (\<^verbatim>\<open>NULL\<close>) exactly when the function is not inlined.
\<close>

datatype FunctionBase =
  FunctionBase (getName: string) (getCallsite: "string \<times> 64 word")
    (getInlinedParent: "FunctionBase option")

text \<open>Class \<^verbatim>\<open>InlineNode\<close>: file name, procedure name and line of one inline frame.\<close>

record InlineNode =
  filenm :: string
  procnm :: string
  line :: "64 word"

text \<open>
  The \<^verbatim>\<open>while (parent != NULL)\<close> loop of \<^verbatim>\<open>doInstruction\<close>: as long as \<open>func\<close> has a
  parent, push the node of \<open>func\<close> on the front of \<open>inlineSeqn\<close> and go on with the parent.
\<close>

fun inline_loop :: "FunctionBase \<Rightarrow> InlineNode list \<Rightarrow> InlineNode list" where
  "inline_loop (FunctionBase nm cs None) inlineSeqn = inlineSeqn"
| "inline_loop (FunctionBase nm cs (Some parent)) inlineSeqn =
     inline_loop parent (\<lparr>filenm = fst cs, procnm = nm, line = snd cs\<rparr> # inlineSeqn)"

text \<open>
  The queries of the engine that the dump reads besides the fields of the objects: the
  innermost inlined function containing an address (absent when the call fails or yields
  \<^verbatim>\<open>NULL\<close>), the line-map statements (file, line) of the module containing an address
  (\<^verbatim>\<open>getLineMapInfo\<close>; empty when there is no module), the out edges of a block and the
  functions a block belongs to.
\<close>

record Engine =
  getContainingInlinedFunction :: "Address \<Rightarrow> FunctionBase option"
  getLineMapInfo :: "Address \<Rightarrow> (string \<times> 32 word) list"
  targets :: "Block \<Rightarrow> Edge list"
  getFuncs :: "Block \<Rightarrow> Function list"

text \<open>
  The dump is modelled as the sequence of records written, each holding the objects it
  renders; the text of a record is not modelled. A statement record holds the address,
  the instruction size and, with \<open>show_linemap\<close>, the line and file; a block record holds
  the block and, when the block belongs to more than one function, these functions in
  the order printed; the edge record of a block holds its out edges in the order printed.
\<close>

datatype item =
    FuncItem Function
  | BlankItem
  | BlockItem Block "Function list"
  | StmtItem Address nat "(32 word \<times> string) option"
  | InlineItem InlineNode
  | EdgesItem "Edge list"
  | NumFuncsItem nat

definition doInstruction :: "Engine \<Rightarrow> Options_cfg \<Rightarrow> Address \<Rightarrow> byte list \<Rightarrow> item list" where
  "doInstruction eng opts a instn =
     StmtItem a (length instn)
       (if show_linemap opts then
          Some (case getLineMapInfo eng a of [] \<Rightarrow> (0, []) | s # svec \<Rightarrow> (snd s, fst s))
        else None)
     # (if show_inline opts then
          (case getContainingInlinedFunction eng a of
             Some func \<Rightarrow> map InlineItem (inline_loop func [])
           | None \<Rightarrow> [])
        else [])"

definition doBlock_cfg ::
  "(Function list \<Rightarrow> Function list) \<Rightarrow> (Edge list \<Rightarrow> Edge list) \<Rightarrow> Engine \<Rightarrow> Options_cfg \<Rightarrow>
   Block \<Rightarrow> item list" where
  "doBlock_cfg srt_f srt_e eng opts block =
     (if show_blocks opts then
        [BlockItem block
           (if 1 < length (getFuncs eng block) then srt_f (getFuncs eng block) else [])]
      else [])
     @ (if show_stmts opts then
          concat (map (\<lambda>(a, instn). doInstruction eng opts a instn) (insns block))
        else [])
     @ (if show_blocks opts then [EdgesItem (srt_e (targets eng block))] else [])"

definition doFunction_cfg ::
  "(Function list \<Rightarrow> Function list) \<Rightarrow> (Block list \<Rightarrow> Block list) \<Rightarrow> (Edge list \<Rightarrow> Edge list) \<Rightarrow>
   Engine \<Rightarrow> Options_cfg \<Rightarrow> Function \<Rightarrow> item list" where
  "doFunction_cfg srt_f srt_b srt_e eng opts func =
     FuncItem func
     # (if show_stmts opts \<and> \<not> show_blocks opts then [BlankItem] else [])
     @ concat (map (doBlock_cfg srt_f srt_e eng opts) (srt_b (blocks func)))"

text \<open>Phase 3 of \<^verbatim>\<open>main\<close>: sort the function list and dump every function.\<close>

definition main_dump ::
  "(Function list \<Rightarrow> Function list) \<Rightarrow> (Block list \<Rightarrow> Block list) \<Rightarrow> (Edge list \<Rightarrow> Edge list) \<Rightarrow>
   Engine \<Rightarrow> Options_cfg \<Rightarrow> Function list \<Rightarrow> item list" where
  "main_dump srt_f srt_b srt_e eng opts funcList =
     concat (map (doFunction_cfg srt_f srt_b srt_e eng opts) (srt_f funcList))
     @ [NumFuncsItem (length (srt_f funcList))]"

text \<open>The function headers, the block headers and the inline frames of a dump, in order.\<close>

fun func_items :: "item list \<Rightarrow> Function list" where
  "func_items [] = []"
| "func_items (FuncItem f # is) = f # func_items is"
| "func_items (i # is) = func_items is"

fun block_items :: "item list \<Rightarrow> Block list" where
  "block_items [] = []"
| "block_items (BlockItem b fs # is) = b # block_items is"
| "block_items (i # is) = block_items is"

fun inline_items :: "item list \<Rightarrow> InlineNode list" where
  "inline_items [] = []"
| "inline_items (InlineItem n # is) = n # inline_items is"
| "inline_items (i # is) = inline_items is"

text \<open>
  The chain of inlined functions at \<open>func\<close> as the engine gives it, innermost first:
  \<open>func\<close>, its parent, and so on, up to but not including the function that has no parent
  (which is not inlined). \<open>node_of\<close> is the frame of one inlined function.
\<close>

fun inline_chain :: "FunctionBase \<Rightarrow> FunctionBase list" where
  "inline_chain (FunctionBase nm cs None) = []"
| "inline_chain (FunctionBase nm cs (Some parent)) =
     FunctionBase nm cs (Some parent) # inline_chain parent"

definition node_of :: "FunctionBase \<Rightarrow> InlineNode" where
  "node_of func = \<lparr>filenm = fst (getCallsite func), procnm = getName func,
                   line = snd (getCallsite func)\<rparr>"

fun edge_items :: "item list \<Rightarrow> Edge list list" where
  "edge_items [] = []"
| "edge_items (EdgesItem es # is) = es # edge_items is"
| "edge_items (i # is) = edge_items is"

text \<open>
  What the code's ordering step gives for an input \<open>xs\<close> and key \<open>key\<close>: the output \<open>ys\<close> has
  the same elements, keys never decrease along it, and two elements with different keys
  stand in the order of their keys.
\<close>

definition address_ordered :: "('a \<Rightarrow> Address) \<Rightarrow> 'a list \<Rightarrow> 'a list \<Rightarrow> bool" where
  "address_ordered key xs ys =
     (mset ys = mset xs \<and>
      sorted_wrt (\<lambda>a b. key a \<le> key b) ys \<and>
      (\<forall>i j. i < length ys \<and> j < length ys \<and> key (ys ! i) \<noteq> key (ys ! j) \<longrightarrow>
             (i < j \<longleftrightarrow> key (ys ! i) < key (ys ! j))))"

section \<open>unknown-x86: the unknown-instruction callback (myXedCallback)\<close>

text \<open>
  The Reference Decoder (XED) is a parameter: \<open>xed bs\<close> is the outcome of
  \<^verbatim>\<open>xed_decode\<close> on the bytes \<open>bs\<close> in 64-bit mode, \<open>Some len\<close> with the decoded length
  when it returns \<^verbatim>\<open>XED_ERROR_NONE\<close> and \<open>None\<close> on every error. XED's header gives
  \<^verbatim>\<open>XED_MAX_INSTRUCTION_BYTES\<close> as 15; no property below depends on the number.
\<close>

type_synonym xed_decoder = "byte list \<Rightarrow> 32 word option"

definition XED_MAX_INSTRUCTION_BYTES :: nat where
  "XED_MAX_INSTRUCTION_BYTES = 15"

definition MY_BUF_SIZE :: nat where
  "MY_BUF_SIZE = XED_MAX_INSTRUCTION_BYTES + 4"

text \<open>
  What the callback returns to the engine: an invalid instruction (\<^verbatim>\<open>Instruction{}\<close>) or
  a no-op of a given length.
\<close>

datatype Instruction = InvalidInsn | NopInsn "32 word"

text \<open>
  The trolling loop \<^verbatim>\<open>for (start = 1; start < buf_len; start++)\<close>: the first offset at
  which the decoder succeeds, with the length decoded there.
\<close>

function troll_loop :: "xed_decoder \<Rightarrow> byte list \<Rightarrow> nat \<Rightarrow> (nat \<times> 32 word) option" where
  "troll_loop xed buf start_off =
     (if start_off < length buf then
        (case xed (drop start_off buf) of
           Some len \<Rightarrow> Some (start_off, len)
         | None \<Rightarrow> troll_loop xed buf (start_off + 1))
      else None)"
  by pat_completeness auto
termination
  by (relation "measure (\<lambda>(xed, buf, start_off). length buf - start_off)") auto

declare troll_loop.simps [simp del]

text \<open>
  The local variables of the callback after the decoding part: whether the last
  \<^verbatim>\<open>xed_error\<close> is \<^verbatim>\<open>XED_ERROR_NONE\<close>, the flags \<^verbatim>\<open>is_valid\<close> and \<^verbatim>\<open>is_troll\<close>,
  \<^verbatim>\<open>xed_len\<close>, \<^verbatim>\<open>start\<close> (read only when \<^verbatim>\<open>is_troll\<close>), the bytes copied and the instruction
  returned.
\<close>

record probe =
  xed_error_none :: bool
  is_valid :: bool
  is_troll :: bool
  xed_len :: "32 word"
  troll_start :: nat
  window :: "byte list"
  ret :: Instruction

definition xed_probe :: "xed_decoder \<Rightarrow> Options \<Rightarrow> byte list \<Rightarrow> probe" where
  "xed_probe xed opts seqn =
     (let b = take MY_BUF_SIZE seqn in
      case xed b of
        Some len \<Rightarrow>
          \<lparr>xed_error_none = True, is_valid = True, is_troll = False, xed_len = len,
           troll_start = 0, window = b,
           ret = (if fix_valid opts then NopInsn len else InvalidInsn)\<rparr>
      | None \<Rightarrow>
          (case troll_loop xed b 1 of
             Some (k, len) \<Rightarrow>
               \<lparr>xed_error_none = True, is_valid = False, is_troll = True, xed_len = len,
                troll_start = k, window = b,
                ret = (if fix_troll opts then NopInsn (of_nat k) else InvalidInsn)\<rparr>
           | None \<Rightarrow>
               \<lparr>xed_error_none = False, is_valid = False, is_troll = False, xed_len = 0,
                troll_start = max 1 (length b), window = b, ret = InvalidInsn\<rparr>))"

text \<open>
  The part of the callback after decoding: the guard against an endless string of errors
  (\<^verbatim>\<open>exit(1)\<close> when more than 20 calls in a row found nothing; the message written just
  before the exit is not modelled), then, on the initial parse only, the trace line and
  the counters.
\<close>

definition count_unknown :: "Options \<Rightarrow> probe \<Rightarrow> globals \<Rightarrow> globals" where
  "count_unknown opts pr st =
     (let st1 =
        (if initial_parse st \<noteq> 0 \<and> \<not> quiet opts then
           st\<lparr>out := out st @
             [if is_valid pr then UnknownValidLine (window pr) (xed_len pr) (fix_valid opts)
              else if is_troll pr then
                UnknownTrollLine (window pr) (troll_start pr) (xed_len pr) (fix_troll opts)
              else UnknownErrorLine (window pr)]\<rparr>
         else st)
      in if initial_parse st1 \<noteq> 0 then
           (let st2 = st1\<lparr>num_unknown := num_unknown st1 + 1\<rparr>
            in if is_valid pr then st2\<lparr>num_unknown_valid := num_unknown_valid st2 + 1\<rparr>
               else if is_troll pr then st2\<lparr>num_unknown_troll := num_unknown_troll st2 + 1\<rparr>
               else st2\<lparr>num_unknown_error := num_unknown_error st2 + 1\<rparr>)
         else st1)"

definition myXedCallback ::
  "xed_decoder \<Rightarrow> Options \<Rightarrow> byte list \<Rightarrow> globals \<Rightarrow> failure + (Instruction \<times> globals)" where
  "myXedCallback xed opts seqn st =
     (let pr = xed_probe xed opts seqn in
      if \<not> xed_error_none pr then
        (let st1 = st\<lparr>num_xed_errors := num_xed_errors st + 1\<rparr>
         in if 20 < sint (num_xed_errors st1) then Inl (Exit 1)
            else Inr (ret pr, count_unknown opts pr st1))
      else Inr (ret pr, count_unknown opts pr (st\<lparr>num_xed_errors := 0\<rparr>)))"

text \<open>
  A sequence of invocations of the callback, one per byte sequence, in the order the
  (single-threaded) parse makes them; the process ends at the first \<^verbatim>\<open>exit\<close>.
\<close>

fun run_callbacks ::
  "xed_decoder \<Rightarrow> Options \<Rightarrow> byte list list \<Rightarrow> globals \<Rightarrow> failure + globals" where
  "run_callbacks xed opts [] st = Inr st"
| "run_callbacks xed opts (seqn # rest) st =
     (case myXedCallback xed opts seqn st of
        Inl e \<Rightarrow> Inl e
      | Inr (r, st') \<Rightarrow> run_callbacks xed opts rest st')"

text \<open>
  The number of invocations at the end of a sequence that found no instruction, neither
  at offset 0 nor by trolling.
\<close>

definition trailing_unresolved :: "xed_decoder \<Rightarrow> Options \<Rightarrow> byte list list \<Rightarrow> nat" where
  "trailing_unresolved xed opts seqns =
     length (takeWhile (\<lambda>seqn. \<not> xed_error_none (xed_probe xed opts seqn)) (rev seqns))"

text \<open>
  A decoder for the examples: it knows the one-byte \<^verbatim>\<open>nop\<close> (\<^verbatim>\<open>0x90\<close>) and the two-byte
  \<^verbatim>\<open>xor eax, eax\<close> (\<^verbatim>\<open>0x31 0xc0\<close>) and nothing else.
\<close>

definition example_xed :: xed_decoder where
  "example_xed bs =
     (if take 1 bs = [0x90] then Some 1
      else if take 2 bs = [0x31, 0xc0] then Some 2
      else None)"

section \<open>unknown-x86: cross-validation of one block (doBlock)\<close>

text \<open>
  The inner loop \<^verbatim>\<open>for (n = 0; n < dyn_len; n++) buf[pos + n] = rawByte(n)\<close>, with \<open>i\<close>
  the index \<open>pos + n\<close>. The buffer is a list of its bytes; a write outside it is outside
  the allocated memory.
\<close>

fun copy_bytes :: "byte list \<Rightarrow> nat \<Rightarrow> byte list \<Rightarrow> failure + byte list" where
  "copy_bytes buf i [] = Inr buf"
| "copy_bytes buf i (x # raw) =
     (if i < length buf then copy_bytes (buf[i := x]) (Suc i) raw else Inl OutOfBounds)"

text \<open>
  Step 2 of \<^verbatim>\<open>doBlock\<close>: walk the instructions, check that each starts at the running
  offset (\<^verbatim>\<open>block_start + pos != addr\<close>) and ends within the block
  (\<^verbatim>\<open>pos + dyn_len > block_size\<close>, compared unsigned since \<^verbatim>\<open>dyn_len\<close> is unsigned), and copy
  its bytes. The result is \<open>None\<close> with the updated state after \<^verbatim>\<open>goto end_block\<close>, and
  the filled buffer when the loop ran to its end. The size of an instruction is the
  number of its raw bytes.
\<close>

fun fill_loop ::
  "Options \<Rightarrow> Address \<Rightarrow> long \<Rightarrow> Insns \<Rightarrow> long \<Rightarrow> byte list \<Rightarrow> globals \<Rightarrow>
   failure + (byte list option \<times> globals)" where
  "fill_loop opts block_start bsz [] pos buf st = Inr (Some buf, st)"
| "fill_loop opts block_start bsz ((a, raw) # rest) pos buf st =
     (if block_start + pos \<noteq> a then
        Inr (None, (print_line opts (AlignLine block_start pos a) st)
                     \<lparr>num_block_align_errors := num_block_align_errors st + 1\<rparr>)
      else if bsz < pos + of_nat (length raw) then
        Inr (None, (print_line opts (TooLongLine block_start pos (of_nat (length raw)) bsz) st)
                     \<lparr>num_block_length_errors := num_block_length_errors st + 1\<rparr>)
      else
        (case copy_bytes buf (unat pos) raw of
           Inl e \<Rightarrow> Inl e
         | Inr buf' \<Rightarrow>
             fill_loop opts block_start bsz rest (pos + of_nat (length raw)) buf' st))"

text \<open>
  Step 3: decode at every instruction's offset in the buffer with a window of 16 bytes
  and compare the lengths. \<^verbatim>\<open>xed_len\<close> is 0 when the decoder fails.
\<close>

fun check_loop ::
  "xed_decoder \<Rightarrow> Options \<Rightarrow> Address \<Rightarrow> byte list \<Rightarrow> Insns \<Rightarrow> globals \<Rightarrow> failure + globals" where
  "check_loop xed opts block_start buf [] st = Inr st"
| "check_loop xed opts block_start buf ((a, raw) # rest) st =
     (if length buf < unat (a - block_start) + 16 then Inl OutOfBounds
      else if xed (take 16 (drop (unat (a - block_start)) buf)) = None \<or>
              (of_nat (length raw) :: long) \<noteq>
                (case xed (take 16 (drop (unat (a - block_start)) buf)) of
                   Some len \<Rightarrow> ucast len | None \<Rightarrow> 0) then
        Inr ((print_line opts
                (BadLengthLine a (take 16 (drop (unat (a - block_start)) buf))
                   (of_nat (length raw))
                   (case xed (take 16 (drop (unat (a - block_start)) buf)) of
                      Some len \<Rightarrow> ucast len | None \<Rightarrow> 0)) st)
               \<lparr>num_bad_length := num_bad_length st + 1\<rparr>)
      else check_loop xed opts block_start buf rest st)"

text \<open>
  \<^verbatim>\<open>doBlock\<close>. Whether \<^verbatim>\<open>malloc\<close> grants a request of a given size is a parameter; when
  it does not, \<^verbatim>\<open>err(1, ...)\<close> ends the process. The buffer has \<^verbatim>\<open>block_size + 20\<close> bytes,
  all zero.
\<close>

definition doBlock_buf :: "Block \<Rightarrow> byte list" where
  "doBlock_buf block = replicate (unat (block_size block + 20)) 0"

definition doBlock ::
  "xed_decoder \<Rightarrow> (nat \<Rightarrow> bool) \<Rightarrow> Options \<Rightarrow> Block \<Rightarrow> globals \<Rightarrow> failure + globals" where
  "doBlock xed malloc_ok opts block st =
     (if \<not> malloc_ok (unat (block_size block + 20)) then Inl (Exit 1)
      else
        (case fill_loop opts (start block) (block_size block) (insns block) 0 (doBlock_buf block)
                (st\<lparr>num_bytes := num_bytes st + block_size block,
                    num_instns := num_instns st + of_nat (length (insns block))\<rparr>) of
           Inl e \<Rightarrow> Inl e
         | Inr (None, st') \<Rightarrow> Inr st'
         | Inr (Some buf, st') \<Rightarrow> check_loop xed opts (start block) buf (insns block) st'))"

text \<open>
  The three discrepancy counters of \<^verbatim>\<open>doBlock\<close>: alignment errors, length errors, bad
  lengths.
\<close>

definition block_errors :: "globals \<Rightarrow> long \<times> long \<times> long" where
  "block_errors st = (num_block_align_errors st, num_block_length_errors st, num_bad_length st)"

text \<open>
  A clean block, in the words of the specification: the claimed instructions are
  contiguous from the start of the block (each starts at the running offset \<open>pos\<close>), each
  ends within the length of the block, and the decoder, given the 16 bytes of the block's
  reconstructed bytes at that offset, decodes an instruction of the claimed length.
  \<open>block_bytes\<close> are the raw bytes of the instructions in order, followed by zeros up to
  the length of the block plus 20.
\<close>

fun clean_insns :: "xed_decoder \<Rightarrow> Address \<Rightarrow> nat \<Rightarrow> byte list \<Rightarrow> nat \<Rightarrow> Insns \<Rightarrow> bool" where
  "clean_insns xed block_start bsz bytes pos [] = True"
| "clean_insns xed block_start bsz bytes pos ((a, raw) # rest) =
     (a = block_start + of_nat pos \<and> pos + length raw \<le> bsz \<and>
      map_option unat (xed (take 16 (drop pos bytes))) = Some (length raw) \<and>
      clean_insns xed block_start bsz bytes (pos + length raw) rest)"

definition block_bytes :: "Block \<Rightarrow> byte list" where
  "block_bytes block =
     concat (map snd (insns block)) @
     replicate (unat (block_size block) + 20 - length (concat (map snd (insns block)))) 0"

definition clean_block :: "xed_decoder \<Rightarrow> Block \<Rightarrow> bool" where
  "clean_block xed block =
     (unat (block_size block) + 20 < 2 ^ 63 \<and>
      clean_insns xed (start block) (unat (block_size block)) (block_bytes block) 0 (insns block))"

text \<open>
  The claimed instructions \<open>xs\<close>, walked from the running offset \<open>pos\<close>, are accepted by
  the walk of step 2: each starts at the running offset and ends within the length of the
  block.
\<close>

fun accepted_insns :: "Address \<Rightarrow> nat \<Rightarrow> nat \<Rightarrow> Insns \<Rightarrow> bool" where
  "accepted_insns block_start bsz pos [] = True"
| "accepted_insns block_start bsz pos ((a, raw) # rest) =
     (a = block_start + of_nat pos \<and> pos + length raw \<le> bsz \<and>
      accepted_insns block_start bsz (pos + length raw) rest)"

section \<open>The sorting routine of the C++ library\<close>

text \<open>
  \<^verbatim>\<open>std::sort\<close> is not code of the repository but of the C++ library the programs are
  linked with. This section embeds the \<^verbatim>\<open>std::sort\<close> of the GNU C++ library
  (\<^verbatim>\<open>bits/stl_algo.h\<close>, \<^verbatim>\<open>bits/stl_heap.h\<close>), an introsort:
  quicksort with the median of three as pivot down to ranges of 16 elements, heapsort
  when the recursion gets deeper than twice the logarithm of the length, and a final
  insertion sort. It is embedded here function by function. The vector is a list, an
  iterator is an index into it, and a routine whose loop has no bound of its own (the
  \<^verbatim>\<open>__unguarded_\<close> ones) returns \<open>None\<close> when it reads outside the vector.
\<close>

text \<open>\<^verbatim>\<open>std::iter_swap(a, b)\<close>.\<close>

definition iter_swap :: "'a list \<Rightarrow> nat \<Rightarrow> nat \<Rightarrow> 'a list" where
  "iter_swap xs i j = xs[i := xs ! j, j := xs ! i]"

text \<open>\<^verbatim>\<open>std::__lg(n)\<close>: the position of the highest bit of \<open>n\<close>.\<close>

fun lg :: "nat \<Rightarrow> nat" where
  "lg n = (if n < 2 then 0 else Suc (lg (n div 2)))"

declare lg.simps [simp del]

text \<open>
  \<^verbatim>\<open>__unguarded_linear_insert(last, comp)\<close>: \<^verbatim>\<open>val = *last; next = last - 1;\<close>
  \<^verbatim>\<open>while (comp(val, next)) { *last = *next; last = next; --next; } *last = val;\<close>
  The fourth argument of the loop is \<^verbatim>\<open>last\<close>; at 0, \<^verbatim>\<open>next\<close> is before the vector.
\<close>

fun linear_insert_loop :: "('a \<Rightarrow> 'a \<Rightarrow> bool) \<Rightarrow> 'a \<Rightarrow> 'a list \<Rightarrow> nat \<Rightarrow> 'a list option" where
  "linear_insert_loop lt val xs 0 = None"
| "linear_insert_loop lt val xs (Suc next) =
     (if lt val (xs ! next) then linear_insert_loop lt val (xs[Suc next := xs ! next]) next
      else Some (xs[Suc next := val]))"

definition unguarded_linear_insert :: "('a \<Rightarrow> 'a \<Rightarrow> bool) \<Rightarrow> 'a list \<Rightarrow> nat \<Rightarrow> 'a list option" where
  "unguarded_linear_insert lt xs lasti =
     (if lasti < length xs then linear_insert_loop lt (xs ! lasti) xs lasti else None)"

text \<open>
  \<^verbatim>\<open>std::move_backward(first, i, i + 1)\<close>: the elements of \<^verbatim>\<open>[first, i)\<close> move up by one.
\<close>

definition move_backward :: "'a list \<Rightarrow> nat \<Rightarrow> nat \<Rightarrow> 'a list" where
  "move_backward xs first i =
     take (Suc first) xs @ take (i - first) (drop first xs) @ drop (Suc i) xs"

text \<open>
  \<^verbatim>\<open>__insertion_sort(first, last, comp)\<close>: \<^verbatim>\<open>if (first == last) return;\<close> then for every \<^verbatim>\<open>i\<close>
  from \<^verbatim>\<open>first + 1\<close> to \<^verbatim>\<open>last\<close>: if \<^verbatim>\<open>comp(i, first)\<close>, the element goes to the front of
  the range, otherwise \<^verbatim>\<open>__unguarded_linear_insert(i)\<close>.
\<close>

function insertion_sort_loop ::
  "('a \<Rightarrow> 'a \<Rightarrow> bool) \<Rightarrow> 'a list \<Rightarrow> nat \<Rightarrow> nat \<Rightarrow> nat \<Rightarrow> 'a list option" where
  "insertion_sort_loop lt xs first i lasti =
     (if i < lasti then
        (if lt (xs ! i) (xs ! first) then
           insertion_sort_loop lt ((move_backward xs first i)[first := xs ! i]) first (Suc i) lasti
         else
           (case unguarded_linear_insert lt xs i of
              None \<Rightarrow> None
            | Some xs' \<Rightarrow> insertion_sort_loop lt xs' first (Suc i) lasti))
      else Some xs)"
  by pat_completeness auto
termination
  by (relation "measure (\<lambda>(lt, xs, first, i, lasti). lasti - i)") auto

declare insertion_sort_loop.simps [simp del]

definition insertion_sort ::
  "('a \<Rightarrow> 'a \<Rightarrow> bool) \<Rightarrow> 'a list \<Rightarrow> nat \<Rightarrow> nat \<Rightarrow> 'a list option" where
  "insertion_sort lt xs first lasti =
     (if first = lasti then Some xs
      else if lasti < first \<or> length xs < lasti then None
      else insertion_sort_loop lt xs first (Suc first) lasti)"

text \<open>
  \<^verbatim>\<open>__unguarded_insertion_sort(first, last, comp)\<close>: \<^verbatim>\<open>__unguarded_linear_insert(i)\<close> for
  every \<^verbatim>\<open>i\<close> from \<^verbatim>\<open>first\<close> to \<^verbatim>\<open>last\<close>.
\<close>

function unguarded_insertion_sort ::
  "('a \<Rightarrow> 'a \<Rightarrow> bool) \<Rightarrow> 'a list \<Rightarrow> nat \<Rightarrow> nat \<Rightarrow> 'a list option" where
  "unguarded_insertion_sort lt xs i lasti =
     (if i < lasti then
        (case unguarded_linear_insert lt xs i of
           None \<Rightarrow> None
         | Some xs' \<Rightarrow> unguarded_insertion_sort lt xs' (Suc i) lasti)
      else Some xs)"
  by pat_completeness auto
termination
  by (relation "measure (\<lambda>(lt, xs, i, lasti). lasti - i)") auto

declare unguarded_insertion_sort.simps [simp del]

text \<open>\<^verbatim>\<open>enum { _S_threshold = 16 };\<close> and \<^verbatim>\<open>__final_insertion_sort(first, last, comp)\<close>.\<close>

definition S_threshold :: nat where
  "S_threshold = 16"

definition final_insertion_sort ::
  "('a \<Rightarrow> 'a \<Rightarrow> bool) \<Rightarrow> 'a list \<Rightarrow> nat \<Rightarrow> nat \<Rightarrow> 'a list option" where
  "final_insertion_sort lt xs first lasti =
     (if S_threshold < lasti - first then
        (case insertion_sort lt xs first (first + S_threshold) of
           None \<Rightarrow> None
         | Some xs' \<Rightarrow> unguarded_insertion_sort lt xs' (first + S_threshold) lasti)
      else insertion_sort lt xs first lasti)"

text \<open>
  \<^verbatim>\<open>__move_median_to_first(result, a, b, c, comp)\<close>: swaps the median of \<^verbatim>\<open>*a\<close>, \<^verbatim>\<open>*b\<close>, \<^verbatim>\<open>*c\<close>
  with \<^verbatim>\<open>*result\<close>.
\<close>

definition move_median_to_first ::
  "('a \<Rightarrow> 'a \<Rightarrow> bool) \<Rightarrow> 'a list \<Rightarrow> nat \<Rightarrow> nat \<Rightarrow> nat \<Rightarrow> nat \<Rightarrow> 'a list" where
  "move_median_to_first lt xs result a b c =
     (if lt (xs ! a) (xs ! b) then
        (if lt (xs ! b) (xs ! c) then iter_swap xs result b
         else if lt (xs ! a) (xs ! c) then iter_swap xs result c
         else iter_swap xs result a)
      else if lt (xs ! a) (xs ! c) then iter_swap xs result a
      else if lt (xs ! b) (xs ! c) then iter_swap xs result c
      else iter_swap xs result b)"

text \<open>
  \<^verbatim>\<open>__unguarded_partition(first, last, pivot, comp)\<close>. The two inner loops,
  \<^verbatim>\<open>while (comp(first, pivot)) ++first;\<close> and \<^verbatim>\<open>while (comp(pivot, last)) --last;\<close>, have no
  bound of their own: \<open>None\<close> when they leave the vector.
\<close>

function scan_up :: "('a \<Rightarrow> 'a \<Rightarrow> bool) \<Rightarrow> 'a list \<Rightarrow> nat \<Rightarrow> nat \<Rightarrow> nat option" where
  "scan_up lt xs pivot first =
     (if first < length xs then
        (if lt (xs ! first) (xs ! pivot) then scan_up lt xs pivot (Suc first) else Some first)
      else None)"
  by pat_completeness auto
termination
  by (relation "measure (\<lambda>(lt, xs, pivot, first). length xs - first)") auto

declare scan_up.simps [simp del]

fun scan_down :: "('a \<Rightarrow> 'a \<Rightarrow> bool) \<Rightarrow> 'a list \<Rightarrow> nat \<Rightarrow> nat \<Rightarrow> nat option" where
  "scan_down lt xs pivot 0 = (if lt (xs ! pivot) (xs ! 0) then None else Some 0)"
| "scan_down lt xs pivot (Suc lasti) =
     (if lt (xs ! pivot) (xs ! Suc lasti) then scan_down lt xs pivot lasti else Some (Suc lasti))"

text \<open>
  One round of the outer loop \<^verbatim>\<open>while (true)\<close>: scan up, \<^verbatim>\<open>--last\<close>, scan down,
  \<^verbatim>\<open>if (!(first < last)) return first;\<close>, swap, \<^verbatim>\<open>++first\<close>. The result is the vector and the
  cut.
\<close>

function unguarded_partition ::
  "('a \<Rightarrow> 'a \<Rightarrow> bool) \<Rightarrow> 'a list \<Rightarrow> nat \<Rightarrow> nat \<Rightarrow> nat \<Rightarrow> ('a list \<times> nat) option" where
  "unguarded_partition lt xs first lasti pivot =
     (case scan_up lt xs pivot first of
        None \<Rightarrow> None
      | Some first' \<Rightarrow>
          (if lasti = 0 \<or> length xs < lasti then None
           else
             (case scan_down lt xs pivot (lasti - 1) of
                None \<Rightarrow> None
              | Some lasti' \<Rightarrow>
                  (if \<not> first' < lasti' then Some (xs, first')
                   else unguarded_partition lt (iter_swap xs first' lasti') (Suc first') lasti' pivot))))"
  by pat_completeness auto
termination
proof (relation "measure (\<lambda>(lt, xs, first, lasti, pivot). lasti)")
  show "wf (measure (\<lambda>(lt, xs, first, lasti, pivot). lasti))" by simp
next
  fix lt :: "'a \<Rightarrow> 'a \<Rightarrow> bool" and xs :: "'a list" and first lasti pivot x2 x2a
  assume a: "\<not> (lasti = 0 \<or> length xs < lasti)" "scan_down lt xs pivot (lasti - 1) = Some x2a"
  have "scan_down lt xs pivot n = Some l \<Longrightarrow> l \<le> n" for n l
    by (induction n) (auto split: if_splits)
  from this [OF a(2)] a(1)
  show "((lt, iter_swap xs x2 x2a, Suc x2, x2a, pivot), lt, xs, first, lasti, pivot)
         \<in> measure (\<lambda>(lt, xs, first, lasti, pivot). lasti)"
    by auto
qed

declare unguarded_partition.simps [simp del]

text \<open>
  \<^verbatim>\<open>__unguarded_partition_pivot(first, last, comp)\<close>: \<^verbatim>\<open>mid = first + (last - first) / 2\<close>, the
  median of \<^verbatim>\<open>first + 1\<close>, \<^verbatim>\<open>mid\<close>, \<^verbatim>\<open>last - 1\<close> goes to \<^verbatim>\<open>first\<close>, and
  \<^verbatim>\<open>[first + 1, last)\<close> is partitioned around it.
\<close>

definition unguarded_partition_pivot ::
  "('a \<Rightarrow> 'a \<Rightarrow> bool) \<Rightarrow> 'a list \<Rightarrow> nat \<Rightarrow> nat \<Rightarrow> ('a list \<times> nat) option" where
  "unguarded_partition_pivot lt xs first lasti =
     unguarded_partition lt
       (move_median_to_first lt xs first (first + 1) (first + (lasti - first) div 2) (lasti - 1))
       (first + 1) lasti first"

text \<open>
  The heap routines (\<^verbatim>\<open>bits/stl_heap.h\<close>), on the range of length \<^verbatim>\<open>len\<close> that starts at
  \<^verbatim>\<open>first\<close>. \<^verbatim>\<open>__push_heap(first, holeIndex, topIndex, value, comp)\<close>:
  \<^verbatim>\<open>parent = (holeIndex - 1) / 2;\<close>
  \<^verbatim>\<open>while (holeIndex > topIndex && comp(first + parent, value)) {\<close>
  \<^verbatim>\<open>*(first + holeIndex) = *(first + parent); holeIndex = parent; parent = (holeIndex - 1) / 2; }\<close>
  \<^verbatim>\<open>*(first + holeIndex) = value;\<close>
\<close>

function push_heap ::
  "('a \<Rightarrow> 'a \<Rightarrow> bool) \<Rightarrow> 'a list \<Rightarrow> nat \<Rightarrow> nat \<Rightarrow> nat \<Rightarrow> 'a \<Rightarrow> 'a list" where
  "push_heap lt xs first holeIndex topIndex val =
     (if topIndex < holeIndex \<and> lt (xs ! (first + (holeIndex - 1) div 2)) val then
        push_heap lt (xs[first + holeIndex := xs ! (first + (holeIndex - 1) div 2)])
          first ((holeIndex - 1) div 2) topIndex val
      else xs[first + holeIndex := val])"
  by pat_completeness auto
termination
  by (relation "measure (\<lambda>(lt, xs, first, holeIndex, topIndex, val). holeIndex)") auto

declare push_heap.simps [simp del]

text \<open>
  \<^verbatim>\<open>__adjust_heap(first, holeIndex, len, value, comp)\<close>. The loop
  \<^verbatim>\<open>while (secondChild < (len - 1) / 2)\<close> moves the hole down to the greater child; a
  last node with one child is handled after it (\<^verbatim>\<open>(len & 1) == 0 && secondChild == (len - 2) / 2\<close>;
  the indices are signed in the source, so that the test fails for \<^verbatim>\<open>len = 0\<close>), and the
  value is pushed up from the hole.
\<close>

function adjust_heap_loop ::
  "('a \<Rightarrow> 'a \<Rightarrow> bool) \<Rightarrow> 'a list \<Rightarrow> nat \<Rightarrow> nat \<Rightarrow> nat \<Rightarrow> nat \<Rightarrow> 'a list \<times> nat \<times> nat" where
  "adjust_heap_loop lt xs first holeIndex len secondChild =
     (if secondChild < (len - 1) div 2 then
        (let sc = 2 * (secondChild + 1);
             sc' = (if lt (xs ! (first + sc)) (xs ! (first + (sc - 1))) then sc - 1 else sc)
         in adjust_heap_loop lt (xs[first + holeIndex := xs ! (first + sc')]) first sc' len sc')
      else (xs, holeIndex, secondChild))"
  by pat_completeness auto
termination
  by (relation "measure (\<lambda>(lt, xs, first, holeIndex, len, secondChild). len - secondChild)")
     (auto simp: Let_def)

declare adjust_heap_loop.simps [simp del]

definition adjust_heap ::
  "('a \<Rightarrow> 'a \<Rightarrow> bool) \<Rightarrow> 'a list \<Rightarrow> nat \<Rightarrow> nat \<Rightarrow> nat \<Rightarrow> 'a \<Rightarrow> 'a list" where
  "adjust_heap lt xs first holeIndex len val =
     (case adjust_heap_loop lt xs first holeIndex len holeIndex of
        (xs1, hole1, sc1) \<Rightarrow>
          (if len mod 2 = 0 \<and> 2 \<le> len \<and> sc1 = (len - 2) div 2 then
             push_heap lt (xs1[first + hole1 := xs1 ! (first + (2 * (sc1 + 1) - 1))])
               first (2 * (sc1 + 1) - 1) holeIndex val
           else push_heap lt xs1 first hole1 holeIndex val))"

text \<open>
  \<^verbatim>\<open>__make_heap(first, last, comp)\<close>: \<^verbatim>\<open>if (last - first < 2) return;\<close> then \<^verbatim>\<open>__adjust_heap\<close>
  at every \<^verbatim>\<open>parent\<close> from \<^verbatim>\<open>(len - 2) / 2\<close> down to 0.
\<close>

fun make_heap_loop ::
  "('a \<Rightarrow> 'a \<Rightarrow> bool) \<Rightarrow> 'a list \<Rightarrow> nat \<Rightarrow> nat \<Rightarrow> nat \<Rightarrow> 'a list" where
  "make_heap_loop lt xs first len 0 = adjust_heap lt xs first 0 len (xs ! first)"
| "make_heap_loop lt xs first len (Suc parent) =
     make_heap_loop lt (adjust_heap lt xs first (Suc parent) len (xs ! (first + Suc parent)))
       first len parent"

definition make_heap :: "('a \<Rightarrow> 'a \<Rightarrow> bool) \<Rightarrow> 'a list \<Rightarrow> nat \<Rightarrow> nat \<Rightarrow> 'a list" where
  "make_heap lt xs first lasti =
     (if lasti - first < 2 then xs
      else make_heap_loop lt xs first (lasti - first) ((lasti - first - 2) div 2))"

text \<open>
  \<^verbatim>\<open>__pop_heap(first, last, result, comp)\<close>: \<^verbatim>\<open>value = *result; *result = *first;\<close>
  \<^verbatim>\<open>__adjust_heap(first, 0, last - first, value)\<close>.
\<close>

definition pop_heap ::
  "('a \<Rightarrow> 'a \<Rightarrow> bool) \<Rightarrow> 'a list \<Rightarrow> nat \<Rightarrow> nat \<Rightarrow> nat \<Rightarrow> 'a list" where
  "pop_heap lt xs first lasti result =
     adjust_heap lt (xs[result := xs ! first]) first 0 (lasti - first) (xs ! result)"

text \<open>
  \<^verbatim>\<open>__heap_select(first, middle, last, comp)\<close>: \<^verbatim>\<open>__make_heap(first, middle)\<close>, then
  \<^verbatim>\<open>for (i = middle; i < last; ++i) if (comp(i, first)) __pop_heap(first, middle, i);\<close>
\<close>

function heap_select_loop ::
  "('a \<Rightarrow> 'a \<Rightarrow> bool) \<Rightarrow> 'a list \<Rightarrow> nat \<Rightarrow> nat \<Rightarrow> nat \<Rightarrow> nat \<Rightarrow> 'a list" where
  "heap_select_loop lt xs first middle i lasti =
     (if i < lasti then
        heap_select_loop lt
          (if lt (xs ! i) (xs ! first) then pop_heap lt xs first middle i else xs)
          first middle (Suc i) lasti
      else xs)"
  by pat_completeness auto
termination
  by (relation "measure (\<lambda>(lt, xs, first, middle, i, lasti). lasti - i)") auto

declare heap_select_loop.simps [simp del]

definition heap_select ::
  "('a \<Rightarrow> 'a \<Rightarrow> bool) \<Rightarrow> 'a list \<Rightarrow> nat \<Rightarrow> nat \<Rightarrow> nat \<Rightarrow> 'a list" where
  "heap_select lt xs first middle lasti =
     heap_select_loop lt (make_heap lt xs first middle) first middle middle lasti"

text \<open>
  \<^verbatim>\<open>__sort_heap(first, last, comp)\<close>:
  \<^verbatim>\<open>while (last - first > 1) { --last; __pop_heap(first, last, last); }\<close>
\<close>

function sort_heap :: "('a \<Rightarrow> 'a \<Rightarrow> bool) \<Rightarrow> 'a list \<Rightarrow> nat \<Rightarrow> nat \<Rightarrow> 'a list" where
  "sort_heap lt xs first lasti =
     (if 1 < lasti - first then
        sort_heap lt (pop_heap lt xs first (lasti - 1) (lasti - 1)) first (lasti - 1)
      else xs)"
  by pat_completeness auto
termination
  by (relation "measure (\<lambda>(lt, xs, first, lasti). lasti)") auto

declare sort_heap.simps [simp del]

text \<open>
  \<^verbatim>\<open>__partial_sort(first, middle, last, comp)\<close>: \<^verbatim>\<open>__heap_select(first, middle, last);\<close>
  \<^verbatim>\<open>__sort_heap(first, middle);\<close>
\<close>

definition partial_sort ::
  "('a \<Rightarrow> 'a \<Rightarrow> bool) \<Rightarrow> 'a list \<Rightarrow> nat \<Rightarrow> nat \<Rightarrow> nat \<Rightarrow> 'a list" where
  "partial_sort lt xs first middle lasti =
     sort_heap lt (heap_select lt xs first middle lasti) first middle"

text \<open>
  \<^verbatim>\<open>__introsort_loop(first, last, depth_limit, comp)\<close>:
  \<^verbatim>\<open>while (last - first > int(_S_threshold)) {\<close>
  \<^verbatim>\<open>if (depth_limit == 0) { __partial_sort(first, last, last); return; }\<close>
  \<^verbatim>\<open>--depth_limit; cut = __unguarded_partition_pivot(first, last);\<close>
  \<^verbatim>\<open>__introsort_loop(cut, last, depth_limit); last = cut; }\<close>
  A round of the loop and the call inside it both go on with the decremented limit.
\<close>

fun introsort_loop ::
  "('a \<Rightarrow> 'a \<Rightarrow> bool) \<Rightarrow> 'a list \<Rightarrow> nat \<Rightarrow> nat \<Rightarrow> nat \<Rightarrow> 'a list option" where
  "introsort_loop lt xs first lasti 0 =
     (if S_threshold < lasti - first then Some (partial_sort lt xs first lasti lasti) else Some xs)"
| "introsort_loop lt xs first lasti (Suc depth_limit) =
     (if S_threshold < lasti - first then
        (case unguarded_partition_pivot lt xs first lasti of
           None \<Rightarrow> None
         | Some (xs', cuti) \<Rightarrow>
             (case introsort_loop lt xs' cuti lasti depth_limit of
                None \<Rightarrow> None
              | Some xs'' \<Rightarrow> introsort_loop lt xs'' first cuti depth_limit))
      else Some xs)"

text \<open>
  \<^verbatim>\<open>std::__sort(first, last, comp)\<close>, on the whole vector:
  \<^verbatim>\<open>if (first != last) { __introsort_loop(first, last, __lg(last - first) * 2);\<close>
  \<^verbatim>\<open>__final_insertion_sort(first, last); }\<close>
  \<open>std_sort\<close> is the vector after the call; it is not specified where the routine reads
  outside the vector.
\<close>

definition gnu_sort :: "('a \<Rightarrow> 'a \<Rightarrow> bool) \<Rightarrow> 'a list \<Rightarrow> 'a list option" where
  "gnu_sort lt xs =
     (if xs = [] then Some xs
      else
        (case introsort_loop lt xs 0 (length xs) (lg (length xs) * 2) of
           None \<Rightarrow> None
         | Some xs' \<Rightarrow> final_insertion_sort lt xs' 0 (length xs)))"

definition std_sort :: "('a \<Rightarrow> 'a \<Rightarrow> bool) \<Rightarrow> 'a list \<Rightarrow> 'a list" where
  "std_sort lt xs = the (gnu_sort lt xs)"

text \<open>
  Notions for the proofs about the routine. The comparators of the programs compare one
  address: \<open>keyed lt key\<close> says that \<open>lt\<close> is the order of the keys.
\<close>

definition keyed :: "('a \<Rightarrow> 'a \<Rightarrow> bool) \<Rightarrow> ('a \<Rightarrow> 'k::linorder) \<Rightarrow> bool" where
  "keyed lt key = (\<forall>a b. lt a b = (key a < key b))"

text \<open>
  The loop of \<^verbatim>\<open>__unguarded_linear_insert\<close> as a function of the elements before \<^verbatim>\<open>last\<close>,
  nearest first: the value goes in front of the first element that is not greater, and
  there is no result when there is none.
\<close>

fun linear_insert_rev :: "('a \<Rightarrow> 'a \<Rightarrow> bool) \<Rightarrow> 'a \<Rightarrow> 'a list \<Rightarrow> 'a list option" where
  "linear_insert_rev lt val [] = None"
| "linear_insert_rev lt val (p # rpre) =
     (if lt val p then map_option (\<lambda>ys. p # ys) (linear_insert_rev lt val rpre) else Some (val # p # rpre))"



text \<open>
  The heap of the heap routines: node \<open>i\<close> of the range has the parent \<open>(i - 1) / 2\<close>.
  \<open>heap_desc t h\<close>: node \<open>h\<close> is \<open>t\<close> or below it. \<open>heap_from key xs first len t\<close>: in the
  range of length \<open>len\<close> at \<open>first\<close>, no node whose parent is \<open>t\<close> or later has a greater key
  than its parent. \<open>hole_inv\<close> is that property while \<^verbatim>\<open>__adjust_heap\<close> and \<^verbatim>\<open>__push_heap\<close>
  move the hole \<open>h\<close>: it holds away from the hole, and the children of the hole are not
  greater than its parent.
\<close>

inductive heap_desc :: "nat \<Rightarrow> nat \<Rightarrow> bool" for t where
  heap_desc_top: "heap_desc t t"
| heap_desc_child: "heap_desc t p \<Longrightarrow> 0 < c \<Longrightarrow> (c - 1) div 2 = p \<Longrightarrow> heap_desc t c"

definition heap_from :: "('a \<Rightarrow> 'k::linorder) \<Rightarrow> 'a list \<Rightarrow> nat \<Rightarrow> nat \<Rightarrow> nat \<Rightarrow> bool" where
  "heap_from key xs first len t =
     (\<forall>i. 0 < i \<and> i < len \<and> t \<le> (i - 1) div 2 \<longrightarrow>
          key (xs ! (first + i)) \<le> key (xs ! (first + (i - 1) div 2)))"

definition hole_inv ::
  "('a \<Rightarrow> 'k::linorder) \<Rightarrow> 'a list \<Rightarrow> nat \<Rightarrow> nat \<Rightarrow> nat \<Rightarrow> nat \<Rightarrow> bool" where
  "hole_inv key xs first len t h =
     (heap_desc t h \<and> h < len \<and> first + len \<le> length xs \<and>
      (\<forall>i. 0 < i \<and> i < len \<and> t \<le> (i - 1) div 2 \<and> i \<noteq> h \<and> (i - 1) div 2 \<noteq> h \<longrightarrow>
           key (xs ! (first + i)) \<le> key (xs ! (first + (i - 1) div 2))) \<and>
      (\<forall>c. 0 < c \<and> c < len \<and> (c - 1) div 2 = h \<and> t < h \<longrightarrow>
           key (xs ! (first + c)) \<le> key (xs ! (first + (h - 1) div 2))))"

section \<open>Properties of the sorting routines\<close>

lemma mset_insert_by: "mset (insert_by lt x ys) = add_mset x (mset ys)"
  by (induction ys) auto

lemma mset_isort_by: "mset (isort_by lt xs) = mset xs"
  by (induction xs) (auto simp: mset_insert_by)

lemma set_insert_by: "set (insert_by lt x ys) = insert x (set ys)"
  by (induction ys) auto

lemma sorted_insert_by:
  fixes key :: "'a \<Rightarrow> 'k::linorder"
  assumes lt: "\<And>a b. lt a b = (key a < key b)"
  shows "sorted_wrt (\<lambda>a b. \<not> lt b a) ys \<Longrightarrow> sorted_wrt (\<lambda>a b. \<not> lt b a) (insert_by lt x ys)"
  by (induction ys) (auto simp: set_insert_by lt)

lemma sorted_isort_by:
  fixes key :: "'a \<Rightarrow> 'k::linorder"
  assumes lt: "\<And>a b. lt a b = (key a < key b)"
  shows "sorted_wrt (\<lambda>a b. \<not> lt b a) (isort_by lt xs)"
  by (induction xs) (auto intro: sorted_insert_by [OF lt])

lemma isort_by_ok:
  fixes key :: "'a \<Rightarrow> 'k::linorder"
  assumes lt: "\<And>a b. lt a b = (key a < key b)"
  shows "std_sort_ok lt (isort_by lt)"
  unfolding std_sort_ok_def by (simp add: mset_isort_by sorted_isort_by [OF lt])

lemma isort_Block_ok: "std_sort_ok BlockLessThan (isort_by BlockLessThan)"
  by (rule isort_by_ok [where key = start]) (simp add: BlockLessThan_def)

lemma isort_Func_ok: "std_sort_ok FuncLessThan (isort_by FuncLessThan)"
  by (rule isort_by_ok [where key = addr]) (simp add: FuncLessThan_def)

lemma std_sort_ok_Nil: "std_sort_ok lt srt \<Longrightarrow> srt [] = []"
  unfolding std_sort_ok_def by (metis mset_zero_iff)

lemma std_sort_ok_single: "std_sort_ok lt srt \<Longrightarrow> srt [x] = [x]"
  unfolding std_sort_ok_def by (metis mset_single_iff_right mset.simps)

section \<open>unknown-x86: properties of doGaps\<close>

lemma gap_pair_inv: "gaps_inv st \<Longrightarrow> gaps_inv (gap_pair opts p b st)"
  by (simp add: gaps_inv_def gap_pair_def print_line_def Let_def)

lemma gaps_loop_inv: "gaps_inv st \<Longrightarrow> gaps_inv (gaps_loop opts p bs st)"
  by (induction bs arbitrary: p st) (simp_all add: gap_pair_inv)

lemma gap_pair_cases:
  "(0 < sint (gap_size p b) \<and> sint (gap_size p b) < 16 \<longrightarrow>
      gap_pair opts p b st =
        (print_line opts (GapLine (start p) (end_addr p) (start b) (gap_size p b)) st)
          \<lparr>num_gaps := num_gaps st + 1, size_gaps := size_gaps st + gap_size p b,
           num_gaps_16 := num_gaps_16 st + 1, size_gaps_16 := size_gaps_16 st + gap_size p b\<rparr>) \<and>
   (16 \<le> sint (gap_size p b) \<and> sint (gap_size p b) < 64 \<longrightarrow>
      gap_pair opts p b st =
        (print_line opts (GapLine (start p) (end_addr p) (start b) (gap_size p b)) st)
          \<lparr>num_gaps := num_gaps st + 1, size_gaps := size_gaps st + gap_size p b,
           num_gaps_64 := num_gaps_64 st + 1, size_gaps_64 := size_gaps_64 st + gap_size p b\<rparr>) \<and>
   (64 \<le> sint (gap_size p b) \<and> sint (gap_size p b) < 256 \<longrightarrow>
      gap_pair opts p b st =
        (print_line opts (GapLine (start p) (end_addr p) (start b) (gap_size p b)) st)
          \<lparr>num_gaps := num_gaps st + 1, size_gaps := size_gaps st + gap_size p b,
           num_gaps_256 := num_gaps_256 st + 1, size_gaps_256 := size_gaps_256 st + gap_size p b\<rparr>) \<and>
   (256 \<le> sint (gap_size p b) \<longrightarrow>
      gap_pair opts p b st =
        (print_line opts (GapLine (start p) (end_addr p) (start b) (gap_size p b)) st)
          \<lparr>num_gaps := num_gaps st + 1, size_gaps := size_gaps st + gap_size p b,
           num_gaps_other := num_gaps_other st + 1,
           size_gaps_other := size_gaps_other st + gap_size p b\<rparr>) \<and>
   (sint (gap_size p b) < 0 \<longrightarrow>
      gap_pair opts p b st =
        (print_line opts (OverlapLine (end_addr p) (start b) (end_addr b)) st)
          \<lparr>num_overlap := num_overlap st + 1\<rparr>) \<and>
   (sint (gap_size p b) = 0 \<longrightarrow> gap_pair opts p b st = st)"
  by (simp add: gap_pair_def print_line_def Let_def)

text \<open>A counter that every pair changes by an amount \<open>g\<close> ends the loop changed by the sum.\<close>

lemma gaps_loop_sum:
  fixes f :: "globals \<Rightarrow> long"
  assumes step: "\<And>p b st. f (gap_pair opts p b st) = f st + g p b"
  shows "f (gaps_loop opts p bs st) = f st + sum_list (map (\<lambda>(a, b). g a b) (zip (p # bs) bs))"
  by (induction bs arbitrary: p st) (simp_all add: step add.assoc)

lemma sum_list_indicator:
  "sum_list (map (\<lambda>x. if P x then 1 else 0) xs) = (of_nat (length (filter P xs)) :: long)"
  by (induction xs) simp_all

lemma sum_list_guard:
  "sum_list (map (\<lambda>x. if P x then h x else 0) xs) = (sum_list (map h (filter P xs)) :: long)"
  by (induction xs) simp_all

lemma gaps_loop_count:
  fixes f :: "globals \<Rightarrow> long"
  assumes step: "\<And>p b st. f (gap_pair opts p b st) = f st + (if P (p, b) then 1 else 0)"
  shows "f (gaps_loop opts p bs st) = f st + of_nat (length (filter P (zip (p # bs) bs)))"
proof -
  have "f (gaps_loop opts p bs st) =
        f st + sum_list (map (\<lambda>(a, b). if P (a, b) then 1 else 0) (zip (p # bs) bs))"
    by (rule gaps_loop_sum) (rule step)
  also have "(\<lambda>(a, b). if P (a, b) then 1 else 0) = (\<lambda>x. if P x then (1::long) else 0)"
    by auto
  finally show ?thesis by (simp only: sum_list_indicator)
qed

lemma gaps_loop_size:
  fixes f :: "globals \<Rightarrow> long"
  assumes step: "\<And>p b st. f (gap_pair opts p b st) = f st + (if P (p, b) then gap_size p b else 0)"
  shows "f (gaps_loop opts p bs st) =
         f st + sum_list (map (\<lambda>(a, b). gap_size a b) (filter P (zip (p # bs) bs)))"
proof -
  have "f (gaps_loop opts p bs st) =
        f st + sum_list (map (\<lambda>(a, b). if P (a, b) then gap_size a b else 0) (zip (p # bs) bs))"
    by (rule gaps_loop_sum) (rule step)
  also have "(\<lambda>(a, b). if P (a, b) then gap_size a b else 0) =
             (\<lambda>x. if P x then (\<lambda>(a, b). gap_size a b) x else 0)"
    by auto
  finally show ?thesis by (simp only: sum_list_guard)
qed

lemma gaps_loop_totals:
  "num_gaps (gaps_loop opts p bs st) =
     num_gaps st + of_nat (length (filter (\<lambda>(a, b). 0 < sint (gap_size a b)) (zip (p # bs) bs)))"
  "size_gaps (gaps_loop opts p bs st) =
     size_gaps st + sum_list (map (\<lambda>(a, b). gap_size a b)
                       (filter (\<lambda>(a, b). 0 < sint (gap_size a b)) (zip (p # bs) bs)))"
  "num_overlap (gaps_loop opts p bs st) =
     num_overlap st + of_nat (length (filter (\<lambda>(a, b). sint (gap_size a b) < 0) (zip (p # bs) bs)))"
    apply (rule gaps_loop_count, simp add: gap_pair_def print_line_def Let_def)
   apply (rule gaps_loop_size, simp add: gap_pair_def print_line_def Let_def)
  apply (rule gaps_loop_count, simp add: gap_pair_def print_line_def Let_def)
  done


text \<open>
  Claim C9: the gap totals equal the sums over the four bands: \<open>num_gaps\<close> is the sum of
  the four band counts and \<open>size_gaps\<close> the sum of the four band sizes. This holds of the
  initial values, is kept by the update for every single pair, by the whole loop, and by
  every run of \<^verbatim>\<open>doGaps\<close> that returns.
\<close>

theorem gaps_invariant:
  "gaps_inv init_globals \<and>
   (gaps_inv st \<longrightarrow> gaps_inv (gap_pair opts p b st)) \<and>
   (gaps_inv st \<longrightarrow> gaps_inv (gaps_loop opts p bs st)) \<and>
   (gaps_inv st \<and> doGaps srt opts funcVec st = Inr st' \<longrightarrow> gaps_inv st')"
proof -
  have "gaps_inv init_globals"
    by (simp add: gaps_inv_def init_globals_def)
  moreover have "gaps_inv st \<and> doGaps srt opts funcVec st = Inr st' \<longrightarrow> gaps_inv st'"
    by (auto simp: doGaps_def gaps_loop_inv split: list.splits)
  ultimately show ?thesis
    by (simp add: gap_pair_inv gaps_loop_inv)
qed

theorem gaps_invariant_witness:
  "gaps_inv init_globals \<and>
   gaps_inv (gap_pair default_opts \<lparr>start = 0x100, end_addr = 0x110, insns = []\<rparr>
       \<lparr>start = 0x11A, end_addr = 0x120, insns = []\<rparr> init_globals) \<and>
   gaps_inv (gaps_loop default_opts \<lparr>start = 0x100, end_addr = 0x110, insns = []\<rparr>
       [\<lparr>start = 0x11A, end_addr = 0x120, insns = []\<rparr>,
        \<lparr>start = 0x118, end_addr = 0x200, insns = []\<rparr>,
        \<lparr>start = 0x400, end_addr = 0x410, insns = []\<rparr>] init_globals)"
  using
    gaps_invariant [of init_globals default_opts "\<lparr>start = 0x100, end_addr = 0x110, insns = []\<rparr>"
       "\<lparr>start = 0x11A, end_addr = 0x120, insns = []\<rparr>"]
    gaps_invariant [of init_globals default_opts "\<lparr>start = 0x100, end_addr = 0x110, insns = []\<rparr>" _
      "[\<lparr>start = 0x11A, end_addr = 0x120, insns = []\<rparr>,
        \<lparr>start = 0x118, end_addr = 0x200, insns = []\<rparr>,
        \<lparr>start = 0x400, end_addr = 0x410, insns = []\<rparr>]"]
  by simp

lemma gaps_loop_bands:
  "num_gaps_16 (gaps_loop opts p bs st) = num_gaps_16 st + of_nat (length (filter (\<lambda>(a, b). 0 < sint (gap_size a b) \<and> sint (gap_size a b) < 16) (zip (p # bs) bs)))"
  "size_gaps_16 (gaps_loop opts p bs st) = size_gaps_16 st + sum_list (map (\<lambda>(a, b). gap_size a b) (filter (\<lambda>(a, b). 0 < sint (gap_size a b) \<and> sint (gap_size a b) < 16) (zip (p # bs) bs)))"
  "num_gaps_64 (gaps_loop opts p bs st) = num_gaps_64 st + of_nat (length (filter (\<lambda>(a, b). 16 \<le> sint (gap_size a b) \<and> sint (gap_size a b) < 64) (zip (p # bs) bs)))"
  "size_gaps_64 (gaps_loop opts p bs st) = size_gaps_64 st + sum_list (map (\<lambda>(a, b). gap_size a b) (filter (\<lambda>(a, b). 16 \<le> sint (gap_size a b) \<and> sint (gap_size a b) < 64) (zip (p # bs) bs)))"
  "num_gaps_256 (gaps_loop opts p bs st) = num_gaps_256 st + of_nat (length (filter (\<lambda>(a, b). 64 \<le> sint (gap_size a b) \<and> sint (gap_size a b) < 256) (zip (p # bs) bs)))"
  "size_gaps_256 (gaps_loop opts p bs st) = size_gaps_256 st + sum_list (map (\<lambda>(a, b). gap_size a b) (filter (\<lambda>(a, b). 64 \<le> sint (gap_size a b) \<and> sint (gap_size a b) < 256) (zip (p # bs) bs)))"
  "num_gaps_other (gaps_loop opts p bs st) = num_gaps_other st + of_nat (length (filter (\<lambda>(a, b). 256 \<le> sint (gap_size a b)) (zip (p # bs) bs)))"
  "size_gaps_other (gaps_loop opts p bs st) = size_gaps_other st + sum_list (map (\<lambda>(a, b). gap_size a b) (filter (\<lambda>(a, b). 256 \<le> sint (gap_size a b)) (zip (p # bs) bs)))"
         apply (rule gaps_loop_count, simp add: gap_pair_def print_line_def Let_def)
        apply (rule gaps_loop_size, simp add: gap_pair_def print_line_def Let_def)
       apply (rule gaps_loop_count, simp add: gap_pair_def print_line_def Let_def)
      apply (rule gaps_loop_size, simp add: gap_pair_def print_line_def Let_def)
     apply (rule gaps_loop_count, simp add: gap_pair_def print_line_def Let_def)
    apply (rule gaps_loop_size, simp add: gap_pair_def print_line_def Let_def)
   apply (rule gaps_loop_count, simp add: gap_pair_def print_line_def Let_def)
  apply (rule gaps_loop_size, simp add: gap_pair_def print_line_def Let_def)
  done

lemma gaps_loop_foldl:
  "gaps_loop opts p bs st = foldl (\<lambda>s (a, b). gap_pair opts a b s) st (zip (p # bs) bs)"
  by (induction bs arbitrary: p st) simp_all

text \<open>
  Claim C6. What \<^verbatim>\<open>doGaps\<close> records for one adjacent pair, by the signed size
  \<open>next.start - previous.end\<close> (\<open>gap_size\<close>, a 64-bit difference read as signed): a positive size is one gap, counted and summed in the
  totals and in exactly the band \<open>[0,16)\<close>, \<open>[16,64)\<close>, \<open>[64,256)\<close> or \<open>[256,\<infinity>)\<close> it falls
  in; a negative size is one overlap, counted only; size zero changes nothing.

  A run of \<^verbatim>\<open>doGaps\<close> that returns does this for every adjacent pair of the sorted vector
  of the blocks of all functions, in order: the final state is the fold of the step over
  the adjacent pairs; the totals grow by the number and the sizes of the pairs with
  positive size, every band's count and size by those of the pairs whose size falls in
  the band, and the overlap count by the number of pairs with negative size.

  With a sorting routine that meets the contract of \<^verbatim>\<open>std::sort\<close>, the sorted vector holds
  the blocks of all functions, by ascending start address, and the run returns when there
  is a block.
\<close>

theorem doGaps_adjacent_pairs:
  "gap_size p b = start b - end_addr p \<and>
   ((0 < sint (gap_size p b) \<and> sint (gap_size p b) < 16 \<longrightarrow>
      gap_pair opts p b st =
        (print_line opts (GapLine (start p) (end_addr p) (start b) (gap_size p b)) st)
          \<lparr>num_gaps := num_gaps st + 1, size_gaps := size_gaps st + gap_size p b,
           num_gaps_16 := num_gaps_16 st + 1, size_gaps_16 := size_gaps_16 st + gap_size p b\<rparr>) \<and>
   (16 \<le> sint (gap_size p b) \<and> sint (gap_size p b) < 64 \<longrightarrow>
      gap_pair opts p b st =
        (print_line opts (GapLine (start p) (end_addr p) (start b) (gap_size p b)) st)
          \<lparr>num_gaps := num_gaps st + 1, size_gaps := size_gaps st + gap_size p b,
           num_gaps_64 := num_gaps_64 st + 1, size_gaps_64 := size_gaps_64 st + gap_size p b\<rparr>) \<and>
   (64 \<le> sint (gap_size p b) \<and> sint (gap_size p b) < 256 \<longrightarrow>
      gap_pair opts p b st =
        (print_line opts (GapLine (start p) (end_addr p) (start b) (gap_size p b)) st)
          \<lparr>num_gaps := num_gaps st + 1, size_gaps := size_gaps st + gap_size p b,
           num_gaps_256 := num_gaps_256 st + 1, size_gaps_256 := size_gaps_256 st + gap_size p b\<rparr>) \<and>
   (256 \<le> sint (gap_size p b) \<longrightarrow>
      gap_pair opts p b st =
        (print_line opts (GapLine (start p) (end_addr p) (start b) (gap_size p b)) st)
          \<lparr>num_gaps := num_gaps st + 1, size_gaps := size_gaps st + gap_size p b,
           num_gaps_other := num_gaps_other st + 1,
           size_gaps_other := size_gaps_other st + gap_size p b\<rparr>) \<and>
   (sint (gap_size p b) < 0 \<longrightarrow>
      gap_pair opts p b st =
        (print_line opts (OverlapLine (end_addr p) (start b) (end_addr b)) st)
          \<lparr>num_overlap := num_overlap st + 1\<rparr>) \<and>
   (sint (gap_size p b) = 0 \<longrightarrow> gap_pair opts p b st = st)) \<and>
   (doGaps srt opts funcVec st = Inr st' \<longrightarrow>
      st' = foldl (\<lambda>s (a, b). gap_pair opts a b s) st
              (adjacent (srt (concat (map blocks funcVec)))) \<and>
      num_gaps st' = num_gaps st +
        of_nat (length (filter (\<lambda>(a, b). 0 < sint (gap_size a b))
                  (adjacent (srt (concat (map blocks funcVec)))))) \<and>
      size_gaps st' = size_gaps st +
        sum_list (map (\<lambda>(a, b). gap_size a b)
          (filter (\<lambda>(a, b). 0 < sint (gap_size a b))
             (adjacent (srt (concat (map blocks funcVec)))))) \<and>
      num_gaps_16 st' = num_gaps_16 st +
        of_nat (length (filter (\<lambda>(a, b). 0 < sint (gap_size a b) \<and> sint (gap_size a b) < 16)
                  (adjacent (srt (concat (map blocks funcVec)))))) \<and>
      size_gaps_16 st' = size_gaps_16 st +
        sum_list (map (\<lambda>(a, b). gap_size a b)
          (filter (\<lambda>(a, b). 0 < sint (gap_size a b) \<and> sint (gap_size a b) < 16)
             (adjacent (srt (concat (map blocks funcVec)))))) \<and>
      num_gaps_64 st' = num_gaps_64 st +
        of_nat (length (filter (\<lambda>(a, b). 16 \<le> sint (gap_size a b) \<and> sint (gap_size a b) < 64)
                  (adjacent (srt (concat (map blocks funcVec)))))) \<and>
      size_gaps_64 st' = size_gaps_64 st +
        sum_list (map (\<lambda>(a, b). gap_size a b)
          (filter (\<lambda>(a, b). 16 \<le> sint (gap_size a b) \<and> sint (gap_size a b) < 64)
             (adjacent (srt (concat (map blocks funcVec)))))) \<and>
      num_gaps_256 st' = num_gaps_256 st +
        of_nat (length (filter (\<lambda>(a, b). 64 \<le> sint (gap_size a b) \<and> sint (gap_size a b) < 256)
                  (adjacent (srt (concat (map blocks funcVec)))))) \<and>
      size_gaps_256 st' = size_gaps_256 st +
        sum_list (map (\<lambda>(a, b). gap_size a b)
          (filter (\<lambda>(a, b). 64 \<le> sint (gap_size a b) \<and> sint (gap_size a b) < 256)
             (adjacent (srt (concat (map blocks funcVec)))))) \<and>
      num_gaps_other st' = num_gaps_other st +
        of_nat (length (filter (\<lambda>(a, b). 256 \<le> sint (gap_size a b))
                  (adjacent (srt (concat (map blocks funcVec)))))) \<and>
      size_gaps_other st' = size_gaps_other st +
        sum_list (map (\<lambda>(a, b). gap_size a b)
          (filter (\<lambda>(a, b). 256 \<le> sint (gap_size a b))
             (adjacent (srt (concat (map blocks funcVec)))))) \<and>
      num_overlap st' = num_overlap st +
        of_nat (length (filter (\<lambda>(a, b). sint (gap_size a b) < 0)
                  (adjacent (srt (concat (map blocks funcVec))))))) \<and>
   (std_sort_ok BlockLessThan srt \<longrightarrow>
      mset (srt (concat (map blocks funcVec))) = mset (concat (map blocks funcVec)) \<and>
      sorted_wrt (\<lambda>a b. start a \<le> start b) (srt (concat (map blocks funcVec))) \<and>
      (concat (map blocks funcVec) \<noteq> [] \<longrightarrow> (\<exists>st'. doGaps srt opts funcVec st = Inr st')))"
proof -
  have run: "doGaps srt opts funcVec st = Inr st' \<longrightarrow>
      st' = foldl (\<lambda>s (a, b). gap_pair opts a b s) st
              (adjacent (srt (concat (map blocks funcVec)))) \<and>
      num_gaps st' = num_gaps st +
        of_nat (length (filter (\<lambda>(a, b). 0 < sint (gap_size a b))
                  (adjacent (srt (concat (map blocks funcVec)))))) \<and>
      size_gaps st' = size_gaps st +
        sum_list (map (\<lambda>(a, b). gap_size a b)
          (filter (\<lambda>(a, b). 0 < sint (gap_size a b))
             (adjacent (srt (concat (map blocks funcVec)))))) \<and>
      num_gaps_16 st' = num_gaps_16 st +
        of_nat (length (filter (\<lambda>(a, b). 0 < sint (gap_size a b) \<and> sint (gap_size a b) < 16)
                  (adjacent (srt (concat (map blocks funcVec)))))) \<and>
      size_gaps_16 st' = size_gaps_16 st +
        sum_list (map (\<lambda>(a, b). gap_size a b)
          (filter (\<lambda>(a, b). 0 < sint (gap_size a b) \<and> sint (gap_size a b) < 16)
             (adjacent (srt (concat (map blocks funcVec)))))) \<and>
      num_gaps_64 st' = num_gaps_64 st +
        of_nat (length (filter (\<lambda>(a, b). 16 \<le> sint (gap_size a b) \<and> sint (gap_size a b) < 64)
                  (adjacent (srt (concat (map blocks funcVec)))))) \<and>
      size_gaps_64 st' = size_gaps_64 st +
        sum_list (map (\<lambda>(a, b). gap_size a b)
          (filter (\<lambda>(a, b). 16 \<le> sint (gap_size a b) \<and> sint (gap_size a b) < 64)
             (adjacent (srt (concat (map blocks funcVec)))))) \<and>
      num_gaps_256 st' = num_gaps_256 st +
        of_nat (length (filter (\<lambda>(a, b). 64 \<le> sint (gap_size a b) \<and> sint (gap_size a b) < 256)
                  (adjacent (srt (concat (map blocks funcVec)))))) \<and>
      size_gaps_256 st' = size_gaps_256 st +
        sum_list (map (\<lambda>(a, b). gap_size a b)
          (filter (\<lambda>(a, b). 64 \<le> sint (gap_size a b) \<and> sint (gap_size a b) < 256)
             (adjacent (srt (concat (map blocks funcVec)))))) \<and>
      num_gaps_other st' = num_gaps_other st +
        of_nat (length (filter (\<lambda>(a, b). 256 \<le> sint (gap_size a b))
                  (adjacent (srt (concat (map blocks funcVec)))))) \<and>
      size_gaps_other st' = size_gaps_other st +
        sum_list (map (\<lambda>(a, b). gap_size a b)
          (filter (\<lambda>(a, b). 256 \<le> sint (gap_size a b))
             (adjacent (srt (concat (map blocks funcVec)))))) \<and>
      num_overlap st' = num_overlap st +
        of_nat (length (filter (\<lambda>(a, b). sint (gap_size a b) < 0)
                  (adjacent (srt (concat (map blocks funcVec))))))"
  proof
    assume r: "doGaps srt opts funcVec st = Inr st'"
    then obtain q qs where q: "srt (concat (map blocks funcVec)) = q # qs"
      by (cases "srt (concat (map blocks funcVec))") (simp_all add: doGaps_def all_blocks_def)
    with r have st': "st' = gaps_loop opts q qs st"
      by (simp add: doGaps_def all_blocks_def)
    have adj: "adjacent (srt (concat (map blocks funcVec))) = zip (q # qs) qs"
      by (simp add: q adjacent_def)
    show "st' = foldl (\<lambda>s (a, b). gap_pair opts a b s) st
              (adjacent (srt (concat (map blocks funcVec)))) \<and>
      num_gaps st' = num_gaps st +
        of_nat (length (filter (\<lambda>(a, b). 0 < sint (gap_size a b))
                  (adjacent (srt (concat (map blocks funcVec)))))) \<and>
      size_gaps st' = size_gaps st +
        sum_list (map (\<lambda>(a, b). gap_size a b)
          (filter (\<lambda>(a, b). 0 < sint (gap_size a b))
             (adjacent (srt (concat (map blocks funcVec)))))) \<and>
      num_gaps_16 st' = num_gaps_16 st +
        of_nat (length (filter (\<lambda>(a, b). 0 < sint (gap_size a b) \<and> sint (gap_size a b) < 16)
                  (adjacent (srt (concat (map blocks funcVec)))))) \<and>
      size_gaps_16 st' = size_gaps_16 st +
        sum_list (map (\<lambda>(a, b). gap_size a b)
          (filter (\<lambda>(a, b). 0 < sint (gap_size a b) \<and> sint (gap_size a b) < 16)
             (adjacent (srt (concat (map blocks funcVec)))))) \<and>
      num_gaps_64 st' = num_gaps_64 st +
        of_nat (length (filter (\<lambda>(a, b). 16 \<le> sint (gap_size a b) \<and> sint (gap_size a b) < 64)
                  (adjacent (srt (concat (map blocks funcVec)))))) \<and>
      size_gaps_64 st' = size_gaps_64 st +
        sum_list (map (\<lambda>(a, b). gap_size a b)
          (filter (\<lambda>(a, b). 16 \<le> sint (gap_size a b) \<and> sint (gap_size a b) < 64)
             (adjacent (srt (concat (map blocks funcVec)))))) \<and>
      num_gaps_256 st' = num_gaps_256 st +
        of_nat (length (filter (\<lambda>(a, b). 64 \<le> sint (gap_size a b) \<and> sint (gap_size a b) < 256)
                  (adjacent (srt (concat (map blocks funcVec)))))) \<and>
      size_gaps_256 st' = size_gaps_256 st +
        sum_list (map (\<lambda>(a, b). gap_size a b)
          (filter (\<lambda>(a, b). 64 \<le> sint (gap_size a b) \<and> sint (gap_size a b) < 256)
             (adjacent (srt (concat (map blocks funcVec)))))) \<and>
      num_gaps_other st' = num_gaps_other st +
        of_nat (length (filter (\<lambda>(a, b). 256 \<le> sint (gap_size a b))
                  (adjacent (srt (concat (map blocks funcVec)))))) \<and>
      size_gaps_other st' = size_gaps_other st +
        sum_list (map (\<lambda>(a, b). gap_size a b)
          (filter (\<lambda>(a, b). 256 \<le> sint (gap_size a b))
             (adjacent (srt (concat (map blocks funcVec)))))) \<and>
      num_overlap st' = num_overlap st +
        of_nat (length (filter (\<lambda>(a, b). sint (gap_size a b) < 0)
                  (adjacent (srt (concat (map blocks funcVec))))))"
      unfolding adj st'
      by (simp only: gaps_loop_totals gaps_loop_bands gaps_loop_foldl [symmetric] simp_thms)
  qed
  have srt: "std_sort_ok BlockLessThan srt \<longrightarrow>
      mset (srt (concat (map blocks funcVec))) = mset (concat (map blocks funcVec)) \<and>
      sorted_wrt (\<lambda>a b. start a \<le> start b) (srt (concat (map blocks funcVec))) \<and>
      (concat (map blocks funcVec) \<noteq> [] \<longrightarrow> (\<exists>st'. doGaps srt opts funcVec st = Inr st'))"
  proof (intro impI conjI)
    assume ok: "std_sort_ok BlockLessThan srt"
    then show m: "mset (srt (concat (map blocks funcVec))) = mset (concat (map blocks funcVec))"
      by (simp add: std_sort_ok_def)
    have "(\<lambda>a b. \<not> BlockLessThan b a) = (\<lambda>a b. start a \<le> start b)"
      by (auto simp: BlockLessThan_def fun_eq_iff)
    with ok show "sorted_wrt (\<lambda>a b. start a \<le> start b) (srt (concat (map blocks funcVec)))"
      unfolding std_sort_ok_def by metis
    assume "concat (map blocks funcVec) \<noteq> []"
    with m have "srt (concat (map blocks funcVec)) \<noteq> []"
      by (metis mset_zero_iff)
    then show "\<exists>st'. doGaps srt opts funcVec st = Inr st'"
      by (cases "srt (concat (map blocks funcVec))") (simp_all add: doGaps_def all_blocks_def)
  qed
  have gs: "gap_size p b = start b - end_addr p" by (simp add: gap_size_def)
  from gs gap_pair_cases [of p b opts st] run srt show ?thesis by blast
qed



theorem doGaps_adjacent_pairs_witness:
  "num_gaps_16 (gap_pair default_opts \<lparr>start = 0x100, end_addr = 0x110, insns = []\<rparr>
       \<lparr>start = 0x11A, end_addr = 0x120, insns = []\<rparr> init_globals) = 1 \<and>
   size_gaps_16 (gap_pair default_opts \<lparr>start = 0x100, end_addr = 0x110, insns = []\<rparr>
       \<lparr>start = 0x11A, end_addr = 0x120, insns = []\<rparr> init_globals) = 10 \<and>
   num_gaps_64 (gap_pair default_opts \<lparr>start = 0x100, end_addr = 0x110, insns = []\<rparr>
       \<lparr>start = 0x120, end_addr = 0x128, insns = []\<rparr> init_globals) = 1 \<and>
   num_gaps_16 (gap_pair default_opts \<lparr>start = 0x100, end_addr = 0x110, insns = []\<rparr>
       \<lparr>start = 0x120, end_addr = 0x128, insns = []\<rparr> init_globals) = 0 \<and>
   gap_pair default_opts \<lparr>start = 0x100, end_addr = 0x110, insns = []\<rparr>
       \<lparr>start = 0x110, end_addr = 0x118, insns = []\<rparr> init_globals = init_globals \<and>
   (\<exists>st'. doGaps (isort_by BlockLessThan) default_opts
          [\<lparr>addr = 0x100, name = ''f'',
            blocks = [\<lparr>start = 0x108, end_addr = 0x118, insns = []\<rparr>,
                      \<lparr>start = 0x100, end_addr = 0x110, insns = []\<rparr>]\<rparr>] init_globals = Inr st' \<and>
         num_overlap st' = 1 \<and> num_gaps st' = 0) \<and>
   (\<exists>st'. doGaps (isort_by BlockLessThan) default_opts
          [\<lparr>addr = 0x100, name = ''f'', blocks = [\<lparr>start = 0x130, end_addr = 0x140, insns = []\<rparr>, \<lparr>start = 0x100, end_addr = 0x110, insns = []\<rparr>, \<lparr>start = 0x2F0, end_addr = 0x300, insns = []\<rparr>, \<lparr>start = 0x150, end_addr = 0x160, insns = []\<rparr>]\<rparr>,
           \<lparr>addr = 0x11A, name = ''g'', blocks = [\<lparr>start = 0x260, end_addr = 0x270, insns = []\<rparr>, \<lparr>start = 0x11A, end_addr = 0x120, insns = []\<rparr>, \<lparr>start = 0x340, end_addr = 0x350, insns = []\<rparr>, \<lparr>start = 0x138, end_addr = 0x150, insns = []\<rparr>]\<rparr>] init_globals = Inr st' \<and>
         num_gaps st' = 5 \<and> size_gaps st' = 474 \<and>
         num_gaps_16 st' = 1 \<and> size_gaps_16 st' = 10 \<and>
         num_gaps_64 st' = 1 \<and> size_gaps_64 st' = 16 \<and>
         num_gaps_256 st' = 2 \<and> size_gaps_256 st' = 192 \<and>
         num_gaps_other st' = 1 \<and> size_gaps_other st' = 256 \<and>
         num_overlap st' = 1 \<and>
         out st' = [GapLine 0x100 0x110 0x11A 10, GapLine 0x11A 0x120 0x130 16,
                    OverlapLine 0x140 0x138 0x150, GapLine 0x150 0x160 0x260 256,
                    GapLine 0x260 0x270 0x2F0 128, GapLine 0x2F0 0x300 0x340 64]) \<and>
   std_sort_ok BlockLessThan (isort_by BlockLessThan) \<and>
   mset (isort_by BlockLessThan (concat (map blocks
          [\<lparr>addr = 0x100, name = ''f'', blocks = [\<lparr>start = 0x130, end_addr = 0x140, insns = []\<rparr>, \<lparr>start = 0x100, end_addr = 0x110, insns = []\<rparr>, \<lparr>start = 0x2F0, end_addr = 0x300, insns = []\<rparr>, \<lparr>start = 0x150, end_addr = 0x160, insns = []\<rparr>]\<rparr>,
           \<lparr>addr = 0x11A, name = ''g'', blocks = [\<lparr>start = 0x260, end_addr = 0x270, insns = []\<rparr>, \<lparr>start = 0x11A, end_addr = 0x120, insns = []\<rparr>, \<lparr>start = 0x340, end_addr = 0x350, insns = []\<rparr>, \<lparr>start = 0x138, end_addr = 0x150, insns = []\<rparr>]\<rparr>]))) =
     mset (concat (map blocks
          [\<lparr>addr = 0x100, name = ''f'', blocks = [\<lparr>start = 0x130, end_addr = 0x140, insns = []\<rparr>, \<lparr>start = 0x100, end_addr = 0x110, insns = []\<rparr>, \<lparr>start = 0x2F0, end_addr = 0x300, insns = []\<rparr>, \<lparr>start = 0x150, end_addr = 0x160, insns = []\<rparr>]\<rparr>,
           \<lparr>addr = 0x11A, name = ''g'', blocks = [\<lparr>start = 0x260, end_addr = 0x270, insns = []\<rparr>, \<lparr>start = 0x11A, end_addr = 0x120, insns = []\<rparr>, \<lparr>start = 0x340, end_addr = 0x350, insns = []\<rparr>, \<lparr>start = 0x138, end_addr = 0x150, insns = []\<rparr>]\<rparr>]))"
proof -
  let ?A = "\<lparr>start = 0x100, end_addr = 0x110, insns = []\<rparr> :: Block"
  let ?B = "\<lparr>start = 0x108, end_addr = 0x118, insns = []\<rparr> :: Block"
  let ?fv = "[\<lparr>addr = 0x100, name = ''f'', blocks = [?B, ?A]\<rparr>]"
  let ?st = "gaps_loop default_opts ?A [?B] init_globals"
  let ?gv = "[\<lparr>addr = 0x100, name = ''f'', blocks = [\<lparr>start = 0x130, end_addr = 0x140, insns = []\<rparr>, \<lparr>start = 0x100, end_addr = 0x110, insns = []\<rparr>, \<lparr>start = 0x2F0, end_addr = 0x300, insns = []\<rparr>, \<lparr>start = 0x150, end_addr = 0x160, insns = []\<rparr>]\<rparr>,
           \<lparr>addr = 0x11A, name = ''g'', blocks = [\<lparr>start = 0x260, end_addr = 0x270, insns = []\<rparr>, \<lparr>start = 0x11A, end_addr = 0x120, insns = []\<rparr>, \<lparr>start = 0x340, end_addr = 0x350, insns = []\<rparr>, \<lparr>start = 0x138, end_addr = 0x150, insns = []\<rparr>]\<rparr>]"
  let ?sorted = "[\<lparr>start = 0x100, end_addr = 0x110, insns = []\<rparr>, \<lparr>start = 0x11A, end_addr = 0x120, insns = []\<rparr>, \<lparr>start = 0x130, end_addr = 0x140, insns = []\<rparr>, \<lparr>start = 0x138, end_addr = 0x150, insns = []\<rparr>, \<lparr>start = 0x150, end_addr = 0x160, insns = []\<rparr>, \<lparr>start = 0x260, end_addr = 0x270, insns = []\<rparr>, \<lparr>start = 0x2F0, end_addr = 0x300, insns = []\<rparr>, \<lparr>start = 0x340, end_addr = 0x350, insns = []\<rparr>] :: Block list"
  let ?st2 = "gaps_loop default_opts \<lparr>start = 0x100, end_addr = 0x110, insns = []\<rparr> [\<lparr>start = 0x11A, end_addr = 0x120, insns = []\<rparr>, \<lparr>start = 0x130, end_addr = 0x140, insns = []\<rparr>, \<lparr>start = 0x138, end_addr = 0x150, insns = []\<rparr>, \<lparr>start = 0x150, end_addr = 0x160, insns = []\<rparr>, \<lparr>start = 0x260, end_addr = 0x270, insns = []\<rparr>, \<lparr>start = 0x2F0, end_addr = 0x300, insns = []\<rparr>, \<lparr>start = 0x340, end_addr = 0x350, insns = []\<rparr>] init_globals"
  have pairs:
    "num_gaps_16 (gap_pair default_opts ?A
       \<lparr>start = 0x11A, end_addr = 0x120, insns = []\<rparr> init_globals) = 1 \<and>
     size_gaps_16 (gap_pair default_opts ?A
       \<lparr>start = 0x11A, end_addr = 0x120, insns = []\<rparr> init_globals) = 10 \<and>
     num_gaps_64 (gap_pair default_opts ?A
       \<lparr>start = 0x120, end_addr = 0x128, insns = []\<rparr> init_globals) = 1 \<and>
     num_gaps_16 (gap_pair default_opts ?A
       \<lparr>start = 0x120, end_addr = 0x128, insns = []\<rparr> init_globals) = 0 \<and>
     gap_pair default_opts ?A
       \<lparr>start = 0x110, end_addr = 0x118, insns = []\<rparr> init_globals = init_globals"
    using
      doGaps_adjacent_pairs [where p = ?A and b = "\<lparr>start = 0x11A, end_addr = 0x120, insns = []\<rparr>"
        and opts = default_opts and st = init_globals]
      doGaps_adjacent_pairs [where p = ?A and b = "\<lparr>start = 0x120, end_addr = 0x128, insns = []\<rparr>"
        and opts = default_opts and st = init_globals]
      doGaps_adjacent_pairs [where p = ?A and b = "\<lparr>start = 0x110, end_addr = 0x118, insns = []\<rparr>"
        and opts = default_opts and st = init_globals]
    by (simp add: gap_size_def print_line_def default_opts_def init_globals_def)
  have srt: "isort_by BlockLessThan (concat (map blocks ?fv)) = [?A, ?B]"
    by (simp add: BlockLessThan_def)
  then have run: "doGaps (isort_by BlockLessThan) default_opts ?fv init_globals = Inr ?st"
    by (simp add: doGaps_def all_blocks_def)
  from doGaps_adjacent_pairs [where p = ?A and b = ?B and opts = default_opts
         and st = init_globals and srt = "isort_by BlockLessThan" and funcVec = ?fv and st' = ?st] run
  have "num_overlap ?st = 1 \<and> num_gaps ?st = 0"
    by (simp add: srt adjacent_def gap_size_def init_globals_def print_line_def default_opts_def)
  with run have one: "\<exists>st'. doGaps (isort_by BlockLessThan) default_opts ?fv init_globals = Inr st' \<and>
         num_overlap st' = 1 \<and> num_gaps st' = 0"
    by blast
  have srt2: "isort_by BlockLessThan (concat (map blocks ?gv)) = ?sorted"
    by (simp add: BlockLessThan_def)
  then have run2: "doGaps (isort_by BlockLessThan) default_opts ?gv init_globals = Inr ?st2"
    by (simp add: doGaps_def all_blocks_def)
  have out2: "out ?st2 = [GapLine 0x100 0x110 0x11A 10, GapLine 0x11A 0x120 0x130 16,
                    OverlapLine 0x140 0x138 0x150, GapLine 0x150 0x160 0x260 256,
                    GapLine 0x260 0x270 0x2F0 128, GapLine 0x2F0 0x300 0x340 64]"
    by (simp add: gap_pair_def gap_size_def init_globals_def print_line_def default_opts_def)
  note r = doGaps_adjacent_pairs [where opts = default_opts
         and st = init_globals and srt = "isort_by BlockLessThan" and funcVec = ?gv and st' = ?st2,
         THEN conjunct2, THEN conjunct2, THEN conjunct1, THEN mp, OF run2, THEN conjunct2]
  from r have "num_gaps ?st2 = 5 \<and> size_gaps ?st2 = 474 \<and>
         num_gaps_16 ?st2 = 1 \<and> size_gaps_16 ?st2 = 10 \<and>
         num_gaps_64 ?st2 = 1 \<and> size_gaps_64 ?st2 = 16 \<and>
         num_gaps_256 ?st2 = 2 \<and> size_gaps_256 ?st2 = 192 \<and>
         num_gaps_other ?st2 = 1 \<and> size_gaps_other ?st2 = 256 \<and>
         num_overlap ?st2 = 1"
    by (simp add: BlockLessThan_def adjacent_def gap_size_def init_globals_def)
  with run2 out2 have two: "\<exists>st'. doGaps (isort_by BlockLessThan) default_opts ?gv init_globals = Inr st' \<and>
         num_gaps st' = 5 \<and> size_gaps st' = 474 \<and>
         num_gaps_16 st' = 1 \<and> size_gaps_16 st' = 10 \<and>
         num_gaps_64 st' = 1 \<and> size_gaps_64 st' = 16 \<and>
         num_gaps_256 st' = 2 \<and> size_gaps_256 st' = 192 \<and>
         num_gaps_other st' = 1 \<and> size_gaps_other st' = 256 \<and>
         num_overlap st' = 1 \<and>
         out st' = [GapLine 0x100 0x110 0x11A 10, GapLine 0x11A 0x120 0x130 16,
                    OverlapLine 0x140 0x138 0x150, GapLine 0x150 0x160 0x260 256,
                    GapLine 0x260 0x270 0x2F0 128, GapLine 0x2F0 0x300 0x340 64]"
    by blast
  note m = doGaps_adjacent_pairs [where opts = default_opts
         and st = init_globals and srt = "isort_by BlockLessThan" and funcVec = ?gv,
         THEN conjunct2, THEN conjunct2, THEN conjunct2, THEN mp, OF isort_Block_ok,
         THEN conjunct1]
  from pairs one two isort_Block_ok m show ?thesis by blast
qed

text \<open>
  Claim C1: \<^verbatim>\<open>doGaps\<close> on no block and on one block. With exactly one block the loop body
  never runs and the state is returned unchanged. With no block the unguarded read of
  \<^verbatim>\<open>blockVec[0]\<close> is outside the (empty) vector.
\<close>

theorem doGaps_empty_or_single:
  "std_sort_ok BlockLessThan srt \<Longrightarrow>
   (all_blocks funcVec = [] \<longrightarrow> doGaps srt opts funcVec st = Inl OutOfBounds) \<and>
   (all_blocks funcVec = [b] \<longrightarrow> doGaps srt opts funcVec st = Inr st)"
  by (simp add: doGaps_def std_sort_ok_Nil std_sort_ok_single)

theorem doGaps_empty_or_single_witness:
  "doGaps (isort_by BlockLessThan) default_opts [] init_globals = Inl OutOfBounds \<and>
   doGaps (isort_by BlockLessThan) default_opts [\<lparr>addr = 0x100, name = ''f'', blocks = []\<rparr>]
     init_globals = Inl OutOfBounds \<and>
   doGaps (isort_by BlockLessThan) default_opts
     [\<lparr>addr = 0x100, name = ''f'', blocks = [\<lparr>start = 0x100, end_addr = 0x110, insns = []\<rparr>]\<rparr>]
     init_globals = Inr init_globals"
  using
    doGaps_empty_or_single [where funcVec = "[]" and opts = default_opts and st = init_globals,
      OF isort_Block_ok]
    doGaps_empty_or_single [where funcVec = "[\<lparr>addr = 0x100, name = ''f'', blocks = []\<rparr>]"
      and opts = default_opts and st = init_globals, OF isort_Block_ok]
    doGaps_empty_or_single [where
      funcVec = "[\<lparr>addr = 0x100, name = ''f'', blocks = [\<lparr>start = 0x100, end_addr = 0x110, insns = []\<rparr>]\<rparr>]"
      and b = "\<lparr>start = 0x100, end_addr = 0x110, insns = []\<rparr>"
      and opts = default_opts and st = init_globals, OF isort_Block_ok]
  by (simp add: all_blocks_def)

section \<open>cfg-parse: properties of getOptions\<close>

lemma getOptions_loop_toggle:
  assumes n: "n < length argv"
  shows
    "argv ! n = ''+S'' \<Longrightarrow>
      getOptions_loop atoi argv n opts =
      getOptions_loop atoi argv (n + 1)
        (opts\<lparr>show_stmts := True, show_inline := True, show_linemap := True\<rparr>)"
    "argv ! n = ''-S'' \<Longrightarrow>
      getOptions_loop atoi argv n opts =
      getOptions_loop atoi argv (n + 1)
        (opts\<lparr>show_stmts := False, show_inline := False, show_linemap := False\<rparr>)"
    "argv ! n = ''+I'' \<Longrightarrow>
      getOptions_loop atoi argv n opts =
      getOptions_loop atoi argv (n + 1) (opts\<lparr>show_inline := True, show_stmts := True\<rparr>)"
    "argv ! n = ''+L'' \<Longrightarrow>
      getOptions_loop atoi argv n opts =
      getOptions_loop atoi argv (n + 1) (opts\<lparr>show_linemap := True, show_stmts := True\<rparr>)"
    "argv ! n = ''-I'' \<Longrightarrow>
      getOptions_loop atoi argv n opts =
      getOptions_loop atoi argv (n + 1) (opts\<lparr>show_inline := False\<rparr>)"
    "argv ! n = ''-L'' \<Longrightarrow>
      getOptions_loop atoi argv n opts =
      getOptions_loop atoi argv (n + 1) (opts\<lparr>show_linemap := False\<rparr>)"
  using n by (subst getOptions_loop.simps, simp)+

text \<open>
  Claim C10: in the option loop of \<^verbatim>\<open>cfg-parse\<close>, \<^verbatim>\<open>+S\<close> sets \<open>show_stmts\<close>,
  \<open>show_inline\<close> and \<open>show_linemap\<close> to true and \<^verbatim>\<open>-S\<close> sets the three to false, whatever
  the options were before; \<^verbatim>\<open>+I\<close> sets \<open>show_inline\<close> and \<open>show_stmts\<close> and leaves
  \<open>show_linemap\<close> as it was, \<^verbatim>\<open>+L\<close> sets \<open>show_linemap\<close> and \<open>show_stmts\<close> and leaves
  \<open>show_inline\<close> as it was. Hence \<^verbatim>\<open>+S\<close> right after \<^verbatim>\<open>-I\<close> or \<^verbatim>\<open>-L\<close> leaves all three
  layers enabled. Every other field of the options is unchanged in each case, and the loop
  goes on with the next argument.
\<close>

theorem getOptions_stmt_toggles:
  "n < length argv \<Longrightarrow>
   (argv ! n = ''+S'' \<longrightarrow>
      getOptions_loop atoi argv n opts =
      getOptions_loop atoi argv (n + 1)
        (opts\<lparr>show_stmts := True, show_inline := True, show_linemap := True\<rparr>)) \<and>
   (argv ! n = ''-S'' \<longrightarrow>
      getOptions_loop atoi argv n opts =
      getOptions_loop atoi argv (n + 1)
        (opts\<lparr>show_stmts := False, show_inline := False, show_linemap := False\<rparr>)) \<and>
   (argv ! n = ''+I'' \<longrightarrow>
      getOptions_loop atoi argv n opts =
      getOptions_loop atoi argv (n + 1) (opts\<lparr>show_inline := True, show_stmts := True\<rparr>)) \<and>
   (argv ! n = ''+L'' \<longrightarrow>
      getOptions_loop atoi argv n opts =
      getOptions_loop atoi argv (n + 1) (opts\<lparr>show_linemap := True, show_stmts := True\<rparr>)) \<and>
   (argv ! n = ''-I'' \<longrightarrow>
      getOptions_loop atoi argv n opts =
      getOptions_loop atoi argv (n + 1) (opts\<lparr>show_inline := False\<rparr>)) \<and>
   (argv ! n = ''-L'' \<longrightarrow>
      getOptions_loop atoi argv n opts =
      getOptions_loop atoi argv (n + 1) (opts\<lparr>show_linemap := False\<rparr>)) \<and>
   (n + 1 < length argv \<and> (argv ! n = ''-I'' \<or> argv ! n = ''-L'') \<and> argv ! (n + 1) = ''+S'' \<longrightarrow>
      getOptions_loop atoi argv n opts =
      getOptions_loop atoi argv (n + 2)
        (opts\<lparr>show_stmts := True, show_inline := True, show_linemap := True\<rparr>))"
proof -
  assume n: "n < length argv"
  have "getOptions_loop atoi argv n opts =
      getOptions_loop atoi argv (n + 2)
        (opts\<lparr>show_stmts := True, show_inline := True, show_linemap := True\<rparr>)"
    if "n + 1 < length argv" "argv ! n = ''-I'' \<or> argv ! n = ''-L''" "argv ! (n + 1) = ''+S''"
    using that(2)
  proof
    assume "argv ! n = ''-I''"
    then show ?thesis
      using getOptions_loop_toggle(5) [OF n, of atoi opts]
        getOptions_loop_toggle(1) [OF that(1) that(3), of atoi "opts\<lparr>show_inline := False\<rparr>"]
      by simp
  next
    assume "argv ! n = ''-L''"
    then show ?thesis
      using getOptions_loop_toggle(6) [OF n, of atoi opts]
        getOptions_loop_toggle(1) [OF that(1) that(3), of atoi "opts\<lparr>show_linemap := False\<rparr>"]
      by simp
  qed
  with getOptions_loop_toggle [OF n, of atoi opts] show ?thesis
    by blast
qed

theorem getOptions_stmt_toggles_witness:
  "getOptions_cfg (\<lambda>s. 0) (\<lambda>f. True) [''cfg-parse'', ''-I'', ''+S'', ''a.out''] default_opts_cfg =
     Inr (default_opts_cfg\<lparr>cfg_filename := Some ''a.out''\<rparr>) \<and>
   getOptions_cfg (\<lambda>s. 0) (\<lambda>f. True) [''cfg-parse'', ''-S'', ''+I'', ''a.out''] default_opts_cfg =
     Inr (default_opts_cfg\<lparr>cfg_filename := Some ''a.out'', show_linemap := False\<rparr>) \<and>
   getOptions_cfg (\<lambda>s. 0) (\<lambda>f. True) [''cfg-parse'', ''-S'', ''+L'', ''a.out''] default_opts_cfg =
     Inr (default_opts_cfg\<lparr>cfg_filename := Some ''a.out'', show_inline := False\<rparr>)"
proof -
  let ?at = "\<lambda>s :: string. 0 :: 32 word"
  let ?off = "default_opts_cfg\<lparr>show_stmts := False, show_inline := False, show_linemap := False\<rparr>"
  have stop: "\<And>a b opts. getOptions_loop ?at [''cfg-parse'', a, b, ''a.out''] (Suc (Suc (Suc 0))) opts =
                Inr (3, opts)"
    by (subst getOptions_loop.simps) simp
  have "getOptions_loop ?at [''cfg-parse'', ''-I'', ''+S'', ''a.out''] (Suc 0) default_opts_cfg =
        getOptions_loop ?at [''cfg-parse'', ''-I'', ''+S'', ''a.out''] (Suc (Suc (Suc 0)))
          (default_opts_cfg\<lparr>show_stmts := True, show_inline := True, show_linemap := True\<rparr>)"
    using getOptions_stmt_toggles [where n = "Suc 0"
            and argv = "[''cfg-parse'', ''-I'', ''+S'', ''a.out'']"
            and atoi = ?at and opts = default_opts_cfg]
    by auto
  also have "\<dots> = Inr (3, default_opts_cfg)"
    by (simp only: stop) (simp add: default_opts_cfg_def)
  finally have a: "getOptions_loop ?at [''cfg-parse'', ''-I'', ''+S'', ''a.out''] (Suc 0)
                     default_opts_cfg = Inr (3, default_opts_cfg)" .
  have "getOptions_loop ?at [''cfg-parse'', ''-S'', ''+I'', ''a.out''] (Suc 0) default_opts_cfg =
        getOptions_loop ?at [''cfg-parse'', ''-S'', ''+I'', ''a.out''] (Suc (Suc 0)) ?off"
    using getOptions_stmt_toggles [where n = "Suc 0"
            and argv = "[''cfg-parse'', ''-S'', ''+I'', ''a.out'']"
            and atoi = ?at and opts = default_opts_cfg]
    by simp
  also have "\<dots> = getOptions_loop ?at [''cfg-parse'', ''-S'', ''+I'', ''a.out''] (Suc (Suc (Suc 0)))
                     (?off\<lparr>show_inline := True, show_stmts := True\<rparr>)"
    using getOptions_stmt_toggles [where n = "Suc (Suc 0)"
            and argv = "[''cfg-parse'', ''-S'', ''+I'', ''a.out'']"
            and atoi = ?at and opts = ?off]
    by simp
  also have "\<dots> = Inr (3, default_opts_cfg\<lparr>show_linemap := False\<rparr>)"
    by (simp only: stop) (simp add: default_opts_cfg_def)
  finally have b: "getOptions_loop ?at [''cfg-parse'', ''-S'', ''+I'', ''a.out''] (Suc 0)
                     default_opts_cfg = Inr (3, default_opts_cfg\<lparr>show_linemap := False\<rparr>)" .
  have "getOptions_loop ?at [''cfg-parse'', ''-S'', ''+L'', ''a.out''] (Suc 0) default_opts_cfg =
        getOptions_loop ?at [''cfg-parse'', ''-S'', ''+L'', ''a.out''] (Suc (Suc 0)) ?off"
    using getOptions_stmt_toggles [where n = "Suc 0"
            and argv = "[''cfg-parse'', ''-S'', ''+L'', ''a.out'']"
            and atoi = ?at and opts = default_opts_cfg]
    by simp
  also have "\<dots> = getOptions_loop ?at [''cfg-parse'', ''-S'', ''+L'', ''a.out''] (Suc (Suc (Suc 0)))
                     (?off\<lparr>show_linemap := True, show_stmts := True\<rparr>)"
    using getOptions_stmt_toggles [where n = "Suc (Suc 0)"
            and argv = "[''cfg-parse'', ''-S'', ''+L'', ''a.out'']"
            and atoi = ?at and opts = ?off]
    by simp
  also have "\<dots> = Inr (3, default_opts_cfg\<lparr>show_inline := False\<rparr>)"
    by (simp only: stop) (simp add: default_opts_cfg_def)
  finally have c: "getOptions_loop ?at [''cfg-parse'', ''-S'', ''+L'', ''a.out''] (Suc 0)
                     default_opts_cfg = Inr (3, default_opts_cfg\<lparr>show_inline := False\<rparr>)" .
  show ?thesis
    by (simp add: getOptions_cfg_def a b c)
qed

section \<open>cfg-parse: properties of the dump\<close>

lemma inline_loop_chain:
  "inline_loop func inlineSeqn = rev (map node_of (inline_chain func)) @ inlineSeqn"
  by (induction func inlineSeqn rule: inline_loop.induct) (simp_all add: node_of_def)

lemma inline_items_map [simp]: "inline_items (map InlineItem ns) = ns"
  by (induction ns) simp_all

text \<open>
  Claim C8: the inline frames \<^verbatim>\<open>doInstruction\<close> writes for an address are the frames of
  the engine's chain of inlined functions (which the engine gives innermost first, by
  following \<^verbatim>\<open>getInlinedParent\<close>) in reversed order, outermost first. For a function
  \<open>i0\<close> inlined into \<open>i1\<close> inlined into the non-inlined function \<open>outer\<close> the frames written
  are that of \<open>i1\<close> (whose call site lies in \<open>outer\<close>) and then that of \<open>i0\<close> (whose call
  site lies in \<open>i1\<close>): the call order \<open>outer\<close>, \<open>i1\<close>, \<open>i0\<close>. A frame belongs to an inlined
  function; \<open>outer\<close>, which has no parent, appears as the place of the first call site only.
\<close>

theorem inline_frames_outermost_first:
  "inline_items (doInstruction eng opts a instn) =
     (if show_inline opts then
        (case getContainingInlinedFunction eng a of
           Some func \<Rightarrow> rev (map node_of (inline_chain func))
         | None \<Rightarrow> [])
      else []) \<and>
   inline_loop (FunctionBase i0 cs0 (Some (FunctionBase i1 cs1 (Some (FunctionBase outer cs None))))) [] =
     [\<lparr>filenm = fst cs1, procnm = i1, line = snd cs1\<rparr>,
      \<lparr>filenm = fst cs0, procnm = i0, line = snd cs0\<rparr>]"
  by (simp add: doInstruction_def inline_loop_chain node_of_def split: option.splits)

theorem inline_frames_outermost_first_witness:
  "inline_items (doInstruction
      \<lparr>getContainingInlinedFunction =
         \<lambda>a. if a = 0x401000 then
                Some (FunctionBase ''I0'' (''i1.h'', 20)
                  (Some (FunctionBase ''I1'' (''outer.c'', 10)
                    (Some (FunctionBase ''O'' ([], 0) None)))))
              else None,
       getLineMapInfo = \<lambda>a. [], targets = \<lambda>b. [], getFuncs = \<lambda>b. []\<rparr>
      default_opts_cfg 0x401000 [0x90]) =
     [\<lparr>filenm = ''outer.c'', procnm = ''I1'', line = 10\<rparr>,
      \<lparr>filenm = ''i1.h'', procnm = ''I0'', line = 20\<rparr>]"
  using inline_frames_outermost_first [where opts = default_opts_cfg and a = "0x401000"
    and instn = "[0x90]"
    and eng = "\<lparr>getContainingInlinedFunction =
         \<lambda>a. if a = 0x401000 then
                Some (FunctionBase ''I0'' (''i1.h'', 20)
                  (Some (FunctionBase ''I1'' (''outer.c'', 10)
                    (Some (FunctionBase ''O'' ([], 0) None)))))
              else None,
       getLineMapInfo = \<lambda>a. [], targets = \<lambda>b. [], getFuncs = \<lambda>b. []\<rparr>"]
  by (simp add: default_opts_cfg_def node_of_def)

lemma std_sort_ok_sorted:
  fixes key :: "'a \<Rightarrow> 'k::linorder"
  assumes ok: "std_sort_ok lt srt" and lt: "\<And>a b. lt a b = (key a < key b)"
  shows "sorted_wrt (\<lambda>a b. key a \<le> key b) (srt xs)"
proof -
  have "sorted_wrt (\<lambda>a b. \<not> lt b a) (srt xs)"
    using ok by (simp add: std_sort_ok_def)
  then show ?thesis
    by (simp add: lt not_less)
qed

lemma std_sort_ok_length:
  assumes ok: "std_sort_ok lt srt"
  shows "length (srt xs) = length xs"
  using ok unfolding std_sort_ok_def by (metis size_mset)

lemma sorted_positions:
  fixes key :: "'a \<Rightarrow> 'k::linorder"
  assumes s: "sorted_wrt (\<lambda>a b. key a \<le> key b) ys"
    and i: "i < length ys" and j: "j < length ys" and ne: "key (ys ! i) \<noteq> key (ys ! j)"
  shows "i < j \<longleftrightarrow> key (ys ! i) < key (ys ! j)"
proof
  assume "i < j"
  then have "key (ys ! i) \<le> key (ys ! j)"
    using s j by (simp add: sorted_wrt_iff_nth_less)
  with ne show "key (ys ! i) < key (ys ! j)" by simp
next
  assume lt: "key (ys ! i) < key (ys ! j)"
  show "i < j"
  proof (rule ccontr)
    assume "\<not> i < j"
    with ne have "j < i" by (cases "i = j") auto
    then have "key (ys ! j) \<le> key (ys ! i)"
      using s i by (simp add: sorted_wrt_iff_nth_less)
    with lt show False by simp
  qed
qed

lemma isort_Edge_ok: "std_sort_ok EdgeLessThan (isort_by EdgeLessThan)"
  by (rule isort_by_ok [where key = "\<lambda>e. start (trg e)"]) (simp add: EdgeLessThan_def)

lemma std_sort_ok_ordered:
  fixes key :: "'a \<Rightarrow> Address"
  assumes ok: "std_sort_ok lt srt" and lt: "\<And>a b. lt a b = (key a < key b)"
  shows "address_ordered key xs (srt xs)"
proof -
  have s: "sorted_wrt (\<lambda>a b. key a \<le> key b) (srt xs)"
    by (rule std_sort_ok_sorted [OF ok lt])
  moreover have "mset (srt xs) = mset xs"
    using ok by (simp add: std_sort_ok_def)
  ultimately show ?thesis
    unfolding address_ordered_def using sorted_positions [OF s] by blast
qed

lemma func_items_append [simp]: "func_items (xs @ ys) = func_items xs @ func_items ys"
  by (induction xs rule: func_items.induct) simp_all

lemma block_items_append [simp]: "block_items (xs @ ys) = block_items xs @ block_items ys"
  by (induction xs rule: block_items.induct) simp_all

lemma edge_items_append [simp]: "edge_items (xs @ ys) = edge_items xs @ edge_items ys"
  by (induction xs rule: edge_items.induct) simp_all

lemma items_map_Inline [simp]:
  "func_items (map InlineItem ns) = []" "block_items (map InlineItem ns) = []"
  "edge_items (map InlineItem ns) = []"
  by (induction ns) simp_all

lemma items_doInstruction [simp]:
  "func_items (doInstruction eng opts a instn) = []"
  "block_items (doInstruction eng opts a instn) = []"
  "edge_items (doInstruction eng opts a instn) = []"
  by (simp_all add: doInstruction_def split: option.splits)

lemma items_stmts [simp]:
  "func_items (concat (map (\<lambda>(a, instn). doInstruction eng opts a instn) xs)) = []"
  "block_items (concat (map (\<lambda>(a, instn). doInstruction eng opts a instn) xs)) = []"
  "edge_items (concat (map (\<lambda>(a, instn). doInstruction eng opts a instn) xs)) = []"
  by (induction xs) (simp_all split: prod.splits)

lemma items_doBlock_cfg:
  "func_items (doBlock_cfg srt_f srt_e eng opts block) = []"
  "block_items (doBlock_cfg srt_f srt_e eng opts block) = (if show_blocks opts then [block] else [])"
  "edge_items (doBlock_cfg srt_f srt_e eng opts block) =
     (if show_blocks opts then [srt_e (targets eng block)] else [])"
  by (simp_all add: doBlock_cfg_def)

lemma items_blocks:
  "func_items (concat (map (doBlock_cfg srt_f srt_e eng opts) bs)) = []"
  "block_items (concat (map (doBlock_cfg srt_f srt_e eng opts) bs)) =
     (if show_blocks opts then bs else [])"
  by (induction bs) (simp_all add: items_doBlock_cfg)

lemma items_doFunction_cfg:
  "func_items (doFunction_cfg srt_f srt_b srt_e eng opts func) = [func]"
  "block_items (doFunction_cfg srt_f srt_b srt_e eng opts func) =
     (if show_blocks opts then srt_b (blocks func) else [])"
  by (simp_all add: doFunction_cfg_def items_blocks)

lemma func_items_funcs:
  "func_items (concat (map (doFunction_cfg srt_f srt_b srt_e eng opts) fs)) = fs"
  by (induction fs) (simp_all add: items_doFunction_cfg)

section \<open>The library's sorting routine keeps the promise of std::sort\<close>

text \<open>
  For a comparator that is the order of a key, the routine of the GNU C++ library never
  reads outside the vector, and the vector it leaves is a permutation of the input with
  the keys in ascending order. The proof follows the routine: the insertion sorts, the
  partition around the median of three, the heap routines, the introsort loop (after which
  every element from position 16 on has an element that is not greater among the first
  16, which is what the unguarded insertion relies on), and the whole.
\<close>

lemma keyed_lt: "keyed lt key \<Longrightarrow> lt a b = (key a < key b)"
  by (simp add: keyed_def)

lemma linear_insert_loop_rins:
  "linear_insert_loop lt val (rev rpre @ h # post) (length rpre) =
     map_option (\<lambda>r. rev r @ post) (linear_insert_rev lt val rpre)"
proof (induction rpre arbitrary: h post)
  case Nil
  show ?case by simp
next
  case (Cons p rpre)
  have n: "(rev rpre @ p # h # post) ! length rpre = p"
    by (simp add: nth_append)
  have u: "(rev rpre @ p # h # post)[Suc (length rpre) := x] = rev rpre @ p # x # post" for x
    by (simp add: list_update_append)
  show ?case
    using Cons.IH [of p "p # post"]
    by (simp add: n u option.map_comp o_def)
qed

lemma linear_insert_rev_ok:
  assumes k: "keyed lt key"
  shows "\<exists>x \<in> set rpre. key x \<le> key val \<Longrightarrow>
     \<exists>r. linear_insert_rev lt val rpre = Some r \<and> mset r = add_mset val (mset rpre) \<and>
         (sorted (map key (rev rpre)) \<longrightarrow> sorted (map key (rev r)))"
proof (induction rpre)
  case Nil
  then show ?case by simp
next
  case (Cons p rpre)
  show ?case
  proof (cases "lt val p")
    case False
    then have "key p \<le> key val" using k by (simp add: keyed_def)
    then have "sorted (map key (rev (p # rpre))) \<longrightarrow> sorted (map key (rev (val # p # rpre)))"
      by (auto simp: sorted_append)
    with False show ?thesis by simp
  next
    case True
    then have lt: "key val < key p" using k by (simp add: keyed_def)
    with Cons.prems have "\<exists>x \<in> set rpre. key x \<le> key val" by auto
    from Cons.IH [OF this] obtain r where r: "linear_insert_rev lt val rpre = Some r"
      "mset r = add_mset val (mset rpre)"
      "sorted (map key (rev rpre)) \<longrightarrow> sorted (map key (rev r))"
      by blast
    have "set r = insert val (set rpre)"
      using r(2) by (metis set_mset_add_mset_insert set_mset_mset)
    with r lt True show ?thesis
      by (auto simp: sorted_append)
  qed
qed

lemma unguarded_linear_insert_ok:
  assumes k: "keyed lt key" and i: "i < length xs"
    and st: "\<exists>x \<in> set (take i xs). key x \<le> key (xs ! i)"
  shows "\<exists>ys. unguarded_linear_insert lt xs i = Some ys \<and> length ys = length xs \<and>
           mset (take (Suc i) ys) = mset (take (Suc i) xs) \<and>
           drop (Suc i) ys = drop (Suc i) xs \<and>
           (sorted (map key (take i xs)) \<longrightarrow> sorted (map key (take (Suc i) ys)))"
proof -
  let ?rpre = "rev (take i xs)"
  have xs: "xs = rev ?rpre @ xs ! i # drop (Suc i) xs"
    using i by (simp add: id_take_nth_drop [symmetric])
  have len: "length ?rpre = i" using i by simp
  from st have "\<exists>x \<in> set ?rpre. key x \<le> key (xs ! i)" by simp
  from linear_insert_rev_ok [OF k this] obtain r where r: "linear_insert_rev lt (xs ! i) ?rpre = Some r"
    "mset r = add_mset (xs ! i) (mset ?rpre)"
    "sorted (map key (rev ?rpre)) \<longrightarrow> sorted (map key (rev r))"
    by blast
  have "linear_insert_loop lt (xs ! i) xs i = Some (rev r @ drop (Suc i) xs)"
    using linear_insert_loop_rins [of lt "xs ! i" ?rpre "xs ! i" "drop (Suc i) xs"] r(1)
    by (simp only: xs [symmetric] len) simp
  then have u: "unguarded_linear_insert lt xs i = Some (rev r @ drop (Suc i) xs)"
    using i by (simp add: unguarded_linear_insert_def)
  have lr: "length r = Suc i"
    using r(2) len by (metis mset_eq_length length_Cons mset.simps(2))
  have "mset (take (Suc i) xs) = add_mset (xs ! i) (mset (take i xs))"
    using i by (simp add: take_Suc_conv_app_nth)
  with r lr i u show ?thesis
    by (intro exI [of _ "rev r @ drop (Suc i) xs"]) auto
qed


lemma prefix_perm_extend:
  assumes "mset (take k ys) = mset (take k xs)" and "drop k ys = drop k xs" and "k \<le> n"
  shows "mset (take n ys) = mset (take n xs) \<and> drop n ys = drop n xs"
proof -
  have t: "take n zs = take k zs @ take (n - k) (drop k zs)" for zs :: "'a list"
    using assms(3) by (metis le_add_diff_inverse take_add)
  have d: "drop n zs = drop (n - k) (drop k zs)" for zs :: "'a list"
    using assms(3) by simp
  show ?thesis
    using assms(1,2) by (simp add: t [of ys] t [of xs] d [of ys] d [of xs])
qed

lemma prefix_perm_all:
  assumes "mset (take k ys) = mset (take k xs)" and "drop k ys = drop k xs"
  shows "mset ys = mset xs"
proof -
  have "mset (take k ys @ drop k ys) = mset (take k xs @ drop k xs)"
    using assms by (simp del: append_take_drop_id)
  then show ?thesis by simp
qed

lemma insertion_sort_loop_ok:
  assumes k: "keyed lt key"
  shows "1 \<le> i \<Longrightarrow> i \<le> n \<Longrightarrow> n \<le> length xs \<Longrightarrow> sorted (map key (take i xs)) \<Longrightarrow>
     \<exists>ys. insertion_sort_loop lt xs 0 i n = Some ys \<and> length ys = length xs \<and>
          mset (take n ys) = mset (take n xs) \<and> drop n ys = drop n xs \<and>
          sorted (map key (take n ys))"
proof (induction "n - i" arbitrary: i xs)
  case 0
  then have "i = n" by simp
  with 0 show ?case by (simp add: insertion_sort_loop.simps)
next
  case (Suc d)
  then have i: "i < n" "i < length xs" "0 < i" by simp_all
  have d: "d = n - Suc i" using Suc.hyps(2) by simp
  show ?case
  proof (cases "lt (xs ! i) (xs ! 0)")
    case True
    let ?ys = "(move_backward xs 0 i)[0 := xs ! i]"
    have ne: "xs \<noteq> []" using i by auto
    have ys: "?ys = xs ! i # take i xs @ drop (Suc i) xs"
      using ne by (cases xs) (simp_all add: move_backward_def)
    have len: "length ?ys = length xs" using i by (simp add: ys)
    have tk: "take (Suc i) ?ys = xs ! i # take i xs" using i by (simp add: ys)
    have dr: "drop (Suc i) ?ys = drop (Suc i) xs" using i by (simp add: ys)
    have lt0: "key (xs ! i) < key (xs ! 0)" using True k by (simp add: keyed_def)
    have "\<forall>x \<in> set (take i xs). key (xs ! 0) \<le> key x"
    proof
      fix x assume "x \<in> set (take i xs)"
      then obtain j where j: "j < i" "x = xs ! j"
        using i by (auto simp: in_set_conv_nth)
      have "key (take i xs ! 0) \<le> key (take i xs ! j)"
        using Suc.prems(4) j i
        by (metis (no_types, lifting) length_map length_take less_or_eq_imp_le min.absorb2
            nth_map sorted_nth_mono zero_le i(3))
      then show "key (xs ! 0) \<le> key x" using j i by simp
    qed
    with lt0 Suc.prems(4) have so: "sorted (map key (take (Suc i) ?ys))"
      by (auto simp: tk)
    have "\<exists>zs. insertion_sort_loop lt ?ys 0 (Suc i) n = Some zs \<and> length zs = length ?ys \<and>
          mset (take n zs) = mset (take n ?ys) \<and> drop n zs = drop n ?ys \<and>
          sorted (map key (take n zs))"
      using i len so Suc.prems(3) by (intro Suc.hyps(1)) (simp_all add: d)
    then obtain zs where zs: "insertion_sort_loop lt ?ys 0 (Suc i) n = Some zs"
      "length zs = length ?ys" "mset (take n zs) = mset (take n ?ys)" "drop n zs = drop n ?ys"
      "sorted (map key (take n zs))"
      by blast
    have "mset (take (Suc i) ?ys) = mset (take (Suc i) xs)"
      using i by (simp add: tk take_Suc_conv_app_nth)
    from prefix_perm_extend [OF this dr, of n] i
    have "mset (take n ?ys) = mset (take n xs)" "drop n ?ys = drop n xs" by simp_all
    with zs len True i show ?thesis
      by (subst insertion_sort_loop.simps) simp
  next
    case False
    then have "key (xs ! 0) \<le> key (xs ! i)" using k by (simp add: keyed_def)
    moreover have "xs ! 0 \<in> set (take i xs)"
      using i by (metis length_take min.absorb2 less_or_eq_imp_le nth_mem nth_take)
    ultimately have "\<exists>x \<in> set (take i xs). key x \<le> key (xs ! i)" by blast
    from unguarded_linear_insert_ok [OF k i(2) this] Suc.prems(4)
    obtain ys where ys: "unguarded_linear_insert lt xs i = Some ys" "length ys = length xs"
      "mset (take (Suc i) ys) = mset (take (Suc i) xs)" "drop (Suc i) ys = drop (Suc i) xs"
      "sorted (map key (take (Suc i) ys))"
      by blast
    have "\<exists>zs. insertion_sort_loop lt ys 0 (Suc i) n = Some zs \<and> length zs = length ys \<and>
          mset (take n zs) = mset (take n ys) \<and> drop n zs = drop n ys \<and>
          sorted (map key (take n zs))"
      using i ys Suc.prems(3) by (intro Suc.hyps(1)) (simp_all add: d)
    then obtain zs where zs: "insertion_sort_loop lt ys 0 (Suc i) n = Some zs"
      "length zs = length ys" "mset (take n zs) = mset (take n ys)" "drop n zs = drop n ys"
      "sorted (map key (take n zs))"
      by blast
    from prefix_perm_extend [OF ys(3,4), of n] i
    have "mset (take n ys) = mset (take n xs)" "drop n ys = drop n xs" by simp_all
    with zs ys False i show ?thesis
      by (subst insertion_sort_loop.simps) simp
  qed
qed

lemma insertion_sort_ok:
  assumes k: "keyed lt key" and n: "n \<le> length xs"
  shows "\<exists>ys. insertion_sort lt xs 0 n = Some ys \<and> length ys = length xs \<and>
          mset (take n ys) = mset (take n xs) \<and> drop n ys = drop n xs \<and>
          sorted (map key (take n ys))"
proof (cases "n = 0")
  case True
  then show ?thesis by (simp add: insertion_sort_def)
next
  case False
  have "sorted (map key (take 1 xs))" by (cases xs) simp_all
  from insertion_sort_loop_ok [OF k _ _ n this] False n show ?thesis
    by (simp add: insertion_sort_def)
qed

lemma unguarded_insertion_sort_ok:
  assumes k: "keyed lt key"
  shows "i \<le> length xs \<Longrightarrow> sorted (map key (take i xs)) \<Longrightarrow>
     \<forall>x \<in> set (drop i xs). \<exists>y \<in> set (take i xs). key y \<le> key x \<Longrightarrow>
     \<exists>ys. unguarded_insertion_sort lt xs i (length xs) = Some ys \<and>
          mset ys = mset xs \<and> sorted (map key ys)"
proof (induction "length xs - i" arbitrary: i xs)
  case 0
  then show ?case by (simp add: unguarded_insertion_sort.simps)
next
  case (Suc d)
  then have i: "i < length xs" by simp
  have "xs ! i \<in> set (drop i xs)"
    using i by (metis Cons_nth_drop_Suc list.set_intros(1))
  with Suc.prems(3) have "\<exists>y \<in> set (take i xs). key y \<le> key (xs ! i)" by blast
  from unguarded_linear_insert_ok [OF k i this] Suc.prems(2)
  obtain ys where ys: "unguarded_linear_insert lt xs i = Some ys" "length ys = length xs"
      "mset (take (Suc i) ys) = mset (take (Suc i) xs)" "drop (Suc i) ys = drop (Suc i) xs"
      "sorted (map key (take (Suc i) ys))"
    by blast
  have sub: "set (take i xs) \<subseteq> set (take (Suc i) ys)"
  proof -
    have "set (take (Suc i) ys) = set (take (Suc i) xs)"
      using ys(3) by (metis set_mset_mset)
    then show ?thesis using i by (auto simp: take_Suc_conv_app_nth)
  qed
  have "set (drop (Suc i) xs) \<subseteq> set (drop i xs)"
    by (metis drop_Suc set_drop_subset tl_drop drop_Suc_Cons list.set_sel(2) subsetI in_set_dropD
        Cons_nth_drop_Suc i list.set_intros(2))
  with Suc.prems(3) sub ys(4)
  have st: "\<forall>x \<in> set (drop (Suc i) ys). \<exists>y \<in> set (take (Suc i) ys). key y \<le> key x"
    by (metis subsetD)
  have "\<exists>zs. unguarded_insertion_sort lt ys (Suc i) (length ys) = Some zs \<and>
          mset zs = mset ys \<and> sorted (map key zs)"
    using Suc.hyps(2) i ys(2,5) st by (intro Suc.hyps(1)) simp_all
  then obtain zs where zs: "unguarded_insertion_sort lt ys (Suc i) (length ys) = Some zs"
    "mset zs = mset ys" "sorted (map key zs)"
    by blast
  have "mset ys = mset xs" by (rule prefix_perm_all [OF ys(3,4)])
  with zs ys i show ?case
    by (subst unguarded_insertion_sort.simps) simp
qed

lemma final_insertion_sort_ok:
  assumes k: "keyed lt key"
    and q: "\<forall>x \<in> set (drop S_threshold xs). \<exists>y \<in> set (take S_threshold xs). key y \<le> key x"
  shows "\<exists>ys. final_insertion_sort lt xs 0 (length xs) = Some ys \<and>
          mset ys = mset xs \<and> sorted (map key ys)"
proof (cases "S_threshold < length xs")
  case False
  from insertion_sort_ok [OF k, of "length xs" xs] False show ?thesis
    by (auto simp: final_insertion_sort_def)
next
  case True
  from insertion_sort_ok [OF k, of S_threshold xs] True
  obtain ys where ys: "insertion_sort lt xs 0 S_threshold = Some ys" "length ys = length xs"
    "mset (take S_threshold ys) = mset (take S_threshold xs)"
    "drop S_threshold ys = drop S_threshold xs" "sorted (map key (take S_threshold ys))"
    by auto
  have "set (take S_threshold ys) = set (take S_threshold xs)"
    using ys(3) by (metis set_mset_mset)
  with q ys(4)
  have "\<forall>x \<in> set (drop S_threshold ys). \<exists>y \<in> set (take S_threshold ys). key y \<le> key x"
    by simp
  from unguarded_insertion_sort_ok [OF k _ ys(5) this] True ys(2)
  obtain zs where zs: "unguarded_insertion_sort lt ys S_threshold (length ys) = Some zs"
    "mset zs = mset ys" "sorted (map key zs)"
    by auto
  have "mset ys = mset xs" by (rule prefix_perm_all [OF ys(3,4)])
  with zs ys True show ?thesis
    by (simp add: final_insertion_sort_def)
qed


lemma iter_swap_length [simp]: "length (iter_swap xs i j) = length xs"
  by (simp add: iter_swap_def)

lemma iter_swap_mset: "i < length xs \<Longrightarrow> j < length xs \<Longrightarrow> mset (iter_swap xs i j) = mset xs"
  by (simp add: iter_swap_def mset_swap)

lemma iter_swap_nth:
  "i < length xs \<Longrightarrow> j < length xs \<Longrightarrow>
   iter_swap xs i j ! k = (if k = j then xs ! i else if k = i then xs ! j else xs ! k)"
  by (simp add: iter_swap_def nth_list_update)

lemma scan_up_ok:
  "f \<le> s \<Longrightarrow> s < length xs \<Longrightarrow> \<not> lt (xs ! s) (xs ! pivot) \<Longrightarrow>
   \<exists>f'. scan_up lt xs pivot f = Some f' \<and> f \<le> f' \<and> f' \<le> s \<and> \<not> lt (xs ! f') (xs ! pivot) \<and>
        (\<forall>j. f \<le> j \<and> j < f' \<longrightarrow> lt (xs ! j) (xs ! pivot))"
proof (induction "s - f" arbitrary: f)
  case 0
  then have "f = s" by simp
  with 0 show ?case by (subst scan_up.simps) auto
next
  case (Suc d)
  show ?case
  proof (cases "lt (xs ! f) (xs ! pivot)")
    case False
    with Suc.prems show ?thesis by (subst scan_up.simps) auto
  next
    case True
    have "\<exists>f'. scan_up lt xs pivot (Suc f) = Some f' \<and> Suc f \<le> f' \<and> f' \<le> s \<and>
        \<not> lt (xs ! f') (xs ! pivot) \<and> (\<forall>j. Suc f \<le> j \<and> j < f' \<longrightarrow> lt (xs ! j) (xs ! pivot))"
      using Suc.hyps(2) Suc.prems by (intro Suc.hyps(1)) simp_all
    then obtain f' where f': "scan_up lt xs pivot (Suc f) = Some f'" "Suc f \<le> f'" "f' \<le> s"
      "\<not> lt (xs ! f') (xs ! pivot)" "\<forall>j. Suc f \<le> j \<and> j < f' \<longrightarrow> lt (xs ! j) (xs ! pivot)"
      by blast
    have "\<forall>j. f \<le> j \<and> j < f' \<longrightarrow> lt (xs ! j) (xs ! pivot)"
    proof (intro allI impI)
      fix j assume "f \<le> j \<and> j < f'"
      then have "j = f \<or> (Suc f \<le> j \<and> j < f')" by auto
      with True f'(5) show "lt (xs ! j) (xs ! pivot)" by blast
    qed
    with f' True Suc.prems show ?thesis
      by (subst scan_up.simps) auto
  qed
qed

lemma scan_down_ok:
  "s \<le> l \<Longrightarrow> \<not> lt (xs ! pivot) (xs ! s) \<Longrightarrow>
   \<exists>l'. scan_down lt xs pivot l = Some l' \<and> s \<le> l' \<and> l' \<le> l \<and> \<not> lt (xs ! pivot) (xs ! l') \<and>
        (\<forall>j. l' < j \<and> j \<le> l \<longrightarrow> lt (xs ! pivot) (xs ! j))"
proof (induction l)
  case 0
  then show ?case by auto
next
  case (Suc l)
  show ?case
  proof (cases "lt (xs ! pivot) (xs ! Suc l)")
    case False
    with Suc.prems show ?thesis by auto
  next
    case True
    with Suc.prems have "s \<le> l" by (metis le_SucE)
    from Suc.IH [OF this Suc.prems(2)] obtain l' where l': "scan_down lt xs pivot l = Some l'"
      "s \<le> l'" "l' \<le> l" "\<not> lt (xs ! pivot) (xs ! l')"
      "\<forall>j. l' < j \<and> j \<le> l \<longrightarrow> lt (xs ! pivot) (xs ! j)"
      by blast
    have "\<forall>j. l' < j \<and> j \<le> Suc l \<longrightarrow> lt (xs ! pivot) (xs ! j)"
    proof (intro allI impI)
      fix j assume "l' < j \<and> j \<le> Suc l"
      then have "j = Suc l \<or> (l' < j \<and> j \<le> l)" by auto
      with True l'(5) show "lt (xs ! pivot) (xs ! j)" by blast
    qed
    with l' True show ?thesis by auto
  qed
qed

lemma unguarded_partition_ok:
  assumes k: "keyed lt key" and n0: "n0 \<le> length xs0"
  shows "p < f \<Longrightarrow> f \<le> l \<Longrightarrow> l \<le> n0 \<Longrightarrow> length xs = length xs0 \<Longrightarrow>
     \<forall>i. p < i \<and> i < f \<longrightarrow> key (xs ! i) \<le> key (xs ! p) \<Longrightarrow>
     \<forall>i. l \<le> i \<and> i < n0 \<longrightarrow> key (xs ! p) \<le> key (xs ! i) \<Longrightarrow>
     \<exists>i. f \<le> i \<and> i < n0 \<and> key (xs ! p) \<le> key (xs ! i) \<Longrightarrow>
     \<exists>ys c. unguarded_partition lt xs f l p = Some (ys, c) \<and> p < c \<and> c < n0 \<and>
        length ys = length xs \<and> mset ys = mset xs \<and>
        (\<forall>i. i \<le> p \<or> n0 \<le> i \<longrightarrow> ys ! i = xs ! i) \<and>
        (\<forall>i. p < i \<and> i < c \<longrightarrow> key (ys ! i) \<le> key (ys ! p)) \<and>
        (\<forall>i. c \<le> i \<and> i < n0 \<longrightarrow> key (ys ! p) \<le> key (ys ! i))"
proof (induction l arbitrary: xs f rule: less_induct)
  case (less l)
  note A = less.prems(5) and B = less.prems(6)
  from less.prems(7) obtain s where s: "f \<le> s" "s < n0" "key (xs ! p) \<le> key (xs ! s)" by blast
  have len: "n0 \<le> length xs" using n0 less.prems(4) by simp
  have ns: "\<not> lt (xs ! s) (xs ! p)" using s(3) k by (simp add: keyed_def)
  have "s < length xs" using s(2) len by simp
  from scan_up_ok [of f s xs lt p, OF s(1) this ns]
  obtain f' where f': "scan_up lt xs p f = Some f'" "f \<le> f'" "f' \<le> s"
    "\<not> lt (xs ! f') (xs ! p)" "\<forall>j. f \<le> j \<and> j < f' \<longrightarrow> lt (xs ! j) (xs ! p)"
    by auto
  have pl: "p \<le> l - 1" using less.prems(1,2) by simp
  have "\<not> lt (xs ! p) (xs ! p)" using k by (simp add: keyed_def)
  from scan_down_ok [of p "l - 1" lt xs p, OF pl this]
  obtain l' where l': "scan_down lt xs p (l - 1) = Some l'" "p \<le> l'" "l' \<le> l - 1"
    "\<not> lt (xs ! p) (xs ! l')" "\<forall>j. l' < j \<and> j \<le> l - 1 \<longrightarrow> lt (xs ! p) (xs ! j)"
    by blast
  have l0: "\<not> (l = 0 \<or> length xs < l)" using less.prems(1,2,3) len by simp
  have kf': "key (xs ! p) \<le> key (xs ! f')" using f'(4) k by (simp add: keyed_def)
  have kl': "key (xs ! l') \<le> key (xs ! p)" using l'(4) k by (simp add: keyed_def)
  have left: "\<forall>i. p < i \<and> i < f' \<longrightarrow> key (xs ! i) \<le> key (xs ! p)"
  proof (intro allI impI)
    fix i assume i: "p < i \<and> i < f'"
    show "key (xs ! i) \<le> key (xs ! p)"
    proof (cases "i < f")
      case True
      with i A show ?thesis by blast
    next
      case False
      with i f'(5) have "lt (xs ! i) (xs ! p)" by simp
      then show ?thesis using k by (simp add: keyed_def)
    qed
  qed
  have right: "\<forall>i. l' < i \<and> i < n0 \<longrightarrow> key (xs ! p) \<le> key (xs ! i)"
  proof (intro allI impI)
    fix i assume i: "l' < i \<and> i < n0"
    show "key (xs ! p) \<le> key (xs ! i)"
    proof (cases "l \<le> i")
      case True
      with i B show ?thesis by blast
    next
      case False
      with i l'(5) have "lt (xs ! p) (xs ! i)" by simp
      then show ?thesis using k by (simp add: keyed_def)
    qed
  qed
  show ?case
  proof (cases "f' < l'")
    case False
    have "\<forall>i. f' \<le> i \<and> i < n0 \<longrightarrow> key (xs ! p) \<le> key (xs ! i)"
    proof (intro allI impI)
      fix i assume i: "f' \<le> i \<and> i < n0"
      then have "i = f' \<or> (l' < i \<and> i < n0)" using False by auto
      with kf' right show "key (xs ! p) \<le> key (xs ! i)" by blast
    qed
    moreover have "p < f'" "f' < n0" using less.prems(1) f'(2,3) s(2) by simp_all
    ultimately show ?thesis
      using f'(1) l'(1) l0 False left
      by (subst unguarded_partition.simps) simp
  next
    case True
    let ?xs = "iter_swap xs f' l'"
    have b: "f' < length xs" "l' < length xs" "l' < l" "l' < n0" "p < f'" "p \<noteq> l'"
      using True l'(3) l0 less.prems(1,3) f'(2) len by simp_all
    have nth: "?xs ! i = (if i = l' then xs ! f' else if i = f' then xs ! l' else xs ! i)" for i
      by (rule iter_swap_nth [OF b(1,2)])
    have pp: "?xs ! p = xs ! p" using b(5,6) by (simp add: nth)
    have A': "\<forall>i. p < i \<and> i < Suc f' \<longrightarrow> key (?xs ! i) \<le> key (?xs ! p)"
    proof (intro allI impI)
      fix i assume i: "p < i \<and> i < Suc f'"
      then have "i = f' \<or> (p < i \<and> i < f')" by auto
      then show "key (?xs ! i) \<le> key (?xs ! p)"
        using kl' left True b by (auto simp: nth pp)
    qed
    have B': "\<forall>i. l' \<le> i \<and> i < n0 \<longrightarrow> key (?xs ! p) \<le> key (?xs ! i)"
    proof (intro allI impI)
      fix i assume i: "l' \<le> i \<and> i < n0"
      then have "i = l' \<or> (l' < i \<and> i < n0)" by auto
      then show "key (?xs ! p) \<le> key (?xs ! i)"
        using kf' right True b by (auto simp: nth pp)
    qed
    have C': "\<exists>i. Suc f' \<le> i \<and> i < n0 \<and> key (?xs ! p) \<le> key (?xs ! i)"
      using True b kf' by (intro exI [of _ l']) (simp add: nth)
    have "\<exists>ys c. unguarded_partition lt ?xs (Suc f') l' p = Some (ys, c) \<and> p < c \<and> c < n0 \<and>
        length ys = length ?xs \<and> mset ys = mset ?xs \<and>
        (\<forall>i. i \<le> p \<or> n0 \<le> i \<longrightarrow> ys ! i = ?xs ! i) \<and>
        (\<forall>i. p < i \<and> i < c \<longrightarrow> key (ys ! i) \<le> key (ys ! p)) \<and>
        (\<forall>i. c \<le> i \<and> i < n0 \<longrightarrow> key (ys ! p) \<le> key (ys ! i))"
      using b True less.prems(4) A' B' C'
      by (intro less.IH) simp_all
    then obtain ys c where r: "unguarded_partition lt ?xs (Suc f') l' p = Some (ys, c)"
      "p < c" "c < n0" "length ys = length ?xs" "mset ys = mset ?xs"
      "\<forall>i. i \<le> p \<or> n0 \<le> i \<longrightarrow> ys ! i = ?xs ! i"
      "\<forall>i. p < i \<and> i < c \<longrightarrow> key (ys ! i) \<le> key (ys ! p)"
      "\<forall>i. c \<le> i \<and> i < n0 \<longrightarrow> key (ys ! p) \<le> key (ys ! i)"
      by blast
    have "\<forall>i. i \<le> p \<or> n0 \<le> i \<longrightarrow> ys ! i = xs ! i"
    proof (intro allI impI)
      fix i assume "i \<le> p \<or> n0 \<le> i"
      then have "ys ! i = ?xs ! i" "i \<noteq> l'" "i \<noteq> f'" using r(6) b True by auto
      then show "ys ! i = xs ! i" by (simp add: nth)
    qed
    with r iter_swap_mset [OF b(1,2)] f'(1) l'(1) l0 True show ?thesis
      by (subst unguarded_partition.simps) simp
  qed
qed


lemma move_median_to_first_ok:
  assumes k: "keyed lt key" and o: "first < a" "a < b" "b < c" "c < length xs"
  shows "length (move_median_to_first lt xs first a b c) = length xs \<and>
     mset (move_median_to_first lt xs first a b c) = mset xs \<and>
     (\<forall>i. i < first \<or> c < i \<longrightarrow> move_median_to_first lt xs first a b c ! i = xs ! i) \<and>
     (\<exists>i. first < i \<and> i \<le> c \<and>
          key (move_median_to_first lt xs first a b c ! first) \<le>
          key (move_median_to_first lt xs first a b c ! i))"
proof -
  have b: "first < length xs" "a < length xs" "b < length xs" "c < length xs"
    using o by simp_all
  have sw: "length (iter_swap xs first m) = length xs \<and> mset (iter_swap xs first m) = mset xs \<and>
     (\<forall>i. i < first \<or> c < i \<longrightarrow> iter_swap xs first m ! i = xs ! i)"
    if "m < length xs" "first < m" "m \<le> c" for m
    using that b(1) by (auto simp: iter_swap_mset iter_swap_nth)
  have st: "\<exists>i. first < i \<and> i \<le> c \<and> key (iter_swap xs first m ! first) \<le> key (iter_swap xs first m ! i)"
    if "m < length xs" "first < m" "j < length xs" "first < j" "j \<le> c" "j \<noteq> m"
       "key (xs ! m) \<le> key (xs ! j)" for m j
    using that b(1) by (intro exI [of _ j]) (simp add: iter_swap_nth)
  consider (1) "key (xs ! a) < key (xs ! b)" "key (xs ! b) < key (xs ! c)"
    | (2) "key (xs ! a) < key (xs ! b)" "\<not> key (xs ! b) < key (xs ! c)" "key (xs ! a) < key (xs ! c)"
    | (3) "key (xs ! a) < key (xs ! b)" "\<not> key (xs ! b) < key (xs ! c)" "\<not> key (xs ! a) < key (xs ! c)"
    | (4) "\<not> key (xs ! a) < key (xs ! b)" "key (xs ! a) < key (xs ! c)"
    | (5) "\<not> key (xs ! a) < key (xs ! b)" "\<not> key (xs ! a) < key (xs ! c)" "key (xs ! b) < key (xs ! c)"
    | (6) "\<not> key (xs ! a) < key (xs ! b)" "\<not> key (xs ! a) < key (xs ! c)" "\<not> key (xs ! b) < key (xs ! c)"
    by blast
  then show ?thesis
  proof cases
    case 1
    then have m: "move_median_to_first lt xs first a b c = iter_swap xs first b"
      using k by (simp add: move_median_to_first_def keyed_def)
    show ?thesis unfolding m
      using sw [of b] st [of b c] 1 o by simp
  next
    case 2
    then have m: "move_median_to_first lt xs first a b c = iter_swap xs first c"
      using k by (simp add: move_median_to_first_def keyed_def)
    show ?thesis unfolding m
      using sw [of c] st [of c b] 2 o by simp
  next
    case 3
    then have m: "move_median_to_first lt xs first a b c = iter_swap xs first a"
      using k by (simp add: move_median_to_first_def keyed_def)
    show ?thesis unfolding m
      using sw [of a] st [of a b] 3 o by simp
  next
    case 4
    then have m: "move_median_to_first lt xs first a b c = iter_swap xs first a"
      using k by (simp add: move_median_to_first_def keyed_def)
    show ?thesis unfolding m
      using sw [of a] st [of a c] 4 o by simp
  next
    case 5
    then have m: "move_median_to_first lt xs first a b c = iter_swap xs first c"
      using k by (simp add: move_median_to_first_def keyed_def)
    show ?thesis unfolding m
      using sw [of c] st [of c a] 5 o by simp
  next
    case 6
    then have m: "move_median_to_first lt xs first a b c = iter_swap xs first b"
      using k by (simp add: move_median_to_first_def keyed_def)
    show ?thesis unfolding m
      using sw [of b] st [of b a] 6 o by simp
  qed
qed

lemma unguarded_partition_pivot_ok:
  assumes k: "keyed lt key" and n: "3 < lasti - first" and l: "lasti \<le> length xs"
  shows "\<exists>ys c. unguarded_partition_pivot lt xs first lasti = Some (ys, c) \<and>
     first < c \<and> c < lasti \<and> length ys = length xs \<and> mset ys = mset xs \<and>
     (\<forall>i. i < first \<or> lasti \<le> i \<longrightarrow> ys ! i = xs ! i) \<and>
     (\<forall>i j. first \<le> i \<and> i < c \<and> c \<le> j \<and> j < lasti \<longrightarrow> key (ys ! i) \<le> key (ys ! j))"
proof -
  let ?a = "first + 1" and ?b = "first + (lasti - first) div 2" and ?c = "lasti - 1"
  let ?xs = "move_median_to_first lt xs first ?a ?b ?c"
  have o: "first < ?a" "?a < ?b" "?b < ?c" "?c < length xs"
    using n l by auto
  from move_median_to_first_ok [OF k o]
  have m: "length ?xs = length xs" "mset ?xs = mset xs"
    "\<forall>i. i < first \<or> ?c < i \<longrightarrow> ?xs ! i = xs ! i"
    "\<exists>i. first < i \<and> i \<le> ?c \<and> key (?xs ! first) \<le> key (?xs ! i)"
    by blast+
  from m(4) have st: "\<exists>i. first + 1 \<le> i \<and> i < lasti \<and> key (?xs ! first) \<le> key (?xs ! i)"
  proof -
    from m(4) obtain i where "first < i" "i \<le> ?c" "key (?xs ! first) \<le> key (?xs ! i)"
      by blast
    moreover from this n have "first + 1 \<le> i \<and> i < lasti" by auto
    ultimately show ?thesis by blast
  qed
  have "\<exists>ys c. unguarded_partition lt ?xs (first + 1) lasti first = Some (ys, c) \<and> first < c \<and>
        c < lasti \<and> length ys = length ?xs \<and> mset ys = mset ?xs \<and>
        (\<forall>i. i \<le> first \<or> lasti \<le> i \<longrightarrow> ys ! i = ?xs ! i) \<and>
        (\<forall>i. first < i \<and> i < c \<longrightarrow> key (ys ! i) \<le> key (ys ! first)) \<and>
        (\<forall>i. c \<le> i \<and> i < lasti \<longrightarrow> key (ys ! first) \<le> key (ys ! i))"
  proof (rule unguarded_partition_ok [OF k l, where p = first and f = "first + 1" and l = lasti
        and xs = ?xs])
    show "first < first + 1" by simp
    show "first + 1 \<le> lasti" using n by simp
    show "lasti \<le> lasti" by simp
    show "length ?xs = length xs" by (rule m(1))
    show "\<forall>i. first < i \<and> i < first + 1 \<longrightarrow> key (?xs ! i) \<le> key (?xs ! first)"
    proof (intro allI impI)
      fix i assume "first < i \<and> i < first + 1"
      then have False by arith
      then show "key (?xs ! i) \<le> key (?xs ! first)" ..
    qed
    show "\<forall>i. lasti \<le> i \<and> i < lasti \<longrightarrow> key (?xs ! first) \<le> key (?xs ! i)"
    proof (intro allI impI)
      fix i assume "lasti \<le> i \<and> i < lasti"
      then have False by arith
      then show "key (?xs ! first) \<le> key (?xs ! i)" ..
    qed
    show "\<exists>i. first + 1 \<le> i \<and> i < lasti \<and> key (?xs ! first) \<le> key (?xs ! i)" by (rule st)
  qed
  then obtain ys c where r: "unguarded_partition lt ?xs (first + 1) lasti first = Some (ys, c)"
    "first < c" "c < lasti" "length ys = length ?xs" "mset ys = mset ?xs"
    "\<forall>i. i \<le> first \<or> lasti \<le> i \<longrightarrow> ys ! i = ?xs ! i"
    "\<forall>i. first < i \<and> i < c \<longrightarrow> key (ys ! i) \<le> key (ys ! first)"
    "\<forall>i. c \<le> i \<and> i < lasti \<longrightarrow> key (ys ! first) \<le> key (ys ! i)"
    by blast
  have out: "\<forall>i. i < first \<or> lasti \<le> i \<longrightarrow> ys ! i = xs ! i"
  proof (intro allI impI)
    fix i assume i: "i < first \<or> lasti \<le> i"
    then have "ys ! i = ?xs ! i" using r(6) by auto
    moreover from i n have "i < first \<or> ?c < i" by auto
    ultimately show "ys ! i = xs ! i" using m(3) by metis
  qed
  have ord: "\<forall>i j. first \<le> i \<and> i < c \<and> c \<le> j \<and> j < lasti \<longrightarrow> key (ys ! i) \<le> key (ys ! j)"
  proof (intro allI impI)
    fix i j assume ij: "first \<le> i \<and> i < c \<and> c \<le> j \<and> j < lasti"
    then have "key (ys ! first) \<le> key (ys ! j)" using r(8) by blast
    moreover have "key (ys ! i) \<le> key (ys ! first)"
    proof (cases "i = first")
      case True
      then show ?thesis by simp
    next
      case False
      with ij r(7) show ?thesis by simp
    qed
    ultimately show "key (ys ! i) \<le> key (ys ! j)" by (rule order_trans [rotated])
  qed
  from r out ord m show ?thesis
    by (simp add: unguarded_partition_pivot_def)
qed

lemma range_perm:
  assumes len: "length ys = length xs" and ms: "mset ys = mset xs"
    and out: "\<forall>i. i < a \<or> b \<le> i \<longrightarrow> ys ! i = xs ! i" and ab: "a \<le> b" "b \<le> length xs"
  shows "mset (take (b - a) (drop a ys)) = mset (take (b - a) (drop a xs))"
proof -
  have t: "take a ys = take a xs"
    using len out ab by (intro nth_equalityI) simp_all
  have d: "drop b ys = drop b xs"
    using len out ab by (intro nth_equalityI) simp_all
  have dec: "zs = take a zs @ take (b - a) (drop a zs) @ drop b zs" for zs :: "'a list"
  proof -
    have "drop (b - a) (drop a zs) = drop b zs" using ab(1) by simp
    then have "drop a zs = take (b - a) (drop a zs) @ drop b zs"
      by (metis append_take_drop_id)
    then show ?thesis by (metis append_take_drop_id)
  qed
  have "mset (take a ys @ take (b - a) (drop a ys) @ drop b ys) =
        mset (take a xs @ take (b - a) (drop a xs) @ drop b xs)"
    using ms dec [of ys] dec [of xs] by simp
  then show ?thesis by (simp add: t d)
qed

lemma range_elem:
  assumes len: "length ys = length xs" and ms: "mset ys = mset xs"
    and out: "\<forall>i. i < a \<or> b \<le> i \<longrightarrow> ys ! i = xs ! i" and ab: "a \<le> b" "b \<le> length xs"
    and j: "a \<le> j" "j < b"
  shows "\<exists>j'. a \<le> j' \<and> j' < b \<and> ys ! j = xs ! j'"
proof -
  have "ys ! j = take (b - a) (drop a ys) ! (j - a)"
    using j ab len by simp
  moreover have "j - a < length (take (b - a) (drop a ys))"
    using j ab len by simp
  ultimately have "ys ! j \<in> set (take (b - a) (drop a ys))"
    by (metis nth_mem)
  also have "set (take (b - a) (drop a ys)) = set (take (b - a) (drop a xs))"
    using range_perm [OF len ms out ab] by (metis set_mset_mset)
  finally obtain m where m: "m < length (take (b - a) (drop a xs))"
    "take (b - a) (drop a xs) ! m = ys ! j"
    by (auto simp: in_set_conv_nth)
  then have "a \<le> a + m \<and> a + m < b \<and> ys ! j = xs ! (a + m)"
    using ab by simp
  then show ?thesis by blast
qed


lemma introsort_loop_ok:
  assumes k: "keyed lt key"
    and hs: "\<And>xs first lasti. first < lasti \<Longrightarrow> lasti \<le> length xs \<Longrightarrow>
       length (partial_sort lt xs first lasti lasti) = length xs \<and>
       mset (partial_sort lt xs first lasti lasti) = mset xs \<and>
       (\<forall>i. i < first \<or> lasti \<le> i \<longrightarrow> partial_sort lt xs first lasti lasti ! i = xs ! i) \<and>
       (\<forall>i j. first \<le> i \<and> i \<le> j \<and> j < lasti \<longrightarrow>
          key (partial_sort lt xs first lasti lasti ! i) \<le>
          key (partial_sort lt xs first lasti lasti ! j))"
  shows "first \<le> lasti \<Longrightarrow> lasti \<le> length xs \<Longrightarrow>
     \<exists>zs. introsort_loop lt xs first lasti d = Some zs \<and> length zs = length xs \<and>
          mset zs = mset xs \<and>
          (\<forall>i. i < first \<or> lasti \<le> i \<longrightarrow> zs ! i = xs ! i) \<and>
          (\<forall>j. first + S_threshold \<le> j \<and> j < lasti \<longrightarrow>
             (\<exists>i. first \<le> i \<and> i < first + S_threshold \<and> key (zs ! i) \<le> key (zs ! j)))"
proof (induction d arbitrary: xs first lasti)
  case 0
  show ?case
  proof (cases "S_threshold < lasti - first")
    case False
    then have "\<forall>j. first + S_threshold \<le> j \<and> j < lasti \<longrightarrow>
       (\<exists>i. first \<le> i \<and> i < first + S_threshold \<and> key (xs ! i) \<le> key (xs ! j))"
      by auto
    with False show ?thesis by simp
  next
    case True
    let ?zs = "partial_sort lt xs first lasti lasti"
    have fl: "first < lasti" using True by simp
    note h = hs [OF fl 0(2)]
    have "\<forall>j. first + S_threshold \<le> j \<and> j < lasti \<longrightarrow>
       (\<exists>i. first \<le> i \<and> i < first + S_threshold \<and> key (?zs ! i) \<le> key (?zs ! j))"
    proof (intro allI impI)
      fix j assume j: "first + S_threshold \<le> j \<and> j < lasti"
      then have "first \<le> first \<and> first \<le> j \<and> j < lasti" by simp
      with h have "key (?zs ! first) \<le> key (?zs ! j)" by blast
      then show "\<exists>i. first \<le> i \<and> i < first + S_threshold \<and> key (?zs ! i) \<le> key (?zs ! j)"
        by (intro exI [of _ first]) (simp add: S_threshold_def)
    qed
    with h True show ?thesis by simp
  qed
next
  case (Suc d)
  show ?case
  proof (cases "S_threshold < lasti - first")
    case False
    then have "\<forall>j. first + S_threshold \<le> j \<and> j < lasti \<longrightarrow>
       (\<exists>i. first \<le> i \<and> i < first + S_threshold \<and> key (xs ! i) \<le> key (xs ! j))"
      by auto
    with False show ?thesis by simp
  next
    case True
    then have n: "3 < lasti - first" by (simp add: S_threshold_def)
    from unguarded_partition_pivot_ok [OF k n Suc.prems(2)]
    obtain ys c where p: "unguarded_partition_pivot lt xs first lasti = Some (ys, c)"
      "first < c" "c < lasti" "length ys = length xs" "mset ys = mset xs"
      "\<forall>i. i < first \<or> lasti \<le> i \<longrightarrow> ys ! i = xs ! i"
      "\<forall>i j. first \<le> i \<and> i < c \<and> c \<le> j \<and> j < lasti \<longrightarrow> key (ys ! i) \<le> key (ys ! j)"
      by blast
    have "\<exists>zs. introsort_loop lt ys c lasti d = Some zs \<and> length zs = length ys \<and>
          mset zs = mset ys \<and>
          (\<forall>i. i < c \<or> lasti \<le> i \<longrightarrow> zs ! i = ys ! i) \<and>
          (\<forall>j. c + S_threshold \<le> j \<and> j < lasti \<longrightarrow>
             (\<exists>i. c \<le> i \<and> i < c + S_threshold \<and> key (zs ! i) \<le> key (zs ! j)))"
      using p(3,4) Suc.prems(2) by (intro Suc.IH) simp_all
    then obtain zs1 where z1: "introsort_loop lt ys c lasti d = Some zs1" "length zs1 = length ys"
      "mset zs1 = mset ys" "\<forall>i. i < c \<or> lasti \<le> i \<longrightarrow> zs1 ! i = ys ! i"
      by blast
    have "\<exists>zs. introsort_loop lt zs1 first c d = Some zs \<and> length zs = length zs1 \<and>
          mset zs = mset zs1 \<and>
          (\<forall>i. i < first \<or> c \<le> i \<longrightarrow> zs ! i = zs1 ! i) \<and>
          (\<forall>j. first + S_threshold \<le> j \<and> j < c \<longrightarrow>
             (\<exists>i. first \<le> i \<and> i < first + S_threshold \<and> key (zs ! i) \<le> key (zs ! j)))"
      using p(2,3,4) z1(2) Suc.prems(2) by (intro Suc.IH) simp_all
    then obtain zs2 where z2: "introsort_loop lt zs1 first c d = Some zs2" "length zs2 = length zs1"
      "mset zs2 = mset zs1" "\<forall>i. i < first \<or> c \<le> i \<longrightarrow> zs2 ! i = zs1 ! i"
      "\<forall>j. first + S_threshold \<le> j \<and> j < c \<longrightarrow>
             (\<exists>i. first \<le> i \<and> i < first + S_threshold \<and> key (zs2 ! i) \<le> key (zs2 ! j))"
      by blast
    have out: "\<forall>i. i < first \<or> lasti \<le> i \<longrightarrow> zs2 ! i = xs ! i"
    proof (intro allI impI)
      fix i assume i: "i < first \<or> lasti \<le> i"
      then have "zs2 ! i = zs1 ! i" using z2(4) p(3) by auto
      also have "zs1 ! i = ys ! i" using z1(4) i p(2) by auto
      also have "ys ! i = xs ! i" using p(6) i by blast
      finally show "zs2 ! i = xs ! i" .
    qed
    have R: "\<forall>j. first + S_threshold \<le> j \<and> j < lasti \<longrightarrow>
             (\<exists>i. first \<le> i \<and> i < first + S_threshold \<and> key (zs2 ! i) \<le> key (zs2 ! j))"
    proof (intro allI impI)
      fix j assume j: "first + S_threshold \<le> j \<and> j < lasti"
      show "\<exists>i. first \<le> i \<and> i < first + S_threshold \<and> key (zs2 ! i) \<le> key (zs2 ! j)"
      proof (cases "j < c")
        case True
        with j z2(5) show ?thesis by simp
      next
        case False
        then have cj: "c \<le> j" "j < lasti" using j by simp_all
        have "zs2 ! j = zs1 ! j" using z2(4) cj by simp
        moreover from range_elem [OF z1(2,3,4) _ _ cj] p(3,4) Suc.prems(2)
        obtain j' where j': "c \<le> j'" "j' < lasti" "zs1 ! j = ys ! j'" by auto
        ultimately have a: "zs2 ! j = ys ! j'" by simp
        have fc: "first \<le> first" "first < c" using p(2) by simp_all
        from range_elem [OF z2(2,3,4) _ _ fc] p(2,3,4) z1(2) Suc.prems(2)
        obtain i' where i': "first \<le> i'" "i' < c" "zs2 ! first = zs1 ! i'" by auto
        have "zs1 ! i' = ys ! i'" using z1(4) i'(2) by simp
        with i' have b: "zs2 ! first = ys ! i'" by simp
        have "key (ys ! i') \<le> key (ys ! j')" using p(7) i' j' by blast
        then have "key (zs2 ! first) \<le> key (zs2 ! j)" by (simp add: a b)
        then show ?thesis
          by (intro exI [of _ first]) (simp add: S_threshold_def)
      qed
    qed
    from p z1 z2 out R True show ?thesis by simp
  qed
qed

lemma heap_desc_le: "heap_desc t h \<Longrightarrow> t \<le> h"
  by (induction rule: heap_desc.induct) auto

lemma heap_desc_parent: "heap_desc t h \<Longrightarrow> t < h \<Longrightarrow> heap_desc t ((h - 1) div 2)"
  by (induction rule: heap_desc.induct) auto

lemma heap_desc_parent_le: "heap_desc t h \<Longrightarrow> t < h \<Longrightarrow> t \<le> (h - 1) div 2"
  using heap_desc_parent heap_desc_le by blast

lemma mset_hole_move:
  assumes "a < length xs" "b < length xs"
  shows "mset (xs[a := xs ! b, b := v]) = mset (xs[a := v])"
proof (cases "a = b")
  case True
  then show ?thesis by simp
next
  case False
  let ?ws = "xs[a := v]"
  have "xs[a := xs ! b, b := v] = ?ws[b := ?ws ! a, a := ?ws ! b]"
    using assms False by (intro nth_equalityI) (auto simp: nth_list_update)
  moreover have "mset (?ws[b := ?ws ! a, a := ?ws ! b]) = mset ?ws"
    using assms by (intro mset_swap) simp_all
  ultimately show ?thesis by simp
qed


lemma nth_upd_off:
  "first + h < length xs \<Longrightarrow>
   xs[first + h := v] ! (first + i) = (if i = h then v else xs ! (first + i))"
  by (simp add: nth_list_update)

lemma sift_down_step:
  assumes inv: "hole_inv key xs first len t h"
    and c: "0 < c" "c < len" "(c - 1) div 2 = h"
    and gr: "\<forall>s. 0 < s \<and> s < len \<and> (s - 1) div 2 = h \<longrightarrow> key (xs ! (first + s)) \<le> key (xs ! (first + c))"
  shows "hole_inv key (xs[first + h := xs ! (first + c)]) first len t c"
proof -
  let ?xs = "xs[first + h := xs ! (first + c)]"
  from inv have d: "heap_desc t h" and hl: "h < len" and fl: "first + len \<le> length xs"
    and H: "\<forall>i. 0 < i \<and> i < len \<and> t \<le> (i - 1) div 2 \<and> i \<noteq> h \<and> (i - 1) div 2 \<noteq> h \<longrightarrow>
           key (xs ! (first + i)) \<le> key (xs ! (first + (i - 1) div 2))"
    and S: "\<forall>c. 0 < c \<and> c < len \<and> (c - 1) div 2 = h \<and> t < h \<longrightarrow>
           key (xs ! (first + c)) \<le> key (xs ! (first + (h - 1) div 2))"
    by (simp_all add: hole_inv_def)
  have th: "t \<le> h" by (rule heap_desc_le [OF d])
  have hc: "h < c" using c by auto
  have fh: "first + h < length xs" using fl hl by simp
  note nth = nth_upd_off [OF fh]
  have dc: "heap_desc t c" by (rule heap_desc_child [OF d c(1,3)])
  have H': "\<forall>i. 0 < i \<and> i < len \<and> t \<le> (i - 1) div 2 \<and> i \<noteq> c \<and> (i - 1) div 2 \<noteq> c \<longrightarrow>
           key (?xs ! (first + i)) \<le> key (?xs ! (first + (i - 1) div 2))"
  proof (intro allI impI)
    fix i assume i: "0 < i \<and> i < len \<and> t \<le> (i - 1) div 2 \<and> i \<noteq> c \<and> (i - 1) div 2 \<noteq> c"
    then have pl: "(i - 1) div 2 < len" by auto
    show "key (?xs ! (first + i)) \<le> key (?xs ! (first + (i - 1) div 2))"
    proof (cases "i = h")
      case True
      with i have "t < h" by auto
      with S c have "key (xs ! (first + c)) \<le> key (xs ! (first + (h - 1) div 2))" by blast
      moreover have "(h - 1) div 2 \<noteq> h" using True i by auto
      ultimately show ?thesis using True i pl by (simp add: nth)
    next
      case False
      show ?thesis
      proof (cases "(i - 1) div 2 = h")
        case True
        with gr i have "key (xs ! (first + i)) \<le> key (xs ! (first + c))" by blast
        with True False i pl show ?thesis by (simp add: nth)
      next
        case F2: False
        with False i H have "key (xs ! (first + i)) \<le> key (xs ! (first + (i - 1) div 2))"
          by blast
        with F2 False i pl show ?thesis by (simp add: nth)
      qed
    qed
  qed
  have S': "\<forall>g. 0 < g \<and> g < len \<and> (g - 1) div 2 = c \<and> t < c \<longrightarrow>
           key (?xs ! (first + g)) \<le> key (?xs ! (first + (c - 1) div 2))"
  proof (intro allI impI)
    fix g assume g: "0 < g \<and> g < len \<and> (g - 1) div 2 = c \<and> t < c"
    then have "g \<noteq> h" "(g - 1) div 2 \<noteq> h" "t \<le> (g - 1) div 2" using hc th by auto
    with H g have "key (xs ! (first + g)) \<le> key (xs ! (first + c))" by auto
    with g c hl \<open>g \<noteq> h\<close> show "key (?xs ! (first + g)) \<le> key (?xs ! (first + (c - 1) div 2))"
      by (simp add: nth)
  qed
  from dc c(2) fl H' S' show ?thesis
    by (simp add: hole_inv_def)
qed

lemma sift_up_step:
  assumes k: "key (xs ! (first + (h - 1) div 2)) < key val"
    and inv: "hole_inv key xs first len t h" and th: "t < h"
    and below: "\<forall>c. 0 < c \<and> c < len \<and> (c - 1) div 2 = h \<longrightarrow> key (xs ! (first + c)) \<le> key val"
  shows "hole_inv key (xs[first + h := xs ! (first + (h - 1) div 2)]) first len t ((h - 1) div 2) \<and>
     (\<forall>c. 0 < c \<and> c < len \<and> (c - 1) div 2 = (h - 1) div 2 \<longrightarrow>
          key (xs[first + h := xs ! (first + (h - 1) div 2)] ! (first + c)) \<le> key val)"
proof -
  let ?p = "(h - 1) div 2"
  let ?xs = "xs[first + h := xs ! (first + ?p)]"
  from inv have d: "heap_desc t h" and hl: "h < len" and fl: "first + len \<le> length xs"
    and H: "\<forall>i. 0 < i \<and> i < len \<and> t \<le> (i - 1) div 2 \<and> i \<noteq> h \<and> (i - 1) div 2 \<noteq> h \<longrightarrow>
           key (xs ! (first + i)) \<le> key (xs ! (first + (i - 1) div 2))"
    and S: "\<forall>c. 0 < c \<and> c < len \<and> (c - 1) div 2 = h \<and> t < h \<longrightarrow>
           key (xs ! (first + c)) \<le> key (xs ! (first + (h - 1) div 2))"
    by (simp_all add: hole_inv_def)
  have ph: "?p < h" using th by auto
  have pl: "?p < len" using ph hl by simp
  have dp: "heap_desc t ?p" by (rule heap_desc_parent [OF d th])
  have tp: "t \<le> ?p" by (rule heap_desc_le [OF dp])
  have fh: "first + h < length xs" using fl hl by simp
  note nth = nth_upd_off [OF fh]
  have H': "\<forall>i. 0 < i \<and> i < len \<and> t \<le> (i - 1) div 2 \<and> i \<noteq> ?p \<and> (i - 1) div 2 \<noteq> ?p \<longrightarrow>
           key (?xs ! (first + i)) \<le> key (?xs ! (first + (i - 1) div 2))"
  proof (intro allI impI)
    fix i assume i: "0 < i \<and> i < len \<and> t \<le> (i - 1) div 2 \<and> i \<noteq> ?p \<and> (i - 1) div 2 \<noteq> ?p"
    then have "(i - 1) div 2 \<le> i - 1" "i - 1 < len" by auto
    then have "(i - 1) div 2 < len" by (rule le_less_trans)
    moreover have "i \<noteq> h" using i by auto
    ultimately have il: "(i - 1) div 2 < len" "i \<noteq> h" by simp_all
    show "key (?xs ! (first + i)) \<le> key (?xs ! (first + (i - 1) div 2))"
    proof (cases "(i - 1) div 2 = h")
      case True
      with S i th have "key (xs ! (first + i)) \<le> key (xs ! (first + ?p))" by blast
      with True i il show ?thesis by (simp add: nth)
    next
      case False
      with H i il have "key (xs ! (first + i)) \<le> key (xs ! (first + (i - 1) div 2))" by blast
      with False i il show ?thesis by (simp add: nth)
    qed
  qed
  have S': "\<forall>c. 0 < c \<and> c < len \<and> (c - 1) div 2 = ?p \<and> t < ?p \<longrightarrow>
           key (?xs ! (first + c)) \<le> key (?xs ! (first + (?p - 1) div 2))"
  proof (intro allI impI)
    fix c assume c: "0 < c \<and> c < len \<and> (c - 1) div 2 = ?p \<and> t < ?p"
    then have p0: "0 < ?p" by auto
    have pp: "(?p - 1) div 2 < ?p" using p0 by auto
    have tpp: "t \<le> (?p - 1) div 2" using heap_desc_parent_le [OF dp] c by simp
    have a: "key (xs ! (first + ?p)) \<le> key (xs ! (first + (?p - 1) div 2))"
      using H p0 pl tpp ph pp by auto
    have b: "?xs ! (first + (?p - 1) div 2) = xs ! (first + (?p - 1) div 2)"
      using pp ph pl by (simp add: nth)
    show "key (?xs ! (first + c)) \<le> key (?xs ! (first + (?p - 1) div 2))"
    proof (cases "c = h")
      case True
      with a b hl show ?thesis by (simp add: nth)
    next
      case False
      with c ph have "(c - 1) div 2 \<noteq> h" by auto
      with H c False tp have "key (xs ! (first + c)) \<le> key (xs ! (first + ?p))" by auto
      with a b c False show ?thesis by (simp add: nth)
    qed
  qed
  have B': "\<forall>c. 0 < c \<and> c < len \<and> (c - 1) div 2 = ?p \<longrightarrow> key (?xs ! (first + c)) \<le> key val"
  proof (intro allI impI)
    fix c assume c: "0 < c \<and> c < len \<and> (c - 1) div 2 = ?p"
    show "key (?xs ! (first + c)) \<le> key val"
    proof (cases "c = h")
      case True
      with k hl show ?thesis by (simp add: nth)
    next
      case False
      with c ph have "(c - 1) div 2 \<noteq> h" by auto
      with H c False tp have "key (xs ! (first + c)) \<le> key (xs ! (first + ?p))" by auto
      with k c False show ?thesis by (simp add: nth)
    qed
  qed
  from dp pl fl H' S' B' show ?thesis
    by (simp add: hole_inv_def)
qed

lemma sift_finish:
  assumes inv: "hole_inv key xs first len t h"
    and below: "\<forall>c. 0 < c \<and> c < len \<and> (c - 1) div 2 = h \<longrightarrow> key (xs ! (first + c)) \<le> key val"
    and stop: "t < h \<longrightarrow> key val \<le> key (xs ! (first + (h - 1) div 2))"
  shows "heap_from key (xs[first + h := val]) first len t"
proof -
  let ?xs = "xs[first + h := val]"
  from inv have d: "heap_desc t h" and hl: "h < len" and fl: "first + len \<le> length xs"
    and H: "\<forall>i. 0 < i \<and> i < len \<and> t \<le> (i - 1) div 2 \<and> i \<noteq> h \<and> (i - 1) div 2 \<noteq> h \<longrightarrow>
           key (xs ! (first + i)) \<le> key (xs ! (first + (i - 1) div 2))"
    by (simp_all add: hole_inv_def)
  have fh: "first + h < length xs" using fl hl by simp
  note nth = nth_upd_off [OF fh]
  show ?thesis
    unfolding heap_from_def
  proof (intro allI impI)
    fix i assume i: "0 < i \<and> i < len \<and> t \<le> (i - 1) div 2"
    then have il: "(i - 1) div 2 < len" "(i - 1) div 2 < i" by auto
    show "key (?xs ! (first + i)) \<le> key (?xs ! (first + (i - 1) div 2))"
    proof (cases "i = h")
      case True
      with i il have "t < h" by auto
      with stop True il hl show ?thesis by (simp add: nth)
    next
      case False
      show ?thesis
      proof (cases "(i - 1) div 2 = h")
        case True
        with below i False hl show ?thesis by (simp add: nth)
      next
        case F2: False
        with H i False il show ?thesis by (simp add: nth)
      qed
    qed
  qed
qed


lemma child_cases:
  fixes s h :: nat
  shows "0 < s \<Longrightarrow> (s - 1) div 2 = h \<Longrightarrow> s = 2 * h + 1 \<or> s = 2 * h + 2"
  by presburger

lemma no_child:
  fixes h len c :: nat
  shows "\<not> h < (len - 1) div 2 \<Longrightarrow> \<not> (len mod 2 = 0 \<and> 2 \<le> len \<and> h = (len - 2) div 2) \<Longrightarrow>
   0 < c \<Longrightarrow> c < len \<Longrightarrow> (c - 1) div 2 \<noteq> h"
  by presburger

lemma push_heap_ok:
  assumes k: "keyed lt key"
  shows "hole_inv key xs first len t h \<Longrightarrow>
     \<forall>c. 0 < c \<and> c < len \<and> (c - 1) div 2 = h \<longrightarrow> key (xs ! (first + c)) \<le> key val \<Longrightarrow>
     heap_from key (push_heap lt xs first h t val) first len t \<and>
     length (push_heap lt xs first h t val) = length xs \<and>
     mset (push_heap lt xs first h t val) = mset (xs[first + h := val]) \<and>
     (\<forall>j. j < first \<or> first + len \<le> j \<longrightarrow> push_heap lt xs first h t val ! j = xs ! j)"
proof (induction h arbitrary: xs rule: less_induct)
  case (less h)
  let ?p = "(h - 1) div 2"
  from less.prems(1) have hl: "h < len" and fl: "first + len \<le> length xs"
    by (simp_all add: hole_inv_def)
  show ?case
  proof (cases "t < h \<and> lt (xs ! (first + ?p)) val")
    case True
    then have th: "t < h" and kp: "key (xs ! (first + ?p)) < key val"
      using k by (simp_all add: keyed_def)
    let ?xs = "xs[first + h := xs ! (first + ?p)]"
    have ph: "?p < h" using th by auto
    from sift_up_step [OF kp less.prems(1) th less.prems(2)]
    have inv': "hole_inv key ?xs first len t ?p"
      and below': "\<forall>c. 0 < c \<and> c < len \<and> (c - 1) div 2 = ?p \<longrightarrow> key (?xs ! (first + c)) \<le> key val"
      by blast+
    note ih = less.IH [OF ph inv' below']
    have "mset (?xs[first + ?p := val]) = mset (xs[first + h := val])"
      using hl fl ph by (intro mset_hole_move) simp_all
    moreover have "\<forall>j. j < first \<or> first + len \<le> j \<longrightarrow> ?xs ! j = xs ! j"
      using hl by auto
    moreover have "push_heap lt xs first h t val = push_heap lt ?xs first ?p t val"
      using True by (subst push_heap.simps) simp
    ultimately show ?thesis using ih by simp
  next
    case False
    then have stop: "t < h \<longrightarrow> key val \<le> key (xs ! (first + ?p))"
      using k by (auto simp: keyed_def)
    have "push_heap lt xs first h t val = xs[first + h := val]"
      using False by (subst push_heap.simps) auto
    moreover have "\<forall>j. j < first \<or> first + len \<le> j \<longrightarrow> xs[first + h := val] ! j = xs ! j"
      using hl by auto
    ultimately show ?thesis
      using sift_finish [OF less.prems(1,2) stop] by simp
  qed
qed

lemma adjust_heap_loop_ok:
  assumes k: "keyed lt key"
  shows "hole_inv key xs first len t h \<Longrightarrow>
     \<exists>ys h'. adjust_heap_loop lt xs first h len h = (ys, h', h') \<and>
        hole_inv key ys first len t h' \<and> \<not> h' < (len - 1) div 2 \<and> length ys = length xs \<and>
        mset (ys[first + h' := val]) = mset (xs[first + h := val]) \<and>
        (\<forall>j. j < first \<or> first + len \<le> j \<longrightarrow> ys ! j = xs ! j)"
proof (induction "len - h" arbitrary: xs h rule: less_induct)
  case less
  from less.prems have hl: "h < len" and fl: "first + len \<le> length xs"
    by (simp_all add: hole_inv_def)
  show ?case
  proof (cases "h < (len - 1) div 2")
    case False
    then have "adjust_heap_loop lt xs first h len h = (xs, h, h)"
      by (subst adjust_heap_loop.simps) simp
    with False less.prems show ?thesis by simp
  next
    case True
    let ?c1 = "2 * h + 1" and ?c2 = "2 * h + 2"
    let ?c = "if lt (xs ! (first + ?c2)) (xs ! (first + ?c1)) then ?c1 else ?c2"
    let ?xs = "xs[first + h := xs ! (first + ?c)]"
    have c2: "?c2 < len" using True by presburger
    have c: "0 < ?c" "?c < len" "(?c - 1) div 2 = h" using c2 by auto
    have gr: "\<forall>s. 0 < s \<and> s < len \<and> (s - 1) div 2 = h \<longrightarrow>
        key (xs ! (first + s)) \<le> key (xs ! (first + ?c))"
    proof (intro allI impI)
      fix s assume s: "0 < s \<and> s < len \<and> (s - 1) div 2 = h"
      then have "s = ?c1 \<or> s = ?c2" using child_cases by blast
      then show "key (xs ! (first + s)) \<le> key (xs ! (first + ?c))"
        using k by (auto simp: keyed_def)
    qed
    from sift_down_step [OF less.prems c gr]
    have inv': "hole_inv key ?xs first len t ?c" .
    have m: "len - ?c < len - h" using c hl by auto
    from less.hyps [OF m inv'] obtain ys h' where r:
      "adjust_heap_loop lt ?xs first ?c len ?c = (ys, h', h')"
      "hole_inv key ys first len t h'" "\<not> h' < (len - 1) div 2" "length ys = length ?xs"
      "mset (ys[first + h' := val]) = mset (?xs[first + ?c := val])"
      "\<forall>j. j < first \<or> first + len \<le> j \<longrightarrow> ys ! j = ?xs ! j"
      by blast
    have "mset (?xs[first + ?c := val]) = mset (xs[first + h := val])"
      using hl fl c(2) by (intro mset_hole_move) simp_all
    moreover have "\<forall>j. j < first \<or> first + len \<le> j \<longrightarrow> ?xs ! j = xs ! j"
      using hl by auto
    moreover have "adjust_heap_loop lt xs first h len h = adjust_heap_loop lt ?xs first ?c len ?c"
      using True by (subst adjust_heap_loop.simps) (simp add: Let_def)
    ultimately show ?thesis using r by simp
  qed
qed

lemma adjust_heap_ok:
  assumes k: "keyed lt key" and inv: "hole_inv key xs first len t t"
  shows "heap_from key (adjust_heap lt xs first t len val) first len t \<and>
     length (adjust_heap lt xs first t len val) = length xs \<and>
     mset (adjust_heap lt xs first t len val) = mset (xs[first + t := val]) \<and>
     (\<forall>j. j < first \<or> first + len \<le> j \<longrightarrow> adjust_heap lt xs first t len val ! j = xs ! j)"
proof -
  from adjust_heap_loop_ok [OF k inv, of val] obtain ys h where r:
    "adjust_heap_loop lt xs first t len t = (ys, h, h)"
    "hole_inv key ys first len t h" "\<not> h < (len - 1) div 2" "length ys = length xs"
    "mset (ys[first + h := val]) = mset (xs[first + t := val])"
    "\<forall>j. j < first \<or> first + len \<le> j \<longrightarrow> ys ! j = xs ! j"
    by blast
  from r(2) have hl: "h < len" and fl: "first + len \<le> length ys"
    by (simp_all add: hole_inv_def)
  show ?thesis
  proof (cases "len mod 2 = 0 \<and> 2 \<le> len \<and> h = (len - 2) div 2")
    case True
    let ?c = "2 * (h + 1) - 1"
    let ?ys = "ys[first + h := ys ! (first + ?c)]"
    have c: "0 < ?c" "?c < len" "(?c - 1) div 2 = h" using True by presburger+
    have gr: "\<forall>s. 0 < s \<and> s < len \<and> (s - 1) div 2 = h \<longrightarrow>
        key (ys ! (first + s)) \<le> key (ys ! (first + ?c))"
    proof (intro allI impI)
      fix s assume s: "0 < s \<and> s < len \<and> (s - 1) div 2 = h"
      then have "s = 2 * h + 1 \<or> s = 2 * h + 2" using child_cases by blast
      moreover have "2 * h + 2 = len" using True by presburger
      ultimately have "s = ?c" using s by auto
      then show "key (ys ! (first + s)) \<le> key (ys ! (first + ?c))" by simp
    qed
    from sift_down_step [OF r(2) c gr] have inv': "hole_inv key ?ys first len t ?c" .
    have below: "\<forall>g. 0 < g \<and> g < len \<and> (g - 1) div 2 = ?c \<longrightarrow> key (?ys ! (first + g)) \<le> key val"
      using True by presburger
    note p = push_heap_ok [OF k inv' below]
    have "mset (?ys[first + ?c := val]) = mset (ys[first + h := val])"
      using hl fl c(2) by (intro mset_hole_move) simp_all
    moreover have "\<forall>j. j < first \<or> first + len \<le> j \<longrightarrow> ?ys ! j = ys ! j"
      using hl by auto
    moreover have "adjust_heap lt xs first t len val = push_heap lt ?ys first ?c t val"
      using True r(1) by (simp add: adjust_heap_def)
    ultimately show ?thesis using p r by simp
  next
    case False
    have below: "\<forall>g. 0 < g \<and> g < len \<and> (g - 1) div 2 = h \<longrightarrow> key (ys ! (first + g)) \<le> key val"
      using no_child [OF r(3) False] by blast
    note p = push_heap_ok [OF k r(2) below]
    have "adjust_heap lt xs first t len val = push_heap lt ys first h t val"
      using False r(1) by (auto simp: adjust_heap_def)
    then show ?thesis using p r by simp
  qed
qed


lemma heap_hole_inv:
  "heap_from key xs first len (Suc t) \<Longrightarrow> t < len \<Longrightarrow> first + len \<le> length xs \<Longrightarrow>
   hole_inv key xs first len t t"
  by (auto simp: heap_from_def hole_inv_def intro: heap_desc_top)

lemma make_heap_loop_ok:
  assumes k: "keyed lt key" and fl: "first + len \<le> length xs0"
  shows "heap_from key xs first len (Suc p) \<Longrightarrow> p < len \<Longrightarrow> length xs = length xs0 \<Longrightarrow>
     heap_from key (make_heap_loop lt xs first len p) first len 0 \<and>
     length (make_heap_loop lt xs first len p) = length xs \<and>
     mset (make_heap_loop lt xs first len p) = mset xs \<and>
     (\<forall>j. j < first \<or> first + len \<le> j \<longrightarrow> make_heap_loop lt xs first len p ! j = xs ! j)"
proof (induction p arbitrary: xs)
  case 0
  have inv: "hole_inv key xs first len 0 0"
    using 0 fl by (intro heap_hole_inv) simp_all
  from adjust_heap_ok [OF k inv, where val = "xs ! first"] show ?case by simp
next
  case (Suc p)
  let ?ys = "adjust_heap lt xs first (Suc p) len (xs ! (first + Suc p))"
  have inv: "hole_inv key xs first len (Suc p) (Suc p)"
    using Suc.prems fl by (intro heap_hole_inv) simp_all
  from adjust_heap_ok [OF k inv, where val = "xs ! (first + Suc p)"]
  have a: "heap_from key ?ys first len (Suc p)" "length ?ys = length xs" "mset ?ys = mset xs"
    "\<forall>j. j < first \<or> first + len \<le> j \<longrightarrow> ?ys ! j = xs ! j"
    by simp_all
  from Suc.IH [OF a(1)] Suc.prems a(2)
  have "heap_from key (make_heap_loop lt ?ys first len p) first len 0 \<and>
     length (make_heap_loop lt ?ys first len p) = length ?ys \<and>
     mset (make_heap_loop lt ?ys first len p) = mset ?ys \<and>
     (\<forall>j. j < first \<or> first + len \<le> j \<longrightarrow> make_heap_loop lt ?ys first len p ! j = ?ys ! j)"
    by simp
  with a show ?case by simp
qed

lemma heap_from_vacuous:
  fixes len :: nat
  shows "2 \<le> len \<Longrightarrow> heap_from key xs first len (Suc ((len - 2) div 2))"
  unfolding heap_from_def by presburger

lemma make_heap_ok:
  assumes k: "keyed lt key" and fl: "first \<le> lasti" "lasti \<le> length xs"
  shows "heap_from key (make_heap lt xs first lasti) first (lasti - first) 0 \<and>
     length (make_heap lt xs first lasti) = length xs \<and>
     mset (make_heap lt xs first lasti) = mset xs \<and>
     (\<forall>j. j < first \<or> lasti \<le> j \<longrightarrow> make_heap lt xs first lasti ! j = xs ! j)"
proof (cases "lasti - first < 2")
  case True
  then have "heap_from key xs first (lasti - first) 0"
    by (auto simp: heap_from_def)
  with True show ?thesis by (simp add: make_heap_def)
next
  case False
  let ?len = "lasti - first"
  have l: "first + ?len \<le> length xs" "first + ?len = lasti" using fl by simp_all
  have h: "heap_from key xs first ?len (Suc ((?len - 2) div 2))"
    using False by (intro heap_from_vacuous) simp
  have p: "(?len - 2) div 2 < ?len" using False by simp
  from make_heap_loop_ok [OF k l(1) h p] False l(2) show ?thesis
    by (simp add: make_heap_def)
qed

lemma root_max:
  assumes h: "heap_from key xs first len 0"
  shows "i < len \<Longrightarrow> key (xs ! (first + i)) \<le> key (xs ! first)"
proof (induction i rule: less_induct)
  case (less i)
  show ?case
  proof (cases "i = 0")
    case True
    then show ?thesis by simp
  next
    case False
    then have p: "(i - 1) div 2 < i" by auto
    with less.prems have "(i - 1) div 2 < len" by simp
    from less.IH [OF p this] have "key (xs ! (first + (i - 1) div 2)) \<le> key (xs ! first)" .
    moreover have "key (xs ! (first + i)) \<le> key (xs ! (first + (i - 1) div 2))"
      using h False less.prems by (simp add: heap_from_def)
    ultimately show ?thesis by (rule order_trans [rotated])
  qed
qed


lemma sort_heap_ok:
  assumes k: "keyed lt key" and n0: "n0 \<le> length xs0"
  shows "first \<le> l \<Longrightarrow> l \<le> n0 \<Longrightarrow> length xs = length xs0 \<Longrightarrow>
     heap_from key xs first (l - first) 0 \<Longrightarrow>
     \<forall>i j. l \<le> i \<and> i \<le> j \<and> j < n0 \<longrightarrow> key (xs ! i) \<le> key (xs ! j) \<Longrightarrow>
     \<forall>i j. first \<le> i \<and> i < l \<and> l \<le> j \<and> j < n0 \<longrightarrow> key (xs ! i) \<le> key (xs ! j) \<Longrightarrow>
     length (sort_heap lt xs first l) = length xs \<and>
     mset (sort_heap lt xs first l) = mset xs \<and>
     (\<forall>j. j < first \<or> n0 \<le> j \<longrightarrow> sort_heap lt xs first l ! j = xs ! j) \<and>
     (\<forall>i j. first \<le> i \<and> i \<le> j \<and> j < n0 \<longrightarrow>
        key (sort_heap lt xs first l ! i) \<le> key (sort_heap lt xs first l ! j))"
proof (induction l arbitrary: xs rule: less_induct)
  case (less l)
  note so = less.prems(5) and cr = less.prems(6)
  have len: "n0 \<le> length xs" using n0 less.prems(3) by simp
  show ?case
  proof (cases "1 < l - first")
    case False
    have "\<forall>i j. first \<le> i \<and> i \<le> j \<and> j < n0 \<longrightarrow> key (xs ! i) \<le> key (xs ! j)"
    proof (intro allI impI)
      fix i j assume ij: "first \<le> i \<and> i \<le> j \<and> j < n0"
      then consider "i = j" | "l \<le> i" | "i < l" "l \<le> j" "i \<noteq> j"
        using False by linarith
      then show "key (xs ! i) \<le> key (xs ! j)"
      proof cases
        case 1
        then show ?thesis by simp
      next
        case 2
        with so ij show ?thesis by blast
      next
        case 3
        with cr ij show ?thesis by blast
      qed
    qed
    moreover have "sort_heap lt xs first l = xs"
      using False by (subst sort_heap.simps) simp
    ultimately show ?thesis by simp
  next
    case True
    let ?l = "l - 1"
    let ?len = "?l - first"
    let ?xs1 = "xs[?l := xs ! first]"
    let ?zs = "?xs1[first := xs ! ?l]"
    let ?ys = "adjust_heap lt ?xs1 first 0 ?len (xs ! ?l)"
    have b: "first < ?l" "?l < l" "?l < length xs" "first + ?len = ?l" "0 < ?len"
      using True less.prems(2) len by simp_all
    have h1: "heap_from key ?xs1 first ?len (Suc 0)"
      using less.prems(4) b unfolding heap_from_def by auto
    have inv: "hole_inv key ?xs1 first ?len 0 0"
      using h1 b by (intro heap_hole_inv) simp_all
    from adjust_heap_ok [OF k inv, where val = "xs ! ?l"]
    have a: "heap_from key ?ys first ?len 0" "length ?ys = length xs" "mset ?ys = mset ?zs"
      "\<forall>j. j < first \<or> ?l \<le> j \<longrightarrow> ?ys ! j = ?xs1 ! j"
      using b(4) by simp_all
    have mz: "mset ?zs = mset xs"
      using b by (intro mset_swap) simp_all
    have yl: "?ys ! ?l = xs ! first" using a(4) b by simp
    have yo: "?ys ! j = xs ! j" if "j < first \<or> l \<le> j" for j
      using a(4) that b by auto
    have el: "\<exists>i'. first \<le> i' \<and> i' < l \<and> ?ys ! i = xs ! i'" if "first \<le> i" "i < ?l" for i
    proof -
      have o: "\<forall>j. j < first \<or> ?l \<le> j \<longrightarrow> ?ys ! j = ?zs ! j"
        using a(4) b by auto
      have lz: "length ?ys = length ?zs" using a(2) by simp
      from range_elem [OF lz a(3) o _ _ that] b
      obtain i' where i': "first \<le> i'" "i' < ?l" "?ys ! i = ?zs ! i'" by auto
      show ?thesis
      proof (cases "i' = first")
        case True
        with i' b have "?ys ! i = xs ! ?l" by simp
        with b show ?thesis by (intro exI [of _ ?l]) simp
      next
        case False
        with i' b have "?ys ! i = xs ! i'" by simp
        with i' show ?thesis by (intro exI [of _ i']) simp
      qed
    qed
    have so': "\<forall>i j. ?l \<le> i \<and> i \<le> j \<and> j < n0 \<longrightarrow> key (?ys ! i) \<le> key (?ys ! j)"
    proof (intro allI impI)
      fix i j assume ij: "?l \<le> i \<and> i \<le> j \<and> j < n0"
      then consider "i = j" | "i = ?l" "l \<le> j" | "l \<le> i" by linarith
      then show "key (?ys ! i) \<le> key (?ys ! j)"
      proof cases
        case 1
        then show ?thesis by simp
      next
        case 2
        have "key (xs ! first) \<le> key (xs ! j)" using cr 2 ij b by auto
        with 2 yl yo [of j] show ?thesis by simp
      next
        case 3
        with so ij have "key (xs ! i) \<le> key (xs ! j)" by blast
        with 3 ij yo [of i] yo [of j] show ?thesis by simp
      qed
    qed
    have cr': "\<forall>i j. first \<le> i \<and> i < ?l \<and> ?l \<le> j \<and> j < n0 \<longrightarrow> key (?ys ! i) \<le> key (?ys ! j)"
    proof (intro allI impI)
      fix i j assume ij: "first \<le> i \<and> i < ?l \<and> ?l \<le> j \<and> j < n0"
      with el [of i] obtain i' where i': "first \<le> i'" "i' < l" "?ys ! i = xs ! i'" by auto
      show "key (?ys ! i) \<le> key (?ys ! j)"
      proof (cases "j = ?l")
        case True
        have "key (xs ! (first + (i' - first))) \<le> key (xs ! first)"
          using i' by (intro root_max [OF less.prems(4)]) simp
        with i' True yl show ?thesis by simp
      next
        case False
        with ij have lj: "l \<le> j" by linarith
        with cr i' ij have "key (xs ! i') \<le> key (xs ! j)" by blast
        with i' yo [of j] lj show ?thesis by simp
      qed
    qed
    have fl': "first \<le> ?l" "?l \<le> n0" using b less.prems(2) by simp_all
    have ly: "length ?ys = length xs0" using a(2) less.prems(3) by simp
    note ih = less.IH [OF b(2) fl' ly a(1) so' cr']
    have "sort_heap lt xs first l = sort_heap lt ?ys first ?l"
      using True by (subst sort_heap.simps) (simp add: pop_heap_def)
    moreover have "\<forall>j. j < first \<or> n0 \<le> j \<longrightarrow> ?ys ! j = xs ! j"
      using yo less.prems(2) by auto
    ultimately show ?thesis
      using ih a(2,3) mz by simp
  qed
qed

lemma partial_sort_ok:
  assumes k: "keyed lt key" and fl: "first < lasti" "lasti \<le> length xs"
  shows "length (partial_sort lt xs first lasti lasti) = length xs \<and>
       mset (partial_sort lt xs first lasti lasti) = mset xs \<and>
       (\<forall>i. i < first \<or> lasti \<le> i \<longrightarrow> partial_sort lt xs first lasti lasti ! i = xs ! i) \<and>
       (\<forall>i j. first \<le> i \<and> i \<le> j \<and> j < lasti \<longrightarrow>
          key (partial_sort lt xs first lasti lasti ! i) \<le>
          key (partial_sort lt xs first lasti lasti ! j))"
proof -
  let ?ys = "make_heap lt xs first lasti"
  have f: "first \<le> lasti" using fl by simp
  from make_heap_ok [OF k f fl(2)]
  have m: "heap_from key ?ys first (lasti - first) 0" "length ?ys = length xs" "mset ?ys = mset xs"
    "\<forall>j. j < first \<or> lasti \<le> j \<longrightarrow> ?ys ! j = xs ! j"
    by simp_all
  have p: "partial_sort lt xs first lasti lasti = sort_heap lt ?ys first lasti"
    by (simp add: partial_sort_def heap_select_def heap_select_loop.simps)
  have "length (sort_heap lt ?ys first lasti) = length ?ys \<and>
     mset (sort_heap lt ?ys first lasti) = mset ?ys \<and>
     (\<forall>j. j < first \<or> lasti \<le> j \<longrightarrow> sort_heap lt ?ys first lasti ! j = ?ys ! j) \<and>
     (\<forall>i j. first \<le> i \<and> i \<le> j \<and> j < lasti \<longrightarrow>
        key (sort_heap lt ?ys first lasti ! i) \<le> key (sort_heap lt ?ys first lasti ! j))"
    using f m(1,2) by (intro sort_heap_ok [OF k fl(2)]) auto
  with m show ?thesis unfolding p by simp
qed

lemma gnu_sort_ok:
  assumes k: "keyed lt key"
  shows "\<exists>ys. gnu_sort lt xs = Some ys \<and> mset ys = mset xs \<and> sorted (map key ys)"
proof (cases "xs = []")
  case True
  then show ?thesis by (simp add: gnu_sort_def)
next
  case False
  have "\<exists>zs. introsort_loop lt xs 0 (length xs) (lg (length xs) * 2) = Some zs \<and>
          length zs = length xs \<and> mset zs = mset xs \<and>
          (\<forall>i. i < 0 \<or> length xs \<le> i \<longrightarrow> zs ! i = xs ! i) \<and>
          (\<forall>j. 0 + S_threshold \<le> j \<and> j < length xs \<longrightarrow>
             (\<exists>i. 0 \<le> i \<and> i < 0 + S_threshold \<and> key (zs ! i) \<le> key (zs ! j)))"
    by (rule introsort_loop_ok [OF k partial_sort_ok [OF k]]) simp_all
  then obtain zs where z: "introsort_loop lt xs 0 (length xs) (lg (length xs) * 2) = Some zs"
    "length zs = length xs" "mset zs = mset xs"
    "\<forall>j. S_threshold \<le> j \<and> j < length xs \<longrightarrow>
       (\<exists>i. i < S_threshold \<and> key (zs ! i) \<le> key (zs ! j))"
    by auto
  have q: "\<forall>x \<in> set (drop S_threshold zs). \<exists>y \<in> set (take S_threshold zs). key y \<le> key x"
  proof
    fix x assume "x \<in> set (drop S_threshold zs)"
    then obtain m where m: "m < length zs - S_threshold" "x = zs ! (S_threshold + m)"
      by (auto simp: in_set_conv_nth)
    then have "S_threshold \<le> S_threshold + m \<and> S_threshold + m < length xs"
      using z(2) by simp
    with z(4) obtain i where i: "i < S_threshold" "key (zs ! i) \<le> key (zs ! (S_threshold + m))"
      by blast
    have "i < length zs" using i(1) m(1) by simp
    then have "zs ! i \<in> set (take S_threshold zs)"
      using i(1) by (metis length_take min_less_iff_conj nth_mem nth_take)
    with i m show "\<exists>y \<in> set (take S_threshold zs). key y \<le> key x" by blast
  qed
  from final_insertion_sort_ok [OF k q] z(2,3)
  obtain ys where "final_insertion_sort lt zs 0 (length xs) = Some ys" "mset ys = mset xs"
    "sorted (map key ys)"
    by auto
  with z(1) False show ?thesis by (simp add: gnu_sort_def)
qed


lemma std_sort_conforms:
  assumes k: "keyed lt key"
  shows "std_sort_ok lt (std_sort lt)"
  unfolding std_sort_ok_def
proof
  fix xs
  from gnu_sort_ok [OF k, of xs] obtain ys where ys: "gnu_sort lt xs = Some ys"
    "mset ys = mset xs" "sorted (map key ys)"
    by blast
  have "(\<lambda>a b. \<not> lt b a) = (\<lambda>a b. key a \<le> key b)"
    using k by (auto simp: keyed_def fun_eq_iff)
  with ys show "mset (std_sort lt xs) = mset xs \<and> sorted_wrt (\<lambda>a b. \<not> lt b a) (std_sort lt xs)"
    by (simp add: std_sort_def sorted_map)
qed

lemma std_sort_Func_ok: "std_sort_ok FuncLessThan (std_sort FuncLessThan)"
  by (rule std_sort_conforms [where key = addr]) (simp add: keyed_def FuncLessThan_def)

lemma std_sort_Block_ok: "std_sort_ok BlockLessThan (std_sort BlockLessThan)"
  by (rule std_sort_conforms [where key = start]) (simp add: keyed_def BlockLessThan_def)

lemma std_sort_Edge_ok: "std_sort_ok EdgeLessThan (std_sort EdgeLessThan)"
  by (rule std_sort_conforms [where key = "\<lambda>e. start (trg e)"]) (simp add: keyed_def EdgeLessThan_def)

lemma dump_order:
  assumes "std_sort_ok FuncLessThan srt_f" and "std_sort_ok BlockLessThan srt_b"
    and "std_sort_ok EdgeLessThan srt_e"
  shows
    "func_items (main_dump srt_f srt_b srt_e eng opts funcList) = srt_f funcList \<and>
     address_ordered addr funcList (func_items (main_dump srt_f srt_b srt_e eng opts funcList)) \<and>
     block_items (doFunction_cfg srt_f srt_b srt_e eng opts func) =
       (if show_blocks opts then srt_b (blocks func) else []) \<and>
     (show_blocks opts \<longrightarrow>
        address_ordered start (blocks func)
          (block_items (doFunction_cfg srt_f srt_b srt_e eng opts func))) \<and>
     edge_items (doBlock_cfg srt_f srt_e eng opts block) =
       (if show_blocks opts then [srt_e (targets eng block)] else []) \<and>
     (\<forall>es \<in> set (edge_items (doBlock_cfg srt_f srt_e eng opts block)).
        address_ordered (\<lambda>e. start (trg e)) (targets eng block) es)"
proof -
  have f: "address_ordered addr funcList (srt_f funcList)"
    by (rule std_sort_ok_ordered [OF assms(1)]) (simp add: FuncLessThan_def)
  have b: "address_ordered start (blocks func) (srt_b (blocks func))"
    by (rule std_sort_ok_ordered [OF assms(2)]) (simp add: BlockLessThan_def)
  have e: "address_ordered (\<lambda>e. start (trg e)) (targets eng block) (srt_e (targets eng block))"
    by (rule std_sort_ok_ordered [OF assms(3)]) (simp add: EdgeLessThan_def)
  have m: "func_items (main_dump srt_f srt_b srt_e eng opts funcList) = srt_f funcList"
    by (simp add: main_dump_def func_items_funcs)
  from f b e m show ?thesis
    by (simp add: items_doFunction_cfg items_doBlock_cfg)
qed


text \<open>
  Claim C7, as amended: with any sorting routine that keeps the promise of \<^verbatim>\<open>std::sort\<close>,
  the function headers of the dump are the sorted function vector, the block headers of a
  function are its sorted block vector and the edge record of a block holds its sorted
  out edges (the latter two when blocks are shown). The function headers of the dump,
  the block headers of a function and the edges of a block's record have the elements of
  the engine's collection, their keys (entry address, start address, start address of
  the target) never decrease, and of two elements with different keys the one with the
  smaller key comes first. Nothing is stated about the order of elements with equal keys.

  The routine of the GNU C++ library is such a routine: on the three vectors it stays
  inside the vector, and the dump made with it is ordered in this way.
\<close>

theorem canonical_order:
  assumes "std_sort_ok FuncLessThan srt_f" and "std_sort_ok BlockLessThan srt_b"
    and "std_sort_ok EdgeLessThan srt_e"
  shows
    "func_items (main_dump srt_f srt_b srt_e eng opts funcList) = srt_f funcList \<and>
     address_ordered addr funcList (func_items (main_dump srt_f srt_b srt_e eng opts funcList)) \<and>
     block_items (doFunction_cfg srt_f srt_b srt_e eng opts func) =
       (if show_blocks opts then srt_b (blocks func) else []) \<and>
     (show_blocks opts \<longrightarrow>
        address_ordered start (blocks func)
          (block_items (doFunction_cfg srt_f srt_b srt_e eng opts func))) \<and>
     edge_items (doBlock_cfg srt_f srt_e eng opts block) =
       (if show_blocks opts then [srt_e (targets eng block)] else []) \<and>
     (\<forall>es \<in> set (edge_items (doBlock_cfg srt_f srt_e eng opts block)).
        address_ordered (\<lambda>e. start (trg e)) (targets eng block) es) \<and>
     gnu_sort FuncLessThan funcList \<noteq> None \<and>
     gnu_sort BlockLessThan (blocks func) \<noteq> None \<and>
     gnu_sort EdgeLessThan (targets eng block) \<noteq> None \<and>
     address_ordered addr funcList
       (func_items (main_dump (std_sort FuncLessThan) (std_sort BlockLessThan)
          (std_sort EdgeLessThan) eng opts funcList)) \<and>
     (show_blocks opts \<longrightarrow>
        address_ordered start (blocks func)
          (block_items (doFunction_cfg (std_sort FuncLessThan) (std_sort BlockLessThan)
             (std_sort EdgeLessThan) eng opts func))) \<and>
     (\<forall>es \<in> set (edge_items (doBlock_cfg (std_sort FuncLessThan) (std_sort EdgeLessThan)
                       eng opts block)).
        address_ordered (\<lambda>e. start (trg e)) (targets eng block) es)"
proof -
  note any = dump_order [OF assms, of eng opts funcList func block]
  note gnu = dump_order [OF std_sort_Func_ok std_sort_Block_ok std_sort_Edge_ok,
    of eng opts funcList func block]
  have f: "gnu_sort FuncLessThan funcList \<noteq> None"
    using gnu_sort_ok [of FuncLessThan addr funcList] by (auto simp: keyed_def FuncLessThan_def)
  have b: "gnu_sort BlockLessThan (blocks func) \<noteq> None"
    using gnu_sort_ok [of BlockLessThan start "blocks func"]
    by (auto simp: keyed_def BlockLessThan_def)
  have e: "gnu_sort EdgeLessThan (targets eng block) \<noteq> None"
    using gnu_sort_ok [of EdgeLessThan "\<lambda>e. start (trg e)" "targets eng block"]
    by (auto simp: keyed_def EdgeLessThan_def)
  from any gnu f b e show ?thesis by blast
qed

theorem canonical_order_witness:
  "func_items (main_dump (std_sort FuncLessThan) (std_sort BlockLessThan) (std_sort EdgeLessThan)
      \<lparr>getContainingInlinedFunction = \<lambda>a. None, getLineMapInfo = \<lambda>a. [],
       targets = \<lambda>b. [\<lparr>trg = \<lparr>start = 0x2040, end_addr = 0x2050, insns = []\<rparr>, etype = COND_TAKEN,
                        interproc = False\<rparr>,
                      \<lparr>trg = \<lparr>start = 0x2010, end_addr = 0x2020, insns = []\<rparr>, etype = COND_NOT_TAKEN,
                        interproc = False\<rparr>],
       getFuncs = \<lambda>b. []\<rparr>
      default_opts_cfg
      [\<lparr>addr = 0x2000, name = ''g'',
        blocks = [\<lparr>start = 0x2010, end_addr = 0x2020, insns = []\<rparr>,
                  \<lparr>start = 0x2000, end_addr = 0x2010, insns = []\<rparr>]\<rparr>,
       \<lparr>addr = 0x1000, name = ''f'', blocks = []\<rparr>]) =
     [\<lparr>addr = 0x1000, name = ''f'', blocks = []\<rparr>,
      \<lparr>addr = 0x2000, name = ''g'',
        blocks = [\<lparr>start = 0x2010, end_addr = 0x2020, insns = []\<rparr>,
                  \<lparr>start = 0x2000, end_addr = 0x2010, insns = []\<rparr>]\<rparr>] \<and>
   block_items (doFunction_cfg (std_sort FuncLessThan) (std_sort BlockLessThan) (std_sort EdgeLessThan)
      \<lparr>getContainingInlinedFunction = \<lambda>a. None, getLineMapInfo = \<lambda>a. [],
       targets = \<lambda>b. [\<lparr>trg = \<lparr>start = 0x2040, end_addr = 0x2050, insns = []\<rparr>, etype = COND_TAKEN,
                        interproc = False\<rparr>,
                      \<lparr>trg = \<lparr>start = 0x2010, end_addr = 0x2020, insns = []\<rparr>, etype = COND_NOT_TAKEN,
                        interproc = False\<rparr>],
       getFuncs = \<lambda>b. []\<rparr>
      default_opts_cfg
      \<lparr>addr = 0x2000, name = ''g'',
        blocks = [\<lparr>start = 0x2010, end_addr = 0x2020, insns = []\<rparr>,
                  \<lparr>start = 0x2000, end_addr = 0x2010, insns = []\<rparr>]\<rparr>) =
     [\<lparr>start = 0x2000, end_addr = 0x2010, insns = []\<rparr>,
      \<lparr>start = 0x2010, end_addr = 0x2020, insns = []\<rparr>] \<and>
   edge_items (doBlock_cfg (std_sort FuncLessThan) (std_sort EdgeLessThan)
      \<lparr>getContainingInlinedFunction = \<lambda>a. None, getLineMapInfo = \<lambda>a. [],
       targets = \<lambda>b. [\<lparr>trg = \<lparr>start = 0x2040, end_addr = 0x2050, insns = []\<rparr>, etype = COND_TAKEN,
                        interproc = False\<rparr>,
                      \<lparr>trg = \<lparr>start = 0x2010, end_addr = 0x2020, insns = []\<rparr>, etype = COND_NOT_TAKEN,
                        interproc = False\<rparr>],
       getFuncs = \<lambda>b. []\<rparr>
      default_opts_cfg \<lparr>start = 0x2000, end_addr = 0x2010, insns = []\<rparr>) =
     [[\<lparr>trg = \<lparr>start = 0x2010, end_addr = 0x2020, insns = []\<rparr>, etype = COND_NOT_TAKEN,
        interproc = False\<rparr>,
       \<lparr>trg = \<lparr>start = 0x2040, end_addr = 0x2050, insns = []\<rparr>, etype = COND_TAKEN,
        interproc = False\<rparr>]]"
proof -
  have sf: "std_sort FuncLessThan
      [\<lparr>addr = 0x2000, name = ''g'',
        blocks = [\<lparr>start = 0x2010, end_addr = 0x2020, insns = []\<rparr>,
                  \<lparr>start = 0x2000, end_addr = 0x2010, insns = []\<rparr>]\<rparr>,
       \<lparr>addr = 0x1000, name = ''f'', blocks = []\<rparr>] =
     [\<lparr>addr = 0x1000, name = ''f'', blocks = []\<rparr>,
      \<lparr>addr = 0x2000, name = ''g'',
        blocks = [\<lparr>start = 0x2010, end_addr = 0x2020, insns = []\<rparr>,
                  \<lparr>start = 0x2000, end_addr = 0x2010, insns = []\<rparr>]\<rparr>]"
    by code_simp
  have sb: "std_sort BlockLessThan
      [\<lparr>start = 0x2010, end_addr = 0x2020, insns = []\<rparr>,
       \<lparr>start = 0x2000, end_addr = 0x2010, insns = []\<rparr>] =
     [\<lparr>start = 0x2000, end_addr = 0x2010, insns = []\<rparr>,
      \<lparr>start = 0x2010, end_addr = 0x2020, insns = []\<rparr>]"
    by code_simp
  have se: "std_sort EdgeLessThan
      [\<lparr>trg = \<lparr>start = 0x2040, end_addr = 0x2050, insns = []\<rparr>, etype = COND_TAKEN,
         interproc = False\<rparr>,
       \<lparr>trg = \<lparr>start = 0x2010, end_addr = 0x2020, insns = []\<rparr>, etype = COND_NOT_TAKEN,
         interproc = False\<rparr>] =
     [\<lparr>trg = \<lparr>start = 0x2010, end_addr = 0x2020, insns = []\<rparr>, etype = COND_NOT_TAKEN,
        interproc = False\<rparr>,
      \<lparr>trg = \<lparr>start = 0x2040, end_addr = 0x2050, insns = []\<rparr>, etype = COND_TAKEN,
        interproc = False\<rparr>]"
    by code_simp
  from canonical_order [OF std_sort_Func_ok std_sort_Block_ok std_sort_Edge_ok,
    where eng = "\<lparr>getContainingInlinedFunction = \<lambda>a. None, getLineMapInfo = \<lambda>a. [],
       targets = \<lambda>b. [\<lparr>trg = \<lparr>start = 0x2040, end_addr = 0x2050, insns = []\<rparr>, etype = COND_TAKEN,
                        interproc = False\<rparr>,
                      \<lparr>trg = \<lparr>start = 0x2010, end_addr = 0x2020, insns = []\<rparr>, etype = COND_NOT_TAKEN,
                        interproc = False\<rparr>],
       getFuncs = \<lambda>b. []\<rparr>"
    and opts = default_opts_cfg
    and funcList = "[\<lparr>addr = 0x2000, name = ''g'',
        blocks = [\<lparr>start = 0x2010, end_addr = 0x2020, insns = []\<rparr>,
                  \<lparr>start = 0x2000, end_addr = 0x2010, insns = []\<rparr>]\<rparr>,
       \<lparr>addr = 0x1000, name = ''f'', blocks = []\<rparr>]"
    and func = "\<lparr>addr = 0x2000, name = ''g'',
        blocks = [\<lparr>start = 0x2010, end_addr = 0x2020, insns = []\<rparr>,
                  \<lparr>start = 0x2000, end_addr = 0x2010, insns = []\<rparr>]\<rparr>"
    and block = "\<lparr>start = 0x2000, end_addr = 0x2010, insns = []\<rparr>"]
    sf sb se
  show ?thesis
    by (simp add: default_opts_cfg_def)
qed

text \<open>
  The claim C7 as stated fails on ties: \<^verbatim>\<open>std::sort\<close> does not keep elements with equal keys
  in their input order. On 17 functions \<open>a\<close>, ..., \<open>q\<close> with the same entry address the
  median-of-three step swaps \<open>a\<close> with \<open>i\<close> and the partition swaps the others in pairs
  from both ends; the final insertion sort moves nothing. The dump lists \<open>i\<close> first and \<open>a\<close>
  tenth.
\<close>

theorem canonical_order_ties_counterexample:
  "gnu_sort FuncLessThan
       [\<lparr>addr = 0x1000, name = ''a'', blocks = []\<rparr>, \<lparr>addr = 0x1000, name = ''b'', blocks = []\<rparr>,
        \<lparr>addr = 0x1000, name = ''c'', blocks = []\<rparr>, \<lparr>addr = 0x1000, name = ''d'', blocks = []\<rparr>,
        \<lparr>addr = 0x1000, name = ''e'', blocks = []\<rparr>, \<lparr>addr = 0x1000, name = ''f'', blocks = []\<rparr>,
        \<lparr>addr = 0x1000, name = ''g'', blocks = []\<rparr>, \<lparr>addr = 0x1000, name = ''h'', blocks = []\<rparr>,
        \<lparr>addr = 0x1000, name = ''i'', blocks = []\<rparr>, \<lparr>addr = 0x1000, name = ''j'', blocks = []\<rparr>,
        \<lparr>addr = 0x1000, name = ''k'', blocks = []\<rparr>, \<lparr>addr = 0x1000, name = ''l'', blocks = []\<rparr>,
        \<lparr>addr = 0x1000, name = ''m'', blocks = []\<rparr>, \<lparr>addr = 0x1000, name = ''n'', blocks = []\<rparr>,
        \<lparr>addr = 0x1000, name = ''o'', blocks = []\<rparr>, \<lparr>addr = 0x1000, name = ''p'', blocks = []\<rparr>,
        \<lparr>addr = 0x1000, name = ''q'', blocks = []\<rparr>] =
     Some
       [\<lparr>addr = 0x1000, name = ''i'', blocks = []\<rparr>, \<lparr>addr = 0x1000, name = ''q'', blocks = []\<rparr>,
        \<lparr>addr = 0x1000, name = ''p'', blocks = []\<rparr>, \<lparr>addr = 0x1000, name = ''o'', blocks = []\<rparr>,
        \<lparr>addr = 0x1000, name = ''n'', blocks = []\<rparr>, \<lparr>addr = 0x1000, name = ''m'', blocks = []\<rparr>,
        \<lparr>addr = 0x1000, name = ''l'', blocks = []\<rparr>, \<lparr>addr = 0x1000, name = ''k'', blocks = []\<rparr>,
        \<lparr>addr = 0x1000, name = ''j'', blocks = []\<rparr>, \<lparr>addr = 0x1000, name = ''a'', blocks = []\<rparr>,
        \<lparr>addr = 0x1000, name = ''h'', blocks = []\<rparr>, \<lparr>addr = 0x1000, name = ''g'', blocks = []\<rparr>,
        \<lparr>addr = 0x1000, name = ''f'', blocks = []\<rparr>, \<lparr>addr = 0x1000, name = ''e'', blocks = []\<rparr>,
        \<lparr>addr = 0x1000, name = ''d'', blocks = []\<rparr>, \<lparr>addr = 0x1000, name = ''c'', blocks = []\<rparr>,
        \<lparr>addr = 0x1000, name = ''b'', blocks = []\<rparr>] \<and>
   func_items (main_dump (std_sort FuncLessThan) (std_sort BlockLessThan) (std_sort EdgeLessThan)
       \<lparr>getContainingInlinedFunction = \<lambda>a. None, getLineMapInfo = \<lambda>a. [], targets = \<lambda>b. [], getFuncs = \<lambda>b. []\<rparr>
       default_opts_cfg
       [\<lparr>addr = 0x1000, name = ''a'', blocks = []\<rparr>, \<lparr>addr = 0x1000, name = ''b'', blocks = []\<rparr>,
        \<lparr>addr = 0x1000, name = ''c'', blocks = []\<rparr>, \<lparr>addr = 0x1000, name = ''d'', blocks = []\<rparr>,
        \<lparr>addr = 0x1000, name = ''e'', blocks = []\<rparr>, \<lparr>addr = 0x1000, name = ''f'', blocks = []\<rparr>,
        \<lparr>addr = 0x1000, name = ''g'', blocks = []\<rparr>, \<lparr>addr = 0x1000, name = ''h'', blocks = []\<rparr>,
        \<lparr>addr = 0x1000, name = ''i'', blocks = []\<rparr>, \<lparr>addr = 0x1000, name = ''j'', blocks = []\<rparr>,
        \<lparr>addr = 0x1000, name = ''k'', blocks = []\<rparr>, \<lparr>addr = 0x1000, name = ''l'', blocks = []\<rparr>,
        \<lparr>addr = 0x1000, name = ''m'', blocks = []\<rparr>, \<lparr>addr = 0x1000, name = ''n'', blocks = []\<rparr>,
        \<lparr>addr = 0x1000, name = ''o'', blocks = []\<rparr>, \<lparr>addr = 0x1000, name = ''p'', blocks = []\<rparr>,
        \<lparr>addr = 0x1000, name = ''q'', blocks = []\<rparr>]) =
       [\<lparr>addr = 0x1000, name = ''i'', blocks = []\<rparr>, \<lparr>addr = 0x1000, name = ''q'', blocks = []\<rparr>,
        \<lparr>addr = 0x1000, name = ''p'', blocks = []\<rparr>, \<lparr>addr = 0x1000, name = ''o'', blocks = []\<rparr>,
        \<lparr>addr = 0x1000, name = ''n'', blocks = []\<rparr>, \<lparr>addr = 0x1000, name = ''m'', blocks = []\<rparr>,
        \<lparr>addr = 0x1000, name = ''l'', blocks = []\<rparr>, \<lparr>addr = 0x1000, name = ''k'', blocks = []\<rparr>,
        \<lparr>addr = 0x1000, name = ''j'', blocks = []\<rparr>, \<lparr>addr = 0x1000, name = ''a'', blocks = []\<rparr>,
        \<lparr>addr = 0x1000, name = ''h'', blocks = []\<rparr>, \<lparr>addr = 0x1000, name = ''g'', blocks = []\<rparr>,
        \<lparr>addr = 0x1000, name = ''f'', blocks = []\<rparr>, \<lparr>addr = 0x1000, name = ''e'', blocks = []\<rparr>,
        \<lparr>addr = 0x1000, name = ''d'', blocks = []\<rparr>, \<lparr>addr = 0x1000, name = ''c'', blocks = []\<rparr>,
        \<lparr>addr = 0x1000, name = ''b'', blocks = []\<rparr>]"
proof -
  let ?fs = "[\<lparr>addr = 0x1000, name = ''a'', blocks = []\<rparr>, \<lparr>addr = 0x1000, name = ''b'', blocks = []\<rparr>,
        \<lparr>addr = 0x1000, name = ''c'', blocks = []\<rparr>, \<lparr>addr = 0x1000, name = ''d'', blocks = []\<rparr>,
        \<lparr>addr = 0x1000, name = ''e'', blocks = []\<rparr>, \<lparr>addr = 0x1000, name = ''f'', blocks = []\<rparr>,
        \<lparr>addr = 0x1000, name = ''g'', blocks = []\<rparr>, \<lparr>addr = 0x1000, name = ''h'', blocks = []\<rparr>,
        \<lparr>addr = 0x1000, name = ''i'', blocks = []\<rparr>, \<lparr>addr = 0x1000, name = ''j'', blocks = []\<rparr>,
        \<lparr>addr = 0x1000, name = ''k'', blocks = []\<rparr>, \<lparr>addr = 0x1000, name = ''l'', blocks = []\<rparr>,
        \<lparr>addr = 0x1000, name = ''m'', blocks = []\<rparr>, \<lparr>addr = 0x1000, name = ''n'', blocks = []\<rparr>,
        \<lparr>addr = 0x1000, name = ''o'', blocks = []\<rparr>, \<lparr>addr = 0x1000, name = ''p'', blocks = []\<rparr>,
        \<lparr>addr = 0x1000, name = ''q'', blocks = []\<rparr>]"
  let ?gs = "[\<lparr>addr = 0x1000, name = ''i'', blocks = []\<rparr>, \<lparr>addr = 0x1000, name = ''q'', blocks = []\<rparr>,
        \<lparr>addr = 0x1000, name = ''p'', blocks = []\<rparr>, \<lparr>addr = 0x1000, name = ''o'', blocks = []\<rparr>,
        \<lparr>addr = 0x1000, name = ''n'', blocks = []\<rparr>, \<lparr>addr = 0x1000, name = ''m'', blocks = []\<rparr>,
        \<lparr>addr = 0x1000, name = ''l'', blocks = []\<rparr>, \<lparr>addr = 0x1000, name = ''k'', blocks = []\<rparr>,
        \<lparr>addr = 0x1000, name = ''j'', blocks = []\<rparr>, \<lparr>addr = 0x1000, name = ''a'', blocks = []\<rparr>,
        \<lparr>addr = 0x1000, name = ''h'', blocks = []\<rparr>, \<lparr>addr = 0x1000, name = ''g'', blocks = []\<rparr>,
        \<lparr>addr = 0x1000, name = ''f'', blocks = []\<rparr>, \<lparr>addr = 0x1000, name = ''e'', blocks = []\<rparr>,
        \<lparr>addr = 0x1000, name = ''d'', blocks = []\<rparr>, \<lparr>addr = 0x1000, name = ''c'', blocks = []\<rparr>,
        \<lparr>addr = 0x1000, name = ''b'', blocks = []\<rparr>]"
  have g: "gnu_sort FuncLessThan ?fs = Some ?gs"
    by code_simp
  then have s: "std_sort FuncLessThan ?fs = ?gs"
    by (simp only: std_sort_def option.sel)
  have "func_items (main_dump (std_sort FuncLessThan) (std_sort BlockLessThan) (std_sort EdgeLessThan)
       \<lparr>getContainingInlinedFunction = \<lambda>a. None, getLineMapInfo = \<lambda>a. [], targets = \<lambda>b. [], getFuncs = \<lambda>b. []\<rparr>
       default_opts_cfg fl) = std_sort FuncLessThan fl" for fl
    by (simp add: main_dump_def func_items_funcs)
  from this [of ?fs] s
  have "func_items (main_dump (std_sort FuncLessThan) (std_sort BlockLessThan) (std_sort EdgeLessThan)
       \<lparr>getContainingInlinedFunction = \<lambda>a. None, getLineMapInfo = \<lambda>a. [], targets = \<lambda>b. [], getFuncs = \<lambda>b. []\<rparr>
       default_opts_cfg ?fs) = ?gs"
    by (rule trans)
  with g show ?thesis by (intro conjI)
qed

section \<open>unknown-x86: properties of myXedCallback\<close>

lemma troll_loop_Some:
  "troll_loop xed b s = Some (k, len) \<Longrightarrow>
   s \<le> k \<and> k < length b \<and> xed (drop k b) = Some len \<and>
   (\<forall>j. s \<le> j \<and> j < k \<longrightarrow> xed (drop j b) = None)"
proof (induction xed b s rule: troll_loop.induct)
  case (1 xed b s)
  show ?case
  proof (cases "s < length b")
    case False
    with "1.prems" show ?thesis by (simp add: troll_loop.simps [of xed b s])
  next
    case True
    show ?thesis
    proof (cases "xed (drop s b)")
      case (Some l)
      with True "1.prems" show ?thesis
        by (auto simp: troll_loop.simps [of xed b s])
    next
      case None
      with True "1.prems" have "troll_loop xed b (s + 1) = Some (k, len)"
        by (simp add: troll_loop.simps [of xed b s])
      from "1.IH" [OF True None this] None show ?thesis
        by (metis Suc_eq_plus1 Suc_leD le_antisym not_less_eq_eq)
    qed
  qed
qed

lemma troll_loop_None:
  "troll_loop xed b s = None \<longleftrightarrow> (\<forall>j. s \<le> j \<and> j < length b \<longrightarrow> xed (drop j b) = None)"
proof (induction xed b s rule: troll_loop.induct)
  case (1 xed b s)
  show ?case
  proof (cases "s < length b")
    case False
    then show ?thesis by (auto simp: troll_loop.simps [of xed b s])
  next
    case True
    show ?thesis
    proof (cases "xed (drop s b)")
      case (Some l)
      with True show ?thesis
        by (auto simp: troll_loop.simps [of xed b s])
    next
      case None
      have "troll_loop xed b s = troll_loop xed b (s + 1)"
        using True None by (simp add: troll_loop.simps [of xed b s])
      with "1.IH" [OF True None] None show ?thesis
        by (metis Suc_eq_plus1 Suc_leD le_antisym not_less_eq_eq)
    qed
  qed
qed

lemma troll_loop_first:
  assumes "s \<le> k" "k < length b" "xed (drop k b) = Some len"
    and "\<forall>j. s \<le> j \<and> j < k \<longrightarrow> xed (drop j b) = None"
  shows "troll_loop xed b s = Some (k, len)"
proof (cases "troll_loop xed b s")
  case None
  with assms show ?thesis by (auto simp: troll_loop_None)
next
  case (Some p)
  obtain k' l' where p: "p = (k', l')" by (cases p)
  from troll_loop_Some [OF Some [unfolded p]]
  have k': "s \<le> k'" "k' < length b" "xed (drop k' b) = Some l'"
    "\<forall>j. s \<le> j \<and> j < k' \<longrightarrow> xed (drop j b) = None"
    by auto
  have "k' = k"
  proof (rule ccontr)
    assume "k' \<noteq> k"
    then consider "k' < k" | "k < k'" by linarith
    then show False
    proof cases
      case 1 with assms(4) k'(1,3) show False by auto
    next
      case 2 with k'(4) assms(1,3) show False by auto
    qed
  qed
  with k'(3) assms(3) Some p show ?thesis by simp
qed

lemma sint_of_nat_small: "n < 2 ^ 31 \<Longrightarrow> sint (of_nat n :: 32 word) = int n"
  by (simp add: signed_of_nat signed_take_bit_int_eq_self)

lemma xed_probe_cases:
  "(xed (take MY_BUF_SIZE seqn) = Some len \<longrightarrow>
      is_valid (xed_probe xed opts seqn) \<and> \<not> is_troll (xed_probe xed opts seqn) \<and>
      xed_len (xed_probe xed opts seqn) = len \<and> xed_error_none (xed_probe xed opts seqn)) \<and>
   (xed (take MY_BUF_SIZE seqn) = None \<and> 1 \<le> k \<and> k < length (take MY_BUF_SIZE seqn) \<and>
    xed (drop k (take MY_BUF_SIZE seqn)) = Some len \<and>
    (\<forall>j. 1 \<le> j \<and> j < k \<longrightarrow> xed (drop j (take MY_BUF_SIZE seqn)) = None) \<longrightarrow>
      \<not> is_valid (xed_probe xed opts seqn) \<and> is_troll (xed_probe xed opts seqn) \<and>
      troll_start (xed_probe xed opts seqn) = k \<and> xed_len (xed_probe xed opts seqn) = len \<and>
      xed_error_none (xed_probe xed opts seqn)) \<and>
   (xed (take MY_BUF_SIZE seqn) = None \<and>
    (\<forall>j. 1 \<le> j \<and> j < length (take MY_BUF_SIZE seqn) \<longrightarrow>
         xed (drop j (take MY_BUF_SIZE seqn)) = None) \<longrightarrow>
      \<not> is_valid (xed_probe xed opts seqn) \<and> \<not> is_troll (xed_probe xed opts seqn) \<and>
      \<not> xed_error_none (xed_probe xed opts seqn))"
proof -
  let ?b = "take MY_BUF_SIZE seqn"
  have a: "xed ?b = Some len \<Longrightarrow>
      is_valid (xed_probe xed opts seqn) \<and> \<not> is_troll (xed_probe xed opts seqn) \<and>
      xed_len (xed_probe xed opts seqn) = len \<and> xed_error_none (xed_probe xed opts seqn)"
    by (simp add: xed_probe_def)
  have b: "\<not> is_valid (xed_probe xed opts seqn) \<and> is_troll (xed_probe xed opts seqn) \<and>
      troll_start (xed_probe xed opts seqn) = k \<and> xed_len (xed_probe xed opts seqn) = len \<and>
      xed_error_none (xed_probe xed opts seqn)"
    if "xed ?b = None" "1 \<le> k" "k < length ?b" "xed (drop k ?b) = Some len"
       "\<forall>j. 1 \<le> j \<and> j < k \<longrightarrow> xed (drop j ?b) = None"
  proof -
    have "troll_loop xed ?b 1 = Some (k, len)"
      by (rule troll_loop_first) (use that in auto)
    with that(1) show ?thesis by (simp add: xed_probe_def)
  qed
  have c: "\<not> is_valid (xed_probe xed opts seqn) \<and> \<not> is_troll (xed_probe xed opts seqn) \<and>
      \<not> xed_error_none (xed_probe xed opts seqn)"
    if "xed ?b = None" "\<forall>j. 1 \<le> j \<and> j < length ?b \<longrightarrow> xed (drop j ?b) = None"
  proof -
    have "troll_loop xed ?b 1 = None"
      using that(2) by (simp add: troll_loop_None)
    with that(1) show ?thesis by (simp add: xed_probe_def)
  qed
  from a b c show ?thesis by blast
qed

lemma count_unknown_counters:
  "num_xed_errors (count_unknown opts pr st) = num_xed_errors st \<and>
   initial_parse (count_unknown opts pr st) = initial_parse st \<and>
   (initial_parse st \<noteq> 0 \<longrightarrow>
      num_unknown (count_unknown opts pr st) = num_unknown st + 1 \<and>
      (num_unknown_valid (count_unknown opts pr st), num_unknown_troll (count_unknown opts pr st),
       num_unknown_error (count_unknown opts pr st)) =
        (if is_valid pr then
           (num_unknown_valid st + 1, num_unknown_troll st, num_unknown_error st)
         else if is_troll pr then
           (num_unknown_valid st, num_unknown_troll st + 1, num_unknown_error st)
         else (num_unknown_valid st, num_unknown_troll st, num_unknown_error st + 1))) \<and>
   (initial_parse st = 0 \<longrightarrow> count_unknown opts pr st = st)"
  by (simp add: count_unknown_def Let_def)

lemma myXedCallback_Inr:
  "myXedCallback xed opts seqn st = Inr (r, st') \<Longrightarrow>
   r = ret (xed_probe xed opts seqn) \<and>
   st' = count_unknown opts (xed_probe xed opts seqn)
           (st\<lparr>num_xed_errors :=
                 (if xed_error_none (xed_probe xed opts seqn) then 0 else num_xed_errors st + 1)\<rparr>)"
  by (auto simp: myXedCallback_def Let_def split: if_splits)

lemma troll_loop_end: "length b \<le> s \<Longrightarrow> troll_loop xed b s = None"
  by (subst troll_loop.simps) simp

text \<open>
  Claim C2, as amended. The window is the first \<open>MY_BUF_SIZE\<close> bytes of the sequence
  given to \<^verbatim>\<open>myXedCallback\<close>. If the decoder succeeds on the window, the call sets
  \<^verbatim>\<open>is_valid\<close> and \<^verbatim>\<open>xed_len\<close> is the decoded length. If it fails on the window and \<open>k\<close>
  is the first offset from 1 to the window length minus one at which it succeeds, the
  call sets \<^verbatim>\<open>is_troll\<close>, \<^verbatim>\<open>start\<close> is \<open>k\<close> and \<^verbatim>\<open>xed_len\<close> the length decoded there. If it
  fails on the window and at every such offset, neither flag is set (the error case).
  The counters: a call that returns during the initial parse (\<open>initial_parse \<noteq> 0\<close>)
  adds one to \<^verbatim>\<open>num_unknown\<close> and to exactly the one of \<^verbatim>\<open>num_unknown_valid\<close>,
  \<^verbatim>\<open>num_unknown_troll\<close>, \<^verbatim>\<open>num_unknown_error\<close> that belongs to the case; a call after the
  initial parse (\<open>initial_parse = 0\<close>) leaves the four counters as they are.
\<close>

theorem myXedCallback_classification:
  "(xed (take MY_BUF_SIZE seqn) = Some len \<longrightarrow>
      is_valid (xed_probe xed opts seqn) \<and> \<not> is_troll (xed_probe xed opts seqn) \<and>
      xed_len (xed_probe xed opts seqn) = len) \<and>
   (xed (take MY_BUF_SIZE seqn) = None \<and> 1 \<le> k \<and> k < length (take MY_BUF_SIZE seqn) \<and>
    xed (drop k (take MY_BUF_SIZE seqn)) = Some len \<and>
    (\<forall>j. 1 \<le> j \<and> j < k \<longrightarrow> xed (drop j (take MY_BUF_SIZE seqn)) = None) \<longrightarrow>
      \<not> is_valid (xed_probe xed opts seqn) \<and> is_troll (xed_probe xed opts seqn) \<and>
      troll_start (xed_probe xed opts seqn) = k \<and> xed_len (xed_probe xed opts seqn) = len) \<and>
   (xed (take MY_BUF_SIZE seqn) = None \<and>
    (\<forall>j. 1 \<le> j \<and> j < length (take MY_BUF_SIZE seqn) \<longrightarrow>
         xed (drop j (take MY_BUF_SIZE seqn)) = None) \<longrightarrow>
      \<not> is_valid (xed_probe xed opts seqn) \<and> \<not> is_troll (xed_probe xed opts seqn)) \<and>
   (myXedCallback xed opts seqn st = Inr (r, st') \<longrightarrow>
      (initial_parse st \<noteq> 0 \<longrightarrow>
         num_unknown st' = num_unknown st + 1 \<and>
         (num_unknown_valid st', num_unknown_troll st', num_unknown_error st') =
           (if is_valid (xed_probe xed opts seqn) then
              (num_unknown_valid st + 1, num_unknown_troll st, num_unknown_error st)
            else if is_troll (xed_probe xed opts seqn) then
              (num_unknown_valid st, num_unknown_troll st + 1, num_unknown_error st)
            else (num_unknown_valid st, num_unknown_troll st, num_unknown_error st + 1))) \<and>
      (initial_parse st = 0 \<longrightarrow>
         num_unknown st' = num_unknown st \<and> num_unknown_valid st' = num_unknown_valid st \<and>
         num_unknown_troll st' = num_unknown_troll st \<and>
         num_unknown_error st' = num_unknown_error st))"
proof -
  have "myXedCallback xed opts seqn st = Inr (r, st') \<longrightarrow>
      (initial_parse st \<noteq> 0 \<longrightarrow>
         num_unknown st' = num_unknown st + 1 \<and>
         (num_unknown_valid st', num_unknown_troll st', num_unknown_error st') =
           (if is_valid (xed_probe xed opts seqn) then
              (num_unknown_valid st + 1, num_unknown_troll st, num_unknown_error st)
            else if is_troll (xed_probe xed opts seqn) then
              (num_unknown_valid st, num_unknown_troll st + 1, num_unknown_error st)
            else (num_unknown_valid st, num_unknown_troll st, num_unknown_error st + 1))) \<and>
      (initial_parse st = 0 \<longrightarrow>
         num_unknown st' = num_unknown st \<and> num_unknown_valid st' = num_unknown_valid st \<and>
         num_unknown_troll st' = num_unknown_troll st \<and>
         num_unknown_error st' = num_unknown_error st)"
  proof
    assume "myXedCallback xed opts seqn st = Inr (r, st')"
    from myXedCallback_Inr [OF this]
    have st': "st' = count_unknown opts (xed_probe xed opts seqn)
           (st\<lparr>num_xed_errors :=
                 (if xed_error_none (xed_probe xed opts seqn) then 0 else num_xed_errors st + 1)\<rparr>)"
      by simp
    show "(initial_parse st \<noteq> 0 \<longrightarrow>
         num_unknown st' = num_unknown st + 1 \<and>
         (num_unknown_valid st', num_unknown_troll st', num_unknown_error st') =
           (if is_valid (xed_probe xed opts seqn) then
              (num_unknown_valid st + 1, num_unknown_troll st, num_unknown_error st)
            else if is_troll (xed_probe xed opts seqn) then
              (num_unknown_valid st, num_unknown_troll st + 1, num_unknown_error st)
            else (num_unknown_valid st, num_unknown_troll st, num_unknown_error st + 1))) \<and>
      (initial_parse st = 0 \<longrightarrow>
         num_unknown st' = num_unknown st \<and> num_unknown_valid st' = num_unknown_valid st \<and>
         num_unknown_troll st' = num_unknown_troll st \<and>
         num_unknown_error st' = num_unknown_error st)"
      unfolding st'
      using count_unknown_counters [of opts "xed_probe xed opts seqn"
          "st\<lparr>num_xed_errors :=
                 (if xed_error_none (xed_probe xed opts seqn) then 0 else num_xed_errors st + 1)\<rparr>"]
      by simp
  qed
  with xed_probe_cases [of xed seqn len opts k] show ?thesis
    by blast
qed

theorem myXedCallback_classification_witness:
  "is_valid (xed_probe example_xed default_opts [0x90, 0x00]) \<and>
   xed_len (xed_probe example_xed default_opts [0x90, 0x00]) = 1 \<and>
   is_troll (xed_probe example_xed default_opts [0x06, 0x07, 0x08, 0x90]) \<and>
   troll_start (xed_probe example_xed default_opts [0x06, 0x07, 0x08, 0x90]) = 3 \<and>
   \<not> is_valid (xed_probe example_xed default_opts [0x06, 0x07]) \<and>
   \<not> is_troll (xed_probe example_xed default_opts [0x06, 0x07]) \<and>
   (\<exists>r st'. myXedCallback example_xed default_opts [0x06, 0x07, 0x08, 0x90] init_globals =
              Inr (r, st') \<and>
            num_unknown st' = 1 \<and> num_unknown_troll st' = 1 \<and> num_unknown_valid st' = 0 \<and>
            num_unknown_error st' = 0)"
proof -
  let ?w = "[0x06, 0x07, 0x08, 0x90] :: byte list"
  have none: "\<forall>j. 1 \<le> j \<and> j < 3 \<longrightarrow> example_xed (drop j (take MY_BUF_SIZE ?w)) = None"
  proof (intro allI impI)
    fix j :: nat
    assume "1 \<le> j \<and> j < 3"
    then have "j = 1 \<or> j = 2" by arith
    then show "example_xed (drop j (take MY_BUF_SIZE ?w)) = None"
    proof
      assume "j = 1"
      then show ?thesis
        by (simp add: example_xed_def MY_BUF_SIZE_def XED_MAX_INSTRUCTION_BYTES_def)
    next
      assume "j = 2"
      then show ?thesis
        by (simp add: example_xed_def MY_BUF_SIZE_def XED_MAX_INSTRUCTION_BYTES_def)
    qed
  qed
  have none2: "\<forall>j. 1 \<le> j \<and> j < length (take MY_BUF_SIZE [0x06, 0x07 :: byte]) \<longrightarrow>
                  example_xed (drop j (take MY_BUF_SIZE [0x06, 0x07])) = None"
  proof (intro allI impI)
    fix j :: nat
    assume "1 \<le> j \<and> j < length (take MY_BUF_SIZE [0x06, 0x07 :: byte])"
    then have "j = 1" by (simp add: MY_BUF_SIZE_def XED_MAX_INSTRUCTION_BYTES_def)
    then show "example_xed (drop j (take MY_BUF_SIZE [0x06, 0x07])) = None"
      by (simp add: example_xed_def MY_BUF_SIZE_def XED_MAX_INSTRUCTION_BYTES_def)
  qed
  have v: "is_valid (xed_probe example_xed default_opts [0x90, 0x00]) \<and>
           xed_len (xed_probe example_xed default_opts [0x90, 0x00]) = 1"
    using myXedCallback_classification [where xed = example_xed and seqn = "[0x90, 0x00]"
            and len = 1 and opts = default_opts]
    by (simp add: example_xed_def MY_BUF_SIZE_def XED_MAX_INSTRUCTION_BYTES_def)
  have t: "\<not> is_valid (xed_probe example_xed default_opts ?w) \<and>
           is_troll (xed_probe example_xed default_opts ?w) \<and>
           troll_start (xed_probe example_xed default_opts ?w) = 3"
    using myXedCallback_classification [where xed = example_xed and seqn = ?w
            and len = 1 and k = 3 and opts = default_opts] none
    by (simp add: example_xed_def MY_BUF_SIZE_def XED_MAX_INSTRUCTION_BYTES_def)
  have e: "\<not> is_valid (xed_probe example_xed default_opts [0x06, 0x07]) \<and>
           \<not> is_troll (xed_probe example_xed default_opts [0x06, 0x07])"
    using myXedCallback_classification [where xed = example_xed and seqn = "[0x06, 0x07]"
            and opts = default_opts] none2
    by (simp add: example_xed_def MY_BUF_SIZE_def XED_MAX_INSTRUCTION_BYTES_def)
  have ok: "xed_error_none (xed_probe example_xed default_opts ?w)"
    using t by (auto simp: xed_probe_def Let_def split: option.splits)
  let ?st = "count_unknown default_opts (xed_probe example_xed default_opts ?w)
               (init_globals\<lparr>num_xed_errors := 0\<rparr>)"
  have run: "myXedCallback example_xed default_opts ?w init_globals =
             Inr (ret (xed_probe example_xed default_opts ?w), ?st)"
    using ok by (simp add: myXedCallback_def Let_def)
  have "num_unknown ?st = 1 \<and> num_unknown_troll ?st = 1 \<and> num_unknown_valid ?st = 0 \<and>
        num_unknown_error ?st = 0"
    using myXedCallback_classification [where xed = example_xed and seqn = ?w
            and opts = default_opts and st = init_globals
            and r = "ret (xed_probe example_xed default_opts ?w)" and st' = ?st] run t
    by (simp add: init_globals_def)
  with run v t e show ?thesis by blast
qed

text \<open>
  The claim C2 as stated (one classification counted per invocation) fails: with
  \<open>initial_parse = 0\<close> a call on a valid instruction returns the state unchanged, and the
  call that finds the 21st unresolved window in a row exits before anything is counted.
\<close>

theorem myXedCallback_counting_counterexample:
  "myXedCallback example_xed default_opts [0x90] (init_globals\<lparr>initial_parse := 0\<rparr>) =
     Inr (InvalidInsn, init_globals\<lparr>initial_parse := 0\<rparr>) \<and>
   myXedCallback example_xed default_opts [0x06] (init_globals\<lparr>num_xed_errors := 20\<rparr>) =
     Inl (Exit 1)"
  by (simp add: myXedCallback_def xed_probe_def example_xed_def MY_BUF_SIZE_def
        XED_MAX_INSTRUCTION_BYTES_def count_unknown_def default_opts_def init_globals_def
        troll_loop_end)

lemma xed_error_none_iff:
  "xed_error_none (xed_probe xed opts seqn) \<longleftrightarrow>
     (xed (take MY_BUF_SIZE seqn) \<noteq> None \<or>
      (\<exists>k. 1 \<le> k \<and> k < length (take MY_BUF_SIZE seqn) \<and>
           xed (drop k (take MY_BUF_SIZE seqn)) \<noteq> None))"
proof (cases "xed (take MY_BUF_SIZE seqn)")
  case (Some l)
  then show ?thesis by (simp add: xed_probe_def)
next
  case None
  show ?thesis
  proof (cases "troll_loop xed (take MY_BUF_SIZE seqn) 1")
    case n: None
    with None show ?thesis
      using troll_loop_None [of xed "take MY_BUF_SIZE seqn" 1]
      by (auto simp: xed_probe_def)
  next
    case (Some p)
    obtain k l where "p = (k, l)" by (cases p)
    with None Some troll_loop_Some [of xed "take MY_BUF_SIZE seqn" 1 k l] show ?thesis
      by (auto simp: xed_probe_def)
  qed
qed

lemma myXedCallback_unresolved:
  "\<not> xed_error_none (xed_probe xed opts seqn) \<Longrightarrow>
   myXedCallback xed opts seqn st =
     (if 20 < sint (num_xed_errors st + 1) then Inl (Exit 1)
      else Inr (ret (xed_probe xed opts seqn),
                count_unknown opts (xed_probe xed opts seqn)
                  (st\<lparr>num_xed_errors := num_xed_errors st + 1\<rparr>)))"
  by (simp add: myXedCallback_def Let_def)

lemma myXedCallback_resolved:
  "xed_error_none (xed_probe xed opts seqn) \<Longrightarrow>
   myXedCallback xed opts seqn st =
     Inr (ret (xed_probe xed opts seqn),
          count_unknown opts (xed_probe xed opts seqn) (st\<lparr>num_xed_errors := 0\<rparr>))"
  by (simp add: myXedCallback_def Let_def)

lemma num_xed_errors_count_unknown [simp]:
  "num_xed_errors (count_unknown opts pr st) = num_xed_errors st"
  by (simp add: count_unknown_def Let_def)

lemma run_callbacks_snoc:
  "run_callbacks xed opts (seqns @ [s]) st =
     (case run_callbacks xed opts seqns st of
        Inl e \<Rightarrow> Inl e
      | Inr st' \<Rightarrow>
          (case myXedCallback xed opts s st' of Inl e \<Rightarrow> Inl e | Inr (r, st'') \<Rightarrow> Inr st''))"
  by (induction seqns arbitrary: st) (auto split: sum.splits)

lemma trailing_unresolved_snoc:
  "trailing_unresolved xed opts (seqns @ [s]) =
     (if \<not> xed_error_none (xed_probe xed opts s) then Suc (trailing_unresolved xed opts seqns)
      else 0)"
  by (simp add: trailing_unresolved_def)

lemma sint_succ_small: "t \<le> 20 \<Longrightarrow> sint (of_nat t + 1 :: 32 word) = int t + 1"
proof -
  assume "t \<le> 20"
  then have "Suc t < 2 ^ 31" by simp
  from sint_of_nat_small [OF this] show ?thesis by (simp add: add.commute)
qed

lemma run_callbacks_inv:
  assumes z: "num_xed_errors st0 = 0"
  shows "(\<forall>st'. run_callbacks xed opts seqns st0 = Inr st' \<longrightarrow>
            num_xed_errors st' = of_nat (trailing_unresolved xed opts seqns) \<and>
            trailing_unresolved xed opts seqns \<le> 20) \<and>
         ((\<exists>st'. run_callbacks xed opts seqns st0 = Inr st') \<longleftrightarrow>
            (\<forall>n \<le> length seqns. trailing_unresolved xed opts (take n seqns) \<le> 20)) \<and>
         (\<forall>e. run_callbacks xed opts seqns st0 = Inl e \<longrightarrow> e = Exit 1)"
proof (induction seqns rule: rev_induct)
  case Nil
  show ?case using z by (simp add: trailing_unresolved_def)
next
  case (snoc s seqns)
  let ?T = "trailing_unresolved xed opts"
  have all: "(\<forall>n \<le> length (seqns @ [s]). ?T (take n (seqns @ [s])) \<le> 20) \<longleftrightarrow>
             (\<forall>n \<le> length seqns. ?T (take n seqns) \<le> 20) \<and> ?T (seqns @ [s]) \<le> 20"
  proof -
    have "\<And>n. n \<le> length seqns \<Longrightarrow> take n (seqns @ [s]) = take n seqns" by simp
    moreover have "\<And>n. n \<le> length (seqns @ [s]) \<Longrightarrow> n \<le> length seqns \<or> n = Suc (length seqns)"
      by auto
    ultimately show ?thesis
      by (metis le_SucI length_append_singleton order_refl take_all)
  qed
  show ?case
  proof (cases "run_callbacks xed opts seqns st0")
    case (Inl e)
    with snoc.IH have "e = Exit 1" and "\<not> (\<forall>n \<le> length seqns. ?T (take n seqns) \<le> 20)"
      by auto
    with Inl all show ?thesis
      by (simp add: run_callbacks_snoc)
  next
    case (Inr st1)
    with snoc.IH have n1: "num_xed_errors st1 = of_nat (?T seqns)" and le: "?T seqns \<le> 20"
      and pre: "\<forall>n \<le> length seqns. ?T (take n seqns) \<le> 20"
      by auto
    show ?thesis
    proof (cases "xed_error_none (xed_probe xed opts s)")
      case True
      with Inr pre all show ?thesis
        by (simp add: run_callbacks_snoc myXedCallback_resolved trailing_unresolved_snoc)
    next
      case False
      have s: "sint (num_xed_errors st1 + 1) = int (?T seqns) + 1"
        using sint_succ_small [OF le] n1 by simp
      show ?thesis
      proof (cases "?T seqns = 20")
        case True
        with False Inr pre all s show ?thesis
          by (simp add: run_callbacks_snoc myXedCallback_unresolved trailing_unresolved_snoc)
      next
        case F: False
        with le have "?T seqns < 20" by simp
        with False Inr pre all s n1 show ?thesis
          by (simp add: run_callbacks_snoc myXedCallback_unresolved trailing_unresolved_snoc)
      qed
    qed
  qed
qed

lemma trailing_unresolved_replicate:
  "\<not> xed_error_none (xed_probe xed opts w) \<Longrightarrow>
   trailing_unresolved xed opts (replicate n w) = n"
  by (simp add: trailing_unresolved_def takeWhile_replicate)

lemma example_unresolved: "\<not> xed_error_none (xed_probe example_xed default_opts [0x06])"
  by (simp add: xed_probe_def example_xed_def MY_BUF_SIZE_def XED_MAX_INSTRUCTION_BYTES_def
        troll_loop_end)

lemma example_resolved: "xed_error_none (xed_probe example_xed default_opts [0x90])"
  by (simp add: xed_probe_def example_xed_def MY_BUF_SIZE_def XED_MAX_INSTRUCTION_BYTES_def)

text \<open>
  Claim C3: the guard on consecutive failures. An invocation finds nothing exactly when
  the decoder fails on the window and at every offset from 1 to the window length minus
  one. Such an invocation adds one to \<^verbatim>\<open>num_xed_errors\<close> and, when the new value is above
  20, ends the process with \<^verbatim>\<open>exit(1)\<close>; an invocation that finds an instruction (at
  offset 0 or by trolling) sets the counter to zero. For the invocations of a run, made
  one after another from a counter of zero: while the process lives the counter is the
  number of invocations at the end of the sequence that found nothing, and it is at most
  20; the process lives through the sequence exactly when no prefix ends in more than 20
  such invocations, and otherwise it ended with status 1.
\<close>

theorem xed_error_safety_valve:
  "(xed_error_none (xed_probe xed opts seqn) \<longleftrightarrow>
      (xed (take MY_BUF_SIZE seqn) \<noteq> None \<or>
       (\<exists>k. 1 \<le> k \<and> k < length (take MY_BUF_SIZE seqn) \<and>
            xed (drop k (take MY_BUF_SIZE seqn)) \<noteq> None))) \<and>
   (\<not> xed_error_none (xed_probe xed opts seqn) \<and> \<not> 20 < sint (num_xed_errors st + 1) \<longrightarrow>
      (\<exists>r st'. myXedCallback xed opts seqn st = Inr (r, st') \<and>
               num_xed_errors st' = num_xed_errors st + 1)) \<and>
   (\<not> xed_error_none (xed_probe xed opts seqn) \<and> 20 < sint (num_xed_errors st + 1) \<longrightarrow>
      myXedCallback xed opts seqn st = Inl (Exit 1)) \<and>
   (xed_error_none (xed_probe xed opts seqn) \<longrightarrow>
      (\<exists>r st'. myXedCallback xed opts seqn st = Inr (r, st') \<and> num_xed_errors st' = 0)) \<and>
   (num_xed_errors st0 = 0 \<longrightarrow>
      (\<forall>st'. run_callbacks xed opts seqns st0 = Inr st' \<longrightarrow>
         num_xed_errors st' = of_nat (trailing_unresolved xed opts seqns) \<and>
         trailing_unresolved xed opts seqns \<le> 20) \<and>
      ((\<exists>st'. run_callbacks xed opts seqns st0 = Inr st') \<longleftrightarrow>
         (\<forall>n \<le> length seqns. trailing_unresolved xed opts (take n seqns) \<le> 20)) \<and>
      (run_callbacks xed opts seqns st0 = Inl (Exit 1) \<longleftrightarrow>
         (\<exists>n \<le> length seqns. 20 < trailing_unresolved xed opts (take n seqns))))"
proof -
  have run: "(\<forall>st'. run_callbacks xed opts seqns st0 = Inr st' \<longrightarrow>
         num_xed_errors st' = of_nat (trailing_unresolved xed opts seqns) \<and>
         trailing_unresolved xed opts seqns \<le> 20) \<and>
      ((\<exists>st'. run_callbacks xed opts seqns st0 = Inr st') \<longleftrightarrow>
         (\<forall>n \<le> length seqns. trailing_unresolved xed opts (take n seqns) \<le> 20)) \<and>
      (run_callbacks xed opts seqns st0 = Inl (Exit 1) \<longleftrightarrow>
         (\<exists>n \<le> length seqns. 20 < trailing_unresolved xed opts (take n seqns)))"
    if z: "num_xed_errors st0 = 0"
  proof -
    note inv = run_callbacks_inv [OF z, of xed opts seqns]
    have "run_callbacks xed opts seqns st0 = Inl (Exit 1) \<longleftrightarrow>
          \<not> (\<exists>st'. run_callbacks xed opts seqns st0 = Inr st')"
      using inv by (cases "run_callbacks xed opts seqns st0") auto
    also have "\<dots> \<longleftrightarrow> (\<exists>n \<le> length seqns. 20 < trailing_unresolved xed opts (take n seqns))"
      using inv by (simp add: not_le)
    finally show ?thesis using inv by blast
  qed
  have a: "\<not> xed_error_none (xed_probe xed opts seqn) \<and> \<not> 20 < sint (num_xed_errors st + 1) \<longrightarrow>
      (\<exists>r st'. myXedCallback xed opts seqn st = Inr (r, st') \<and>
               num_xed_errors st' = num_xed_errors st + 1)"
    by (simp add: myXedCallback_unresolved)
  have b: "\<not> xed_error_none (xed_probe xed opts seqn) \<and> 20 < sint (num_xed_errors st + 1) \<longrightarrow>
      myXedCallback xed opts seqn st = Inl (Exit 1)"
    by (simp add: myXedCallback_unresolved)
  have c: "xed_error_none (xed_probe xed opts seqn) \<longrightarrow>
      (\<exists>r st'. myXedCallback xed opts seqn st = Inr (r, st') \<and> num_xed_errors st' = 0)"
    by (simp add: myXedCallback_resolved)
  from a b c run xed_error_none_iff [of xed opts seqn] show ?thesis
    by blast
qed

theorem xed_error_safety_valve_witness:
  "run_callbacks example_xed default_opts (replicate 21 [0x06]) init_globals = Inl (Exit 1) \<and>
   (\<exists>st'. run_callbacks example_xed default_opts (replicate 20 [0x06] @ [[0x90]]) init_globals =
            Inr st' \<and> num_xed_errors st' = 0) \<and>
   myXedCallback example_xed default_opts [0x06] (init_globals\<lparr>num_xed_errors := 20\<rparr>) =
     Inl (Exit 1)"
proof -
  have z: "num_xed_errors init_globals = 0" by (simp add: init_globals_def)
  have "20 < trailing_unresolved example_xed default_opts (take 21 (replicate 21 [0x06]))"
    by (simp add: trailing_unresolved_replicate [OF example_unresolved])
  then have "\<exists>n \<le> length (replicate 21 [0x06 :: byte]).
               20 < trailing_unresolved example_xed default_opts (take n (replicate 21 [0x06]))"
    by (intro exI [of _ 21]) simp
  with xed_error_safety_valve [where xed = example_xed and opts = default_opts
         and st0 = init_globals and seqns = "replicate 21 [0x06]"] z
  have a: "run_callbacks example_xed default_opts (replicate 21 [0x06]) init_globals = Inl (Exit 1)"
    by blast
  let ?ws = "replicate 20 [0x06 :: byte] @ [[0x90]]"
  have "\<forall>n \<le> length ?ws. trailing_unresolved example_xed default_opts (take n ?ws) \<le> 20"
  proof (intro allI impI)
    fix n assume "n \<le> length ?ws"
    then consider "n \<le> 20" | "n = 21" by force
    then show "trailing_unresolved example_xed default_opts (take n ?ws) \<le> 20"
    proof cases
      case 1
      then have "take n ?ws = replicate n [0x06]" by (simp add: min_def)
      with 1 show ?thesis
        by (simp add: trailing_unresolved_replicate [OF example_unresolved])
    next
      case 2
      then show ?thesis
        by (simp add: trailing_unresolved_snoc example_resolved)
    qed
  qed
  with xed_error_safety_valve [where xed = example_xed and opts = default_opts
         and st0 = init_globals and seqns = ?ws] z
  obtain st' where r: "run_callbacks example_xed default_opts ?ws init_globals = Inr st'"
    and n: "num_xed_errors st' = of_nat (trailing_unresolved example_xed default_opts ?ws)"
    by blast
  have "trailing_unresolved example_xed default_opts ?ws = 0"
    by (simp add: trailing_unresolved_snoc example_resolved)
  with r n have b: "\<exists>st'. run_callbacks example_xed default_opts ?ws init_globals = Inr st' \<and>
                        num_xed_errors st' = 0"
    by simp
  have c: "myXedCallback example_xed default_opts [0x06] (init_globals\<lparr>num_xed_errors := 20\<rparr>) =
           Inl (Exit 1)"
    using xed_error_safety_valve [where xed = example_xed and opts = default_opts
         and seqn = "[0x06]" and st = "init_globals\<lparr>num_xed_errors := 20\<rparr>"] example_unresolved
    by simp
  from a b c show ?thesis by blast
qed

section \<open>unknown-x86: properties of doBlock\<close>

lemma print_line_fields [simp]:
  "num_block_align_errors (print_line opts l st) = num_block_align_errors st"
  "num_block_length_errors (print_line opts l st) = num_block_length_errors st"
  "num_bad_length (print_line opts l st) = num_bad_length st"
  by (simp_all add: print_line_def)

lemma fill_loop_errors:
  "fill_loop opts bs bsz xs pos buf st = Inr (r, st') \<Longrightarrow>
   (r \<noteq> None \<longrightarrow> st' = st) \<and>
   (r = None \<longrightarrow>
      block_errors st' =
        (num_block_align_errors st + 1, num_block_length_errors st, num_bad_length st) \<or>
      block_errors st' =
        (num_block_align_errors st, num_block_length_errors st + 1, num_bad_length st))"
proof (induction xs arbitrary: pos buf)
  case Nil
  then show ?case by auto
next
  case (Cons x xs)
  obtain a raw where x: "x = (a, raw)" by (cases x)
  show ?case
  proof (cases "bs + pos \<noteq> a")
    case True
    with Cons.prems x show ?thesis
      by (auto simp: block_errors_def)
  next
    case al: False
    show ?thesis
    proof (cases "bsz < pos + of_nat (length raw)")
      case True
      with al Cons.prems x show ?thesis
        by (auto simp: block_errors_def)
    next
      case False
      with al Cons.prems x obtain buf' where
        "copy_bytes buf (unat pos) raw = Inr buf'"
        "fill_loop opts bs bsz xs (pos + of_nat (length raw)) buf' st = Inr (r, st')"
        by (auto split: sum.splits)
      from Cons.IH [OF this(2)] show ?thesis .
    qed
  qed
qed

lemma check_loop_errors:
  "check_loop xed opts bs buf xs st = Inr st' \<Longrightarrow>
   st' = st \<or>
   block_errors st' =
     (num_block_align_errors st, num_block_length_errors st, num_bad_length st + 1)"
proof (induction xs)
  case Nil
  then show ?case by simp
next
  case (Cons x xs)
  obtain a raw where x: "x = (a, raw)" by (cases x)
  from Cons.prems Cons.IH show ?case
    unfolding x by (auto simp: block_errors_def split: if_splits)
qed

lemma fill_loop_stop:
  "fill_loop opts bs bsz xs pos buf st = Inr (None, st') \<Longrightarrow>
   fill_loop opts bs bsz (xs @ ys) pos buf st = Inr (None, st')"
proof (induction xs arbitrary: pos buf)
  case Nil
  then show ?case by simp
next
  case (Cons x xs)
  obtain a raw where x: "x = (a, raw)" by (cases x)
  from Cons.prems Cons.IH show ?case
    unfolding x by (auto split: if_splits sum.splits)
qed

lemma check_loop_stop:
  "check_loop xed opts bs buf xs st = Inr st' \<Longrightarrow> st' \<noteq> st \<Longrightarrow>
   check_loop xed opts bs buf (xs @ ys) st = Inr st'"
proof (induction xs)
  case Nil
  then show ?case by simp
next
  case (Cons x xs)
  obtain a raw where x: "x = (a, raw)" by (cases x)
  from Cons.prems Cons.IH show ?case
    unfolding x by (auto split: if_splits)
qed

lemma doBlock_errors:
  assumes "doBlock xed malloc_ok opts block st = Inr st'"
  shows "block_errors st' = block_errors st \<or>
     block_errors st' =
       (num_block_align_errors st + 1, num_block_length_errors st, num_bad_length st) \<or>
     block_errors st' =
       (num_block_align_errors st, num_block_length_errors st + 1, num_bad_length st) \<or>
     block_errors st' =
       (num_block_align_errors st, num_block_length_errors st, num_bad_length st + 1)"
proof -
  let ?st0 = "st\<lparr>num_bytes := num_bytes st + block_size block,
                  num_instns := num_instns st + of_nat (length (insns block))\<rparr>"
  from assms obtain r st1 where
    f: "fill_loop opts (start block) (block_size block) (insns block) 0 (doBlock_buf block) ?st0 =
        Inr (r, st1)"
    by (auto simp: doBlock_def split: if_splits sum.splits)
  note fe = fill_loop_errors [OF f]
  show ?thesis
  proof (cases r)
    case None
    with assms f have "st' = st1"
      by (auto simp: doBlock_def split: if_splits)
    with fe None show ?thesis by (auto simp: block_errors_def)
  next
    case (Some b)
    with fe have st1: "st1 = ?st0" by simp
    from assms f Some have "check_loop xed opts (start block) b (insns block) st1 = Inr st'"
      by (auto simp: doBlock_def split: if_splits)
    from check_loop_errors [OF this] st1 show ?thesis
      by (auto simp: block_errors_def)
  qed
qed

lemma copy_bytes_ok:
  "i + length raw \<le> length buf \<Longrightarrow>
   copy_bytes buf i raw = Inr (take i buf @ raw @ drop (i + length raw) buf)"
proof (induction raw arbitrary: buf i)
  case Nil
  then show ?case by simp
next
  case (Cons x raw)
  then have i: "i < length buf" by simp
  have "copy_bytes (buf[i := x]) (Suc i) raw =
        Inr (take (Suc i) (buf[i := x]) @ raw @ drop (Suc i + length raw) (buf[i := x]))"
    using Cons.prems by (intro Cons.IH) simp
  moreover have "take (Suc i) (buf[i := x]) = take i buf @ [x]"
    using i by (simp add: take_Suc_conv_app_nth)
  moreover have "drop (Suc i + length raw) (buf[i := x]) = drop (Suc i + length raw) buf"
    by simp
  ultimately show ?case using i by simp
qed

lemma unat_of_nat64: "n < 2 ^ 64 \<Longrightarrow> unat (of_nat n :: 64 word) = n"
  by (simp add: unat_of_nat)

lemma fill_loop_clean:
  assumes N: "bszn + 20 < 2 ^ 63"
  shows "clean_insns xed bs bszn bytes pos xs \<Longrightarrow> length done = pos \<Longrightarrow> pos \<le> bszn \<Longrightarrow>
   fill_loop opts bs (of_nat bszn) xs (of_nat pos) (done @ replicate (bszn + 20 - pos) 0) st =
     Inr (Some (done @ concat (map snd xs) @
                replicate (bszn + 20 - pos - length (concat (map snd xs))) 0), st)"
proof (induction xs arbitrary: pos "done")
  case Nil
  then show ?case by simp
next
  case (Cons x xs)
  obtain a raw where x: "x = (a, raw)" by (cases x)
  from Cons.prems(1) have a: "a = bs + of_nat pos" and le: "pos + length raw \<le> bszn"
    and rest: "clean_insns xed bs bszn bytes (pos + length raw) xs"
    by (simp_all add: x)
  have big: "bszn < 2 ^ 64" "pos + length raw < 2 ^ 64" "pos < 2 ^ 64"
    using N le by simp_all
  have sum: "(of_nat pos + of_nat (length raw) :: 64 word) = of_nat (pos + length raw)"
    by simp
  have u1: "unat (of_nat pos + of_nat (length raw) :: 64 word) = pos + length raw"
    using unat_of_nat64 [OF big(2)] by simp
  have u2: "unat (of_nat bszn :: 64 word) = bszn"
    by (rule unat_of_nat64) (rule big)
  have nlt: "\<not> (of_nat bszn :: 64 word) < of_nat pos + of_nat (length raw)"
    using le by (simp add: word_less_nat_alt u1 u2)
  have cp: "copy_bytes (done @ replicate (bszn + 20 - pos) 0) (unat (of_nat pos :: 64 word)) raw =
            Inr ((done @ raw) @ replicate (bszn + 20 - (pos + length raw)) 0)"
    using Cons.prems(2) le big
    by (subst copy_bytes_ok) (simp_all add: unat_of_nat64)
  have "fill_loop opts bs (of_nat bszn) xs (of_nat (pos + length raw))
          ((done @ raw) @ replicate (bszn + 20 - (pos + length raw)) 0) st =
        Inr (Some ((done @ raw) @ concat (map snd xs) @
                replicate (bszn + 20 - (pos + length raw) - length (concat (map snd xs))) 0), st)"
    using Cons.prems(2) le by (intro Cons.IH [OF rest]) simp_all
  with a nlt cp show ?case
    by (simp add: x sum del: of_nat_add)
qed

lemma clean_insns_total:
  "clean_insns xed bs bszn bytes pos xs \<Longrightarrow> pos \<le> bszn \<Longrightarrow>
   pos + length (concat (map snd xs)) \<le> bszn"
proof (induction xs arbitrary: pos)
  case Nil
  then show ?case by simp
next
  case (Cons x xs)
  obtain a raw where x: "x = (a, raw)" by (cases x)
  from Cons.prems have le: "pos + length raw \<le> bszn"
    and rest: "clean_insns xed bs bszn bytes (pos + length raw) xs"
    by (simp_all add: x)
  from Cons.IH [OF rest le] show ?case
    by (simp add: x add.assoc)
qed

lemma check_loop_clean:
  assumes N: "bszn + 20 < 2 ^ 63" and len: "length B = bszn + 20"
  shows "clean_insns xed bs bszn B pos xs \<Longrightarrow> check_loop xed opts bs B xs st = Inr st"
proof (induction xs arbitrary: pos)
  case Nil
  then show ?case by simp
next
  case (Cons x xs)
  obtain a raw where x: "x = (a, raw)" by (cases x)
  from Cons.prems have a: "a = bs + of_nat pos" and le: "pos + length raw \<le> bszn"
    and m: "map_option unat (xed (take 16 (drop pos B))) = Some (length raw)"
    and rest: "clean_insns xed bs bszn B (pos + length raw) xs"
    by (simp_all add: x)
  have "pos < 2 ^ 64" using N le by simp
  then have off: "unat (a - bs) = pos"
    by (simp add: a unat_of_nat64)
  from m obtain l where l: "xed (take 16 (drop pos B)) = Some l" "unat l = length raw"
    by auto
  have "(of_nat (length raw) :: 64 word) = ucast l"
    using of_nat_unat [of l, where ?'a = "64 word"] l(2) by simp
  with off l(1) le len Cons.IH [OF rest] show ?case
    by (simp add: x)
qed

lemma doBlock_clean:
  assumes c: "clean_block xed block" and m: "malloc_ok (unat (block_size block + 20))"
  shows "doBlock xed malloc_ok opts block st =
           Inr (st\<lparr>num_bytes := num_bytes st + block_size block,
                    num_instns := num_instns st + of_nat (length (insns block))\<rparr>)"
proof -
  let ?n = "unat (block_size block)"
  let ?st = "st\<lparr>num_bytes := num_bytes st + block_size block,
                  num_instns := num_instns st + of_nat (length (insns block))\<rparr>"
  from c have N: "?n + 20 < 2 ^ 63"
    and ci: "clean_insns xed (start block) ?n (block_bytes block) 0 (insns block)"
    by (simp_all add: clean_block_def)
  have "unat (block_size block) + unat (20 :: 64 word) < 2 ^ LENGTH(64)"
    using N by simp
  then have "unat (block_size block + 20) = ?n + 20"
    by (simp add: unat_add_lem [THEN iffD1])
  then have buf: "doBlock_buf block = [] @ replicate (?n + 20 - 0) 0"
    by (simp add: doBlock_buf_def)
  have tot: "length (concat (map snd (insns block))) \<le> ?n"
    using clean_insns_total [OF ci] by simp
  have fill: "fill_loop opts (start block) (block_size block) (insns block) 0
                (doBlock_buf block) ?st = Inr (Some (block_bytes block), ?st)"
    using fill_loop_clean [OF N ci, of "[]" opts ?st]
    unfolding buf by (simp add: block_bytes_def)
  have "length (block_bytes block) = ?n + 20"
    using tot by (simp add: block_bytes_def)
  from check_loop_clean [OF N this ci]
  have "check_loop xed opts (start block) (block_bytes block) (insns block) ?st = Inr ?st" .
  with fill m show ?thesis
    by (simp add: doBlock_def)
qed

text \<open>
  Claim C4: one discrepancy per block at most. Whenever \<^verbatim>\<open>doBlock\<close> returns, the three
  counters of alignment errors, length errors and bad lengths are as before or exactly
  one of them is one higher. Checking stops at the first discrepancy: once the walk over
  the claimed instructions has recorded an alignment or length error, the instructions
  after it do not matter and the comparison with the decoder is not run at all; once the
  comparison has recorded a bad length, the instructions after it do not matter. A block
  whose claimed instructions are contiguous, within the block and length-matched by the
  decoder (\<open>clean_block\<close>) records none: the state returned differs from the one given
  only by the byte and instruction totals.
\<close>

theorem doBlock_one_error_per_block:
  "(doBlock xed malloc_ok opts block st = Inr st' \<longrightarrow>
      block_errors st' = block_errors st \<or>
      block_errors st' =
        (num_block_align_errors st + 1, num_block_length_errors st, num_bad_length st) \<or>
      block_errors st' =
        (num_block_align_errors st, num_block_length_errors st + 1, num_bad_length st) \<or>
      block_errors st' =
        (num_block_align_errors st, num_block_length_errors st, num_bad_length st + 1)) \<and>
   (fill_loop opts bs bsz xs pos buf s0 = Inr (None, s1) \<longrightarrow>
      fill_loop opts bs bsz (xs @ ys) pos buf s0 = Inr (None, s1)) \<and>
   (malloc_ok (unat (block_size block + 20)) \<and>
    fill_loop opts (start block) (block_size block) (insns block) 0 (doBlock_buf block)
      (st\<lparr>num_bytes := num_bytes st + block_size block,
          num_instns := num_instns st + of_nat (length (insns block))\<rparr>) = Inr (None, s2) \<longrightarrow>
      doBlock xed malloc_ok opts block st = Inr s2) \<and>
   (check_loop xed opts bs buf xs s0 = Inr s3 \<and> s3 \<noteq> s0 \<longrightarrow>
      check_loop xed opts bs buf (xs @ ys) s0 = Inr s3) \<and>
   (clean_block xed block \<and> malloc_ok (unat (block_size block + 20)) \<longrightarrow>
      doBlock xed malloc_ok opts block st =
        Inr (st\<lparr>num_bytes := num_bytes st + block_size block,
                num_instns := num_instns st + of_nat (length (insns block))\<rparr>))"
proof -
  have "malloc_ok (unat (block_size block + 20)) \<and>
    fill_loop opts (start block) (block_size block) (insns block) 0 (doBlock_buf block)
      (st\<lparr>num_bytes := num_bytes st + block_size block,
          num_instns := num_instns st + of_nat (length (insns block))\<rparr>) = Inr (None, s2) \<longrightarrow>
      doBlock xed malloc_ok opts block st = Inr s2"
    by (simp add: doBlock_def)
  with doBlock_errors [of xed malloc_ok opts block st st']
    fill_loop_stop [of opts bs bsz xs pos buf s0 s1 ys]
    check_loop_stop [of xed opts bs buf xs s0 s3 ys]
    doBlock_clean [of xed block malloc_ok opts st]
  show ?thesis by blast
qed

theorem doBlock_one_error_per_block_witness:
  "doBlock example_xed (\<lambda>n. True) default_opts
     \<lparr>start = 0x1000, end_addr = 0x1004,
      insns = [(0x1000, [0x90]), (0x1001, [0x31, 0xc0]), (0x1003, [0x90])]\<rparr> init_globals =
     Inr (init_globals\<lparr>num_bytes := 4, num_instns := 3\<rparr>) \<and>
   doBlock example_xed (\<lambda>n. True) default_opts
     \<lparr>start = 0x1000, end_addr = 0x1008,
      insns = [(0x1000, [0x90]), (0x1001, [0x90]), (0x1003, [0x90]), (0x1009, [0x06])]\<rparr>
     init_globals =
     Inr (init_globals\<lparr>num_bytes := 8, num_instns := 4, num_block_align_errors := 1,
            out := [AlignLine 0x1000 2 0x1003]\<rparr>) \<and>
   check_loop example_xed default_opts 0x1000 ([0x31, 0xc0] @ replicate 20 0)
     ([(0x1000, [0x31])] @ [(0x1001, [0xc0])]) init_globals =
     Inr (init_globals\<lparr>num_bad_length := 1,
            out := [BadLengthLine 0x1000 ([0x31, 0xc0] @ replicate 14 0) 1 2]\<rparr>)"
proof -
  let ?B1 = "\<lparr>start = 0x1000, end_addr = 0x1004,
      insns = [(0x1000, [0x90]), (0x1001, [0x31, 0xc0]), (0x1003, [0x90 :: byte])]\<rparr>"
  let ?B2 = "\<lparr>start = 0x1000, end_addr = 0x1008,
      insns = [(0x1000, [0x90]), (0x1001, [0x90]), (0x1003, [0x90])] @ [(0x1009, [0x06 :: byte])]\<rparr>"
  let ?s0 = "init_globals\<lparr>num_bytes := num_bytes init_globals + block_size ?B2,
      num_instns := num_instns init_globals + of_nat (length (insns ?B2))\<rparr>"
  let ?s1 = "init_globals\<lparr>num_bytes := 8, num_instns := 4, num_block_align_errors := 1,
            out := [AlignLine 0x1000 2 0x1003]\<rparr>"
  let ?s3 = "init_globals\<lparr>num_bad_length := 1,
            out := [BadLengthLine 0x1000 ([0x31, 0xc0] @ replicate 14 0) 1 2]\<rparr>"
  have clean: "clean_block example_xed ?B1"
    by (simp add: clean_block_def block_bytes_def block_size_def example_xed_def)
  have a: "doBlock example_xed (\<lambda>n. True) default_opts ?B1 init_globals =
           Inr (init_globals\<lparr>num_bytes := 4, num_instns := 3\<rparr>)"
    using doBlock_one_error_per_block [where xed = example_xed and block = ?B1
            and malloc_ok = "\<lambda>n. True" and opts = default_opts and st = init_globals] clean
    by (simp add: block_size_def init_globals_def)
  have three: "fill_loop default_opts 0x1000 8
                 [(0x1000, [0x90]), (0x1001, [0x90]), (0x1003, [0x90])] 0 (doBlock_buf ?B2) ?s0 =
               Inr (None, ?s1)"
    by (simp add: doBlock_buf_def block_size_def print_line_def default_opts_def init_globals_def)
  have "fill_loop default_opts 0x1000 8
          ([(0x1000, [0x90]), (0x1001, [0x90]), (0x1003, [0x90])] @ [(0x1009, [0x06])]) 0
          (doBlock_buf ?B2) ?s0 = Inr (None, ?s1)"
    using doBlock_one_error_per_block [where opts = default_opts and bs = "0x1000" and bsz = 8
            and xs = "[(0x1000, [0x90]), (0x1001, [0x90]), (0x1003, [0x90])]"
            and ys = "[(0x1009, [0x06])]" and pos = 0 and buf = "doBlock_buf ?B2"
            and ?s0.0 = ?s0 and ?s1.0 = ?s1] three
    by blast
  then have "fill_loop default_opts (start ?B2) (block_size ?B2) (insns ?B2) 0 (doBlock_buf ?B2)
               ?s0 = Inr (None, ?s1)"
    by (simp add: block_size_def)
  with doBlock_one_error_per_block [where xed = example_xed and block = ?B2
            and malloc_ok = "\<lambda>n. True" and opts = default_opts and st = init_globals
            and ?s2.0 = ?s1]
  have b: "doBlock example_xed (\<lambda>n. True) default_opts ?B2 init_globals = Inr ?s1"
    by blast
  have one: "check_loop example_xed default_opts 0x1000 ([0x31, 0xc0] @ replicate 20 0)
               [(0x1000, [0x31])] init_globals = Inr ?s3"
    by (simp add: example_xed_def print_line_def default_opts_def init_globals_def)
  have ne: "?s3 \<noteq> init_globals"
    by (simp add: init_globals_def)
  have c: "check_loop example_xed default_opts 0x1000 ([0x31, 0xc0] @ replicate 20 0)
             ([(0x1000, [0x31])] @ [(0x1001, [0xc0])]) init_globals = Inr ?s3"
    using doBlock_one_error_per_block [where xed = example_xed and opts = default_opts
            and bs = "0x1000" and buf = "[0x31, 0xc0] @ replicate 20 0"
            and xs = "[(0x1000, [0x31])]" and ys = "[(0x1001, [0xc0])]"
            and ?s0.0 = init_globals and ?s3.0 = ?s3] one ne
    by blast
  from a b c show ?thesis by simp
qed

lemma copy_bytes_no_exit: "copy_bytes buf i raw \<noteq> Inl (Exit n)"
  by (induction raw arbitrary: buf i) auto

lemma fill_loop_no_exit: "fill_loop opts bs bsz xs pos buf st \<noteq> Inl (Exit n)"
proof (induction xs arbitrary: pos buf)
  case Nil
  show ?case by simp
next
  case (Cons x xs)
  obtain a raw where x: "x = (a, raw)" by (cases x)
  show ?case
    using Cons.IH copy_bytes_no_exit [of buf "unat pos" raw n]
    by (auto simp: x split: sum.splits)
qed

lemma check_loop_no_exit: "check_loop xed opts bs buf xs st \<noteq> Inl (Exit n)"
proof (induction xs)
  case Nil
  show ?case by simp
next
  case (Cons x xs)
  obtain a raw where x: "x = (a, raw)" by (cases x)
  show ?case using Cons.IH by (auto simp: x)
qed

lemma doBlock_exit_iff:
  "doBlock xed malloc_ok opts block st = Inl (Exit 1) \<longleftrightarrow>
   \<not> malloc_ok (unat (block_size block + 20))"
  using fill_loop_no_exit check_loop_no_exit
  by (auto simp: doBlock_def split: sum.splits option.splits)

lemma copy_bytes_length:
  "copy_bytes buf i raw = Inr buf' \<Longrightarrow> length buf' = length buf"
  by (induction raw arbitrary: buf i) (auto split: if_splits)

lemma fill_loop_length_error_iff:
  assumes N: "bszn + 20 < 2 ^ 63"
  shows "\<forall>(a, raw) \<in> set xs. length raw < 2 ^ 63 \<Longrightarrow> pos \<le> bszn \<Longrightarrow>
     length buf = bszn + 20 \<Longrightarrow>
     (\<exists>s1. fill_loop opts bs (of_nat bszn) xs (of_nat pos) buf st = Inr (None, s1) \<and>
           num_block_length_errors s1 = num_block_length_errors st + 1) \<longleftrightarrow>
     (\<exists>pre a raw rest. xs = pre @ (a, raw) # rest \<and> accepted_insns bs bszn pos pre \<and>
        a = bs + of_nat (pos + length (concat (map snd pre))) \<and>
        bszn < pos + length (concat (map snd pre)) + length raw)"
proof (induction xs arbitrary: pos buf)
  case Nil
  show ?case by simp
next
  case (Cons x xs)
  obtain a0 raw0 where x: "x = (a0, raw0)" by (cases x)
  from Cons.prems(1) have l0: "length raw0 < 2 ^ 63"
    and lens: "\<forall>(a, raw) \<in> set xs. length raw < 2 ^ 63"
    by (auto simp: x)
  have big: "pos + length raw0 < 2 ^ 64" "bszn < 2 ^ 64"
    using N Cons.prems(2) l0 by simp_all
  have u1: "unat (of_nat pos + of_nat (length raw0) :: 64 word) = pos + length raw0"
    using unat_of_nat64 [OF big(1)] by simp
  have u2: "unat (of_nat bszn :: 64 word) = bszn"
    by (rule unat_of_nat64) (rule big)
  have cmp: "(of_nat bszn :: 64 word) < of_nat pos + of_nat (length raw0) \<longleftrightarrow>
             bszn < pos + length raw0"
    by (simp add: word_less_nat_alt u1 u2)
  let ?R = "\<lambda>ys p. \<exists>pre a raw rest. ys = pre @ (a, raw) # rest \<and> accepted_insns bs bszn p pre \<and>
        a = bs + of_nat (p + length (concat (map snd pre))) \<and>
        bszn < p + length (concat (map snd pre)) + length raw"
  show ?case
  proof (cases "bs + of_nat pos \<noteq> a0")
    case True
    have "\<not> ?R (x # xs) pos"
    proof
      assume "?R (x # xs) pos"
      then obtain pre a raw rest where d: "x # xs = pre @ (a, raw) # rest"
        and acc: "accepted_insns bs bszn pos pre"
        and al: "a = bs + of_nat (pos + length (concat (map snd pre)))"
        by blast
      show False
      proof (cases pre)
        case Nil
        with d al x True show False by simp
      next
        case (Cons p pre')
        with d have "p = (a0, raw0)" by (simp add: x)
        with acc Cons True show False by simp
      qed
    qed
    moreover have "\<not> (\<exists>s1. fill_loop opts bs (of_nat bszn) (x # xs) (of_nat pos) buf st = Inr (None, s1) \<and>
           num_block_length_errors s1 = num_block_length_errors st + 1)"
      using True by (simp add: x)
    ultimately show ?thesis by blast
  next
    case al: False
    show ?thesis
    proof (cases "bszn < pos + length raw0")
      case True
      have "?R (x # xs) pos"
        using al True
        by (intro exI [of _ "[]"] exI [of _ a0] exI [of _ raw0] exI [of _ xs]) (simp add: x)
      moreover have "\<exists>s1. fill_loop opts bs (of_nat bszn) (x # xs) (of_nat pos) buf st = Inr (None, s1) \<and>
           num_block_length_errors s1 = num_block_length_errors st + 1"
        using al True cmp by (simp add: x)
      ultimately show ?thesis by blast
    next
      case False
      then have le: "pos + length raw0 \<le> bszn" by simp
      have "unat (of_nat pos :: 64 word) + length raw0 \<le> length buf"
        using le Cons.prems(3) big by (simp add: unat_of_nat64)
      from copy_bytes_ok [OF this] obtain buf' where
        cp: "copy_bytes buf (unat (of_nat pos :: 64 word)) raw0 = Inr buf'"
        by blast
      have len': "length buf' = bszn + 20"
        using copy_bytes_length [OF cp] Cons.prems(3) by simp
      have step: "fill_loop opts bs (of_nat bszn) (x # xs) (of_nat pos) buf st =
                  fill_loop opts bs (of_nat bszn) xs (of_nat (pos + length raw0)) buf' st"
        using al False cmp cp by (simp add: x)
      have R: "?R (x # xs) pos \<longleftrightarrow> ?R xs (pos + length raw0)"
      proof
        assume "?R (x # xs) pos"
        then obtain pre a raw rest where d: "x # xs = pre @ (a, raw) # rest"
          and acc: "accepted_insns bs bszn pos pre"
          and a: "a = bs + of_nat (pos + length (concat (map snd pre)))"
          and ex: "bszn < pos + length (concat (map snd pre)) + length raw"
          by blast
        show "?R xs (pos + length raw0)"
        proof (cases pre)
          case Nil
          with d ex False x show ?thesis by simp
        next
          case (Cons p pre')
          with d have p: "p = (a0, raw0)" and xs: "xs = pre' @ (a, raw) # rest"
            by (simp_all add: x)
          from acc Cons p have "accepted_insns bs bszn (pos + length raw0) pre'" by simp
          moreover from a Cons p
          have "a = bs + of_nat (pos + length raw0 + length (concat (map snd pre')))"
            by (simp add: add.assoc)
          moreover from ex Cons p
          have "bszn < pos + length raw0 + length (concat (map snd pre')) + length raw"
            by (simp add: add.assoc)
          ultimately show ?thesis using xs by blast
        qed
      next
        assume "?R xs (pos + length raw0)"
        then obtain pre a raw rest where d: "xs = pre @ (a, raw) # rest"
          and acc: "accepted_insns bs bszn (pos + length raw0) pre"
          and a: "a = bs + of_nat (pos + length raw0 + length (concat (map snd pre)))"
          and ex: "bszn < pos + length raw0 + length (concat (map snd pre)) + length raw"
          by blast
        have "x # xs = (x # pre) @ (a, raw) # rest" using d by simp
        moreover have "accepted_insns bs bszn pos (x # pre)"
          using acc al le by (simp add: x)
        moreover have "a = bs + of_nat (pos + length (concat (map snd (x # pre))))"
          using a by (simp add: x add.assoc)
        moreover have "bszn < pos + length (concat (map snd (x # pre))) + length raw"
          using ex by (simp add: x add.assoc)
        ultimately show "?R (x # xs) pos" by blast
      qed
      from Cons.IH [OF lens le len', of] step R show ?thesis
        by simp
    qed
  qed
qed


lemma fill_loop_accepts:
  assumes N: "bszn + 20 < 2 ^ 63"
  shows "\<forall>(a, raw) \<in> set xs. length raw < 2 ^ 63 \<Longrightarrow> pos \<le> bszn \<Longrightarrow>
     length buf = bszn + 20 \<Longrightarrow>
     (\<exists>s1. fill_loop opts bs (of_nat bszn) xs (of_nat pos) buf st = Inr (None, s1)) \<or>
     (\<exists>buf'. fill_loop opts bs (of_nat bszn) xs (of_nat pos) buf st = Inr (Some buf', st) \<and>
        length buf' = bszn + 20 \<and> accepted_insns bs bszn pos xs)"
proof (induction xs arbitrary: pos buf)
  case Nil
  then show ?case by simp
next
  case (Cons x xs)
  obtain a0 raw0 where x: "x = (a0, raw0)" by (cases x)
  from Cons.prems(1) have l0: "length raw0 < 2 ^ 63"
    and lens: "\<forall>(a, raw) \<in> set xs. length raw < 2 ^ 63"
    by (auto simp: x)
  have big: "pos + length raw0 < 2 ^ 64" "bszn < 2 ^ 64"
    using N Cons.prems(2) l0 by simp_all
  have u1: "unat (of_nat pos + of_nat (length raw0) :: 64 word) = pos + length raw0"
    using unat_of_nat64 [OF big(1)] by simp
  have u2: "unat (of_nat bszn :: 64 word) = bszn"
    by (rule unat_of_nat64) (rule big)
  have cmp: "(of_nat bszn :: 64 word) < of_nat pos + of_nat (length raw0) \<longleftrightarrow>
             bszn < pos + length raw0"
    by (simp add: word_less_nat_alt u1 u2)
  show ?case
  proof (cases "bs + of_nat pos \<noteq> a0 \<or> bszn < pos + length raw0")
    case True
    then show ?thesis using cmp by (auto simp: x)
  next
    case False
    then have al: "bs + of_nat pos = a0" and le: "pos + length raw0 \<le> bszn" by simp_all
    have "unat (of_nat pos :: 64 word) + length raw0 \<le> length buf"
      using le Cons.prems(3) big by (simp add: unat_of_nat64)
    from copy_bytes_ok [OF this] obtain buf' where
      cp: "copy_bytes buf (unat (of_nat pos :: 64 word)) raw0 = Inr buf'"
      by blast
    have len': "length buf' = bszn + 20"
      using copy_bytes_length [OF cp] Cons.prems(3) by simp
    have step: "fill_loop opts bs (of_nat bszn) (x # xs) (of_nat pos) buf st =
                fill_loop opts bs (of_nat bszn) xs (of_nat (pos + length raw0)) buf' st"
      using al le cmp cp by (simp add: x)
    from Cons.IH [OF lens le len'] step al le show ?thesis
      by (auto simp: x)
  qed
qed

lemma check_loop_accepted:
  assumes N: "bszn + 20 < 2 ^ 63" and len: "length buf = bszn + 20"
  shows "accepted_insns bs bszn pos xs \<Longrightarrow> \<exists>st'. check_loop xed opts bs buf xs st = Inr st'"
proof (induction xs arbitrary: pos)
  case Nil
  show ?case by simp
next
  case (Cons x xs)
  obtain a0 raw0 where x: "x = (a0, raw0)" by (cases x)
  from Cons.prems have al: "a0 = bs + of_nat pos" and le: "pos + length raw0 \<le> bszn"
    and acc: "accepted_insns bs bszn (pos + length raw0) xs"
    by (simp_all add: x)
  have "pos < 2 ^ 64" using N le by simp
  then have "unat (a0 - bs) = pos" by (simp add: al unat_of_nat64)
  then have "\<not> length buf < unat (a0 - bs) + 16" using len le by simp
  with Cons.IH [OF acc] show ?case by (auto simp: x)
qed

lemma doBlock_returns:
  assumes m: "malloc_ok (unat (block_size block + 20))"
    and N: "unat (block_size block) + 20 < 2 ^ 63"
    and L: "\<forall>(a, raw) \<in> set (insns block). length raw < 2 ^ 63"
  shows "\<exists>st'. doBlock xed malloc_ok opts block st = Inr st'"
proof -
  let ?n = "unat (block_size block)"
  let ?st = "st\<lparr>num_bytes := num_bytes st + block_size block,
                num_instns := num_instns st + of_nat (length (insns block))\<rparr>"
  have "?n + unat (20 :: 64 word) < 2 ^ LENGTH(64)" using N by simp
  then have "unat (block_size block + 20) = ?n + 20"
    by (simp add: unat_add_lem [THEN iffD1])
  then have len: "length (doBlock_buf block) = ?n + 20" by (simp add: doBlock_buf_def)
  from fill_loop_accepts [OF N L _ len, of 0 opts "start block" ?st]
  consider s1 where "fill_loop opts (start block) (block_size block) (insns block) 0
                       (doBlock_buf block) ?st = Inr (None, s1)"
    | buf' where "fill_loop opts (start block) (block_size block) (insns block) 0
                       (doBlock_buf block) ?st = Inr (Some buf', ?st)"
        "length buf' = ?n + 20" "accepted_insns (start block) ?n 0 (insns block)"
    by auto
  then show ?thesis
  proof cases
    case 1
    with m show ?thesis by (simp add: doBlock_def)
  next
    case 2
    from check_loop_accepted [OF N 2(2) 2(3), of xed opts ?st] 2(1) m show ?thesis
      by (simp add: doBlock_def)
  qed
qed

lemma doBlock_length_error_iff:
  assumes m: "malloc_ok (unat (block_size block + 20))"
    and N: "unat (block_size block) + 20 < 2 ^ 63"
    and L: "\<forall>(a, raw) \<in> set (insns block). length raw < 2 ^ 63"
  shows "(\<exists>st'. doBlock xed malloc_ok opts block st = Inr st' \<and>
            num_block_length_errors st' = num_block_length_errors st + 1) \<longleftrightarrow>
         (\<exists>pre a raw rest. insns block = pre @ (a, raw) # rest \<and>
            accepted_insns (start block) (unat (block_size block)) 0 pre \<and>
            a = start block + of_nat (length (concat (map snd pre))) \<and>
            unat (block_size block) < length (concat (map snd pre)) + length raw)"
proof -
  let ?n = "unat (block_size block)"
  let ?st = "st\<lparr>num_bytes := num_bytes st + block_size block,
                num_instns := num_instns st + of_nat (length (insns block))\<rparr>"
  let ?fill = "fill_loop opts (start block) (block_size block) (insns block) 0
                 (doBlock_buf block) ?st"
  have "?n + unat (20 :: 64 word) < 2 ^ LENGTH(64)" using N by simp
  then have "unat (block_size block + 20) = ?n + 20"
    by (simp add: unat_add_lem [THEN iffD1])
  then have len: "length (doBlock_buf block) = ?n + 20" by (simp add: doBlock_buf_def)
  have "(\<exists>st'. doBlock xed malloc_ok opts block st = Inr st' \<and>
            num_block_length_errors st' = num_block_length_errors st + 1) \<longleftrightarrow>
        (\<exists>s1. ?fill = Inr (None, s1) \<and>
            num_block_length_errors s1 = num_block_length_errors ?st + 1)"
  proof
    assume "\<exists>st'. doBlock xed malloc_ok opts block st = Inr st' \<and>
            num_block_length_errors st' = num_block_length_errors st + 1"
    then obtain st' where d: "doBlock xed malloc_ok opts block st = Inr st'"
      and e: "num_block_length_errors st' = num_block_length_errors st + 1"
      by blast
    show "\<exists>s1. ?fill = Inr (None, s1) \<and>
            num_block_length_errors s1 = num_block_length_errors ?st + 1"
    proof (cases ?fill)
      case (Inl f)
      with d m show ?thesis by (simp add: doBlock_def)
    next
      case (Inr p)
      obtain r s1 where p: "p = (r, s1)" by (cases p)
      show ?thesis
      proof (cases r)
        case None
        with d m Inr p e show ?thesis by (simp add: doBlock_def)
      next
        case (Some buf')
        from fill_loop_errors [OF Inr [unfolded p]] Some have s1: "s1 = ?st" by simp
        from d m Inr p Some s1
        have "check_loop xed opts (start block) buf' (insns block) ?st = Inr st'"
          by (simp add: doBlock_def)
        from check_loop_errors [OF this] e show ?thesis
          by (auto simp: block_errors_def)
      qed
    qed
  next
    assume "\<exists>s1. ?fill = Inr (None, s1) \<and>
            num_block_length_errors s1 = num_block_length_errors ?st + 1"
    with m show "\<exists>st'. doBlock xed malloc_ok opts block st = Inr st' \<and>
            num_block_length_errors st' = num_block_length_errors st + 1"
      by (auto simp: doBlock_def)
  qed
  also have "\<dots> \<longleftrightarrow>
         (\<exists>pre a raw rest. insns block = pre @ (a, raw) # rest \<and>
            accepted_insns (start block) ?n 0 pre \<and>
            a = start block + of_nat (length (concat (map snd pre))) \<and>
            ?n < length (concat (map snd pre)) + length raw)"
    using fill_loop_length_error_iff [OF N L _ len, of 0 opts "start block" ?st]
    by simp
  finally show ?thesis .
qed


text \<open>
  Claim C5, as amended. The buffer \<^verbatim>\<open>doBlock\<close> reconstructs the block in has the length
  of the block plus 20 bytes, and \<^verbatim>\<open>doBlock\<close> ends the process with status 1 exactly when
  the allocation of that many bytes is refused. When it is granted (and the sizes are
  below \<open>2 ^ 63\<close>), \<^verbatim>\<open>doBlock\<close> returns, and it records a length error exactly when some
  claimed instruction, all the ones before it having been accepted (each at the running
  offset and ending within the block), starts at the running offset and the running
  offset plus its claimed length is greater than the length of the block. The bound is
  the length of the block, not that of the buffer. The last three conjuncts state the
  same test for one step of the walk: the comparison is one of unsigned 64-bit values
  (and of numbers, whenever the sum does not wrap), and the walk ends there.
\<close>

theorem doBlock_length_error_bound:
  "block_size block = end_addr block - start block \<and>
   length (doBlock_buf block) = unat (block_size block + 20) \<and>
   (unat (block_size block) + 20 < 2 ^ 64 \<longrightarrow>
      length (doBlock_buf block) = unat (block_size block) + 20) \<and>
   (doBlock xed malloc_ok opts block st = Inl (Exit 1) \<longleftrightarrow>
      \<not> malloc_ok (unat (block_size block + 20))) \<and>
   (malloc_ok (unat (block_size block + 20)) \<and> unat (block_size block) + 20 < 2 ^ 63 \<and>
    (\<forall>(a, raw) \<in> set (insns block). length raw < 2 ^ 63) \<longrightarrow>
      (\<exists>st'. doBlock xed malloc_ok opts block st = Inr st') \<and>
      ((\<exists>st'. doBlock xed malloc_ok opts block st = Inr st' \<and>
              num_block_length_errors st' = num_block_length_errors st + 1) \<longleftrightarrow>
       (\<exists>pre a raw rest. insns block = pre @ (a, raw) # rest \<and>
          accepted_insns (start block) (unat (block_size block)) 0 pre \<and>
          a = start block + of_nat (length (concat (map snd pre))) \<and>
          unat (block_size block) < length (concat (map snd pre)) + length raw))) \<and>
   ((\<exists>s1. fill_loop opts bs bsz [(a, raw)] pos buf st = Inr (None, s1) \<and>
          num_block_length_errors s1 = num_block_length_errors st + 1) \<longleftrightarrow>
      bs + pos = a \<and> bsz < pos + of_nat (length raw)) \<and>
   (bs + pos = a \<and> bsz < pos + of_nat (length raw) \<longrightarrow>
      fill_loop opts bs bsz ((a, raw) # rest) pos buf st =
        Inr (None, (print_line opts (TooLongLine bs pos (of_nat (length raw)) bsz) st)
                     \<lparr>num_block_length_errors := num_block_length_errors st + 1\<rparr>)) \<and>
   (unat pos + length raw < 2 ^ 64 \<longrightarrow>
      (bsz < pos + of_nat (length raw) \<longleftrightarrow> unat bsz < unat pos + length raw))"
proof -
  have len: "unat (block_size block) + 20 < 2 ^ 64 \<longrightarrow>
      length (doBlock_buf block) = unat (block_size block) + 20"
  proof
    assume "unat (block_size block) + 20 < 2 ^ 64"
    then have "unat (block_size block) + unat (20 :: 64 word) < 2 ^ LENGTH(64)" by simp
    then have "unat (block_size block + 20) = unat (block_size block) + 20"
      by (simp add: unat_add_lem [THEN iffD1])
    then show "length (doBlock_buf block) = unat (block_size block) + 20"
      by (simp add: doBlock_buf_def)
  qed
  have run: "malloc_ok (unat (block_size block + 20)) \<and>
    unat (block_size block) + 20 < 2 ^ 63 \<and>
    (\<forall>(a, raw) \<in> set (insns block). length raw < 2 ^ 63) \<longrightarrow>
      (\<exists>st'. doBlock xed malloc_ok opts block st = Inr st') \<and>
      ((\<exists>st'. doBlock xed malloc_ok opts block st = Inr st' \<and>
              num_block_length_errors st' = num_block_length_errors st + 1) \<longleftrightarrow>
       (\<exists>pre a raw rest. insns block = pre @ (a, raw) # rest \<and>
          accepted_insns (start block) (unat (block_size block)) 0 pre \<and>
          a = start block + of_nat (length (concat (map snd pre))) \<and>
          unat (block_size block) < length (concat (map snd pre)) + length raw))"
    using doBlock_returns [of malloc_ok block xed opts st]
      doBlock_length_error_iff [of malloc_ok block xed opts st]
    by blast
  have iff: "(\<exists>s1. fill_loop opts bs bsz [(a, raw)] pos buf st = Inr (None, s1) \<and>
          num_block_length_errors s1 = num_block_length_errors st + 1) \<longleftrightarrow>
      bs + pos = a \<and> bsz < pos + of_nat (length raw)"
    by (auto split: sum.splits)
  have nat: "unat pos + length raw < 2 ^ 64 \<longrightarrow>
      (bsz < pos + of_nat (length raw) \<longleftrightarrow> unat bsz < unat pos + length raw)"
  proof
    assume b: "unat pos + length raw < 2 ^ 64"
    then have "length raw < 2 ^ 64" by simp
    then have u: "unat (of_nat (length raw) :: 64 word) = length raw"
      by (rule unat_of_nat64)
    with b have "unat pos + unat (of_nat (length raw) :: 64 word) < 2 ^ LENGTH(64)" by simp
    then have "unat (pos + of_nat (length raw)) = unat pos + length raw"
      using u by (simp add: unat_add_lem [THEN iffD1])
    then show "bsz < pos + of_nat (length raw) \<longleftrightarrow> unat bsz < unat pos + length raw"
      by (simp add: word_less_nat_alt)
  qed
  have fst: "length (doBlock_buf block) = unat (block_size block + 20)"
    by (simp add: doBlock_buf_def)
  have stop: "bs + pos = a \<and> bsz < pos + of_nat (length raw) \<longrightarrow>
      fill_loop opts bs bsz ((a, raw) # rest) pos buf st =
        Inr (None, (print_line opts (TooLongLine bs pos (of_nat (length raw)) bsz) st)
                     \<lparr>num_block_length_errors := num_block_length_errors st + 1\<rparr>)"
    by simp
  have bs: "block_size block = end_addr block - start block" by (simp add: block_size_def)
  from bs fst len doBlock_exit_iff [of xed malloc_ok opts block st] run iff stop nat
  show ?thesis by blast
qed

theorem doBlock_length_error_bound_witness:
  "doBlock example_xed (\<lambda>n. True) default_opts
     \<lparr>start = 0x1000, end_addr = 0x1004,
      insns = [(0x1000, [0x31, 0xc0]), (0x1002, [0x90, 0x90, 0x90])]\<rparr> init_globals =
     Inr (init_globals\<lparr>num_bytes := 4, num_instns := 2, num_block_length_errors := 1,
            out := [TooLongLine 0x1000 2 3 4]\<rparr>) \<and>
   (\<exists>pre a raw rest.
      [(0x1000, [0x31, 0xc0]), (0x1002, [0x90, 0x90, 0x90 :: byte])] = pre @ (a, raw) # rest \<and>
      accepted_insns 0x1000 4 0 pre \<and>
      a = 0x1000 + of_nat (length (concat (map snd pre))) \<and>
      4 < length (concat (map snd pre)) + length raw) \<and>
   doBlock example_xed (\<lambda>n. True) default_opts
     \<lparr>start = 0x1000, end_addr = 0x1004,
      insns = [(0x1000, [0x31, 0xc0]), (0x1002, [0x31, 0xc0])]\<rparr> init_globals =
     Inr (init_globals\<lparr>num_bytes := 4, num_instns := 2\<rparr>) \<and>
   \<not> (\<exists>pre a raw rest.
      [(0x1000, [0x31, 0xc0]), (0x1002, [0x31, 0xc0 :: byte])] = pre @ (a, raw) # rest \<and>
      accepted_insns 0x1000 4 0 pre \<and>
      a = 0x1000 + of_nat (length (concat (map snd pre))) \<and>
      4 < length (concat (map snd pre)) + length raw) \<and>
   doBlock example_xed (\<lambda>n. n < 24) default_opts
     \<lparr>start = 0x1000, end_addr = 0x1004,
      insns = [(0x1000, [0x31, 0xc0]), (0x1002, [0x31, 0xc0])]\<rparr> init_globals =
     Inl (Exit 1) \<and>
   length (doBlock_buf \<lparr>start = 0x1000, end_addr = 0x1004, insns = []\<rparr>) = 24"
proof -
  let ?B1 = "\<lparr>start = 0x1000, end_addr = 0x1004,
      insns = [(0x1000, [0x31, 0xc0]), (0x1002, [0x90, 0x90, 0x90])]\<rparr> :: Block"
  let ?B2 = "\<lparr>start = 0x1000, end_addr = 0x1004,
      insns = [(0x1000, [0x31, 0xc0]), (0x1002, [0x31, 0xc0])]\<rparr> :: Block"
  have r1: "doBlock example_xed (\<lambda>n. True) default_opts ?B1 init_globals =
     Inr (init_globals\<lparr>num_bytes := 4, num_instns := 2, num_block_length_errors := 1,
            out := [TooLongLine 0x1000 2 3 4]\<rparr>)"
    by (simp add: doBlock_def doBlock_buf_def block_size_def print_line_def default_opts_def
        init_globals_def)
  have clean: "clean_block example_xed ?B2"
    by (simp add: clean_block_def block_bytes_def block_size_def example_xed_def)
  have r2: "doBlock example_xed (\<lambda>n. True) default_opts ?B2 init_globals =
     Inr (init_globals\<lparr>num_bytes := 4, num_instns := 2\<rparr>)"
    using doBlock_clean [where xed = example_xed and block = ?B2
            and malloc_ok = "\<lambda>n. True" and opts = default_opts and st = init_globals] clean
    by (simp add: block_size_def init_globals_def)
  have r3: "doBlock example_xed (\<lambda>n. n < 24) default_opts ?B2 init_globals = Inl (Exit 1)"
    by (simp add: doBlock_def block_size_def)
  have e1: "\<exists>pre a raw rest.
      [(0x1000, [0x31, 0xc0]), (0x1002, [0x90, 0x90, 0x90 :: byte])] = pre @ (a, raw) # rest \<and>
      accepted_insns 0x1000 4 0 pre \<and>
      a = 0x1000 + of_nat (length (concat (map snd pre))) \<and>
      4 < length (concat (map snd pre)) + length raw"
    using doBlock_length_error_bound [where xed = example_xed and malloc_ok = "\<lambda>n. True"
      and opts = default_opts and block = ?B1 and st = init_globals] r1
    by (simp add: block_size_def init_globals_def)
  have e2: "\<not> (\<exists>pre a raw rest.
      [(0x1000, [0x31, 0xc0]), (0x1002, [0x31, 0xc0 :: byte])] = pre @ (a, raw) # rest \<and>
      accepted_insns 0x1000 4 0 pre \<and>
      a = 0x1000 + of_nat (length (concat (map snd pre))) \<and>
      4 < length (concat (map snd pre)) + length raw)"
    using doBlock_length_error_bound [where xed = example_xed and malloc_ok = "\<lambda>n. True"
      and opts = default_opts and block = ?B2 and st = init_globals] r2
    by (simp add: block_size_def init_globals_def)
  have l: "length (doBlock_buf \<lparr>start = 0x1000, end_addr = 0x1004, insns = []\<rparr>) = 24"
    by (simp add: doBlock_buf_def block_size_def)
  from r1 e1 r2 e2 r3 l show ?thesis by blast
qed

text \<open>
  The claim C5 as stated (a length error exactly when the instruction would exceed the
  reconstructed buffer) fails: in a block of 4 bytes, whose buffer has 24, an instruction
  of 6 bytes claimed at offset 0 would fit the buffer, and a length error is recorded.
\<close>

theorem doBlock_length_error_counterexample:
  "doBlock example_xed (\<lambda>n. True) default_opts
     \<lparr>start = 0x1000, end_addr = 0x1004,
      insns = [(0x1000, [0x90, 0x90, 0x90, 0x90, 0x90, 0x90])]\<rparr> init_globals =
     Inr (init_globals\<lparr>num_bytes := 4, num_instns := 1, num_block_length_errors := 1,
            out := [TooLongLine 0x1000 0 6 4]\<rparr>) \<and>
   0 + length [0x90, 0x90, 0x90, 0x90, 0x90, 0x90 :: byte] \<le>
     length (doBlock_buf \<lparr>start = 0x1000, end_addr = 0x1004,
               insns = [(0x1000, [0x90, 0x90, 0x90, 0x90, 0x90, 0x90])]\<rparr>)"
  by (simp add: doBlock_def doBlock_buf_def block_size_def print_line_def default_opts_def
        init_globals_def)

end
